(* ===== verification/Prelude.thy ===== *)
theory Prelude
  imports Main "HOL-Library.Word"
begin

text \<open>
  Shared vocabulary of the development: the machine types, the names of the kernel's
  spinlocks and sleep channels, the state-and-failure monad in which every kernel
  routine is written, a weakest-precondition calculus for it, bounded loops, and
  little-endian integers inside byte arrays.
\<close>

section \<open>Machine types\<close>

type_synonym byte = "8 word"
type_synonym u16 = "16 word"
type_synonym u32 = "32 word"
type_synonym u64 = "64 word"

text \<open>
  A byte array (a disk block, a page, the physical memory) is a function from the index.
  Only the indices below the array's size are ever used.
\<close>

type_synonym bytes = "nat \<Rightarrow> byte"

section \<open>Names of locks and sleep channels\<close>

text \<open>
  The code identifies a lock by the address of its \<open>struct spinlock\<close> and a sleep channel
  by an arbitrary address. Here both are named by the variable whose address is used.
  A sleep lock is named by the structure that contains it (a buffer or an inode, by its
  index in \<open>bcache.buf\<close> or \<open>itable.inode\<close>). \<open>Chan_null\<close> is the null address.
\<close>

datatype slock = Buf_slock nat | Inode_slock nat

datatype lockid =
    Kmem_lock | Bcache_lock | Log_lock | Itable_lock | Ftable_lock | Pid_lock
  | Wait_lock | Proc_lock nat | Sleep_lk slock | Pipe_lock nat | Cons_lock
  | Uart_tx_lock | Ticks_lock | Vdisk_lock | Pr_lock

datatype chan =
    Chan_slock slock | Chan_log | Chan_ticks | Chan_proc nat | Chan_nread nat
  | Chan_nwrite nat | Chan_cons_r | Chan_uart_tx_r | Chan_disk_free | Chan_buf nat
  | Chan_null

section \<open>Kernel routines: state, panic, sleep\<close>

text \<open>
  A kernel routine maps a state to an outcome. \<open>Ok a s\<close>: it returned \<open>a\<close> in state \<open>s\<close>.
  \<open>Panic msg\<close>: it called \<open>panic(msg)\<close>, which never returns. \<open>Switch s\<close>: it gave up the
  CPU in \<open>sched()\<close> (inside \<open>sleep\<close>, \<open>yield\<close> or \<open>exit\<close>), leaving state \<open>s\<close>; a sleeping routine
  re-enters its enclosing \<open>while\<close> loop when the process is woken. \<open>Diverge\<close>: a loop did not end within its bound, or the
  routine did something C leaves undefined (a store outside an array, a missing argument of \<open>printf\<close>).
\<close>

datatype ('a, 's) res = Ok 'a 's | Panic string | Switch 's | Diverge

type_synonym ('a, 's) kern = "'s \<Rightarrow> ('a, 's) res"

definition ret :: "'a \<Rightarrow> ('a, 's) kern" where
  "ret a = (\<lambda>s. Ok a s)"

definition bind :: "('a, 's) kern \<Rightarrow> ('a \<Rightarrow> ('b, 's) kern) \<Rightarrow> ('b, 's) kern" where
  "bind m f = (\<lambda>s. case m s of Ok a t \<Rightarrow> f a t | Panic e \<Rightarrow> Panic e
                              | Switch t \<Rightarrow> Switch t | Diverge \<Rightarrow> Diverge)"

definition andthen :: "('a, 's) kern \<Rightarrow> ('b, 's) kern \<Rightarrow> ('b, 's) kern" where
  "andthen m n = bind m (\<lambda>_. n)"

definition panic :: "string \<Rightarrow> ('a, 's) kern" where
  "panic msg = (\<lambda>s. Panic msg)"

definition diverge :: "('a, 's) kern" where
  "diverge = (\<lambda>s. Diverge)"

definition gets :: "('s \<Rightarrow> 'a) \<Rightarrow> ('a, 's) kern" where
  "gets f = (\<lambda>s. Ok (f s) s)"

definition upd :: "('s \<Rightarrow> 's) \<Rightarrow> (unit, 's) kern" where
  "upd f = (\<lambda>s. Ok () (f s))"

definition unless_panic :: "bool \<Rightarrow> string \<Rightarrow> (unit, 's) kern" where
  "unless_panic b msg = (if b then ret () else panic msg)"

text \<open>\<open>for(x in xs) body(x)\<close>: the bounded loops of the kernel.\<close>

fun mfor :: "'a list \<Rightarrow> ('a \<Rightarrow> (unit, 's) kern) \<Rightarrow> (unit, 's) kern" where
  "mfor [] body = ret ()"
| "mfor (x # xs) body = bind (body x) (\<lambda>_. mfor xs body)"

named_theorems exec_simps \<open>running a routine on a symbolic state\<close>

lemma ret_run [exec_simps]: "ret a s = Ok a s"
  by (simp add: ret_def)

lemma gets_run [exec_simps]: "gets f s = Ok (f s) s"
  by (simp add: gets_def)

lemma upd_run [exec_simps]: "upd f s = Ok () (f s)"
  by (simp add: upd_def)

lemma panic_run [exec_simps]: "panic msg s = Panic msg"
  by (simp add: panic_def)

lemma diverge_run [exec_simps]: "diverge s = Diverge"
  by (simp add: diverge_def)

lemma bind_run_Ok [exec_simps]: "m s = Ok a t \<Longrightarrow> bind m f s = f a t"
  by (simp add: bind_def)

lemma bind_run_Panic [exec_simps]: "m s = Panic e \<Longrightarrow> bind m f s = Panic e"
  by (simp add: bind_def)

lemma bind_run_Switch [exec_simps]: "m s = Switch t \<Longrightarrow> bind m f s = Switch t"
  by (simp add: bind_def)

lemma bind_run_Diverge [exec_simps]: "m s = Diverge \<Longrightarrow> bind m f s = Diverge"
  by (simp add: bind_def)

lemma andthen_run_Ok [exec_simps]: "m s = Ok a t \<Longrightarrow> andthen m n s = n t"
  by (simp add: andthen_def bind_def)

lemma andthen_run_Panic [exec_simps]: "m s = Panic e \<Longrightarrow> andthen m n s = Panic e"
  by (simp add: andthen_def bind_def)

lemma andthen_run_Switch [exec_simps]: "m s = Switch t \<Longrightarrow> andthen m n s = Switch t"
  by (simp add: andthen_def bind_def)

lemma andthen_run_Diverge [exec_simps]: "m s = Diverge \<Longrightarrow> andthen m n s = Diverge"
  by (simp add: andthen_def bind_def)

lemma unless_panic_run [exec_simps]:
  "unless_panic b msg s = (if b then Ok () s else Panic msg)"
  by (simp add: unless_panic_def ret_def panic_def)

lemma bind_Ok_iff:
  "bind m f s = Ok b t \<longleftrightarrow> (\<exists>a u. m s = Ok a u \<and> f a u = Ok b t)"
  by (auto simp: bind_def split: res.splits)

lemma andthen_Ok_iff:
  "andthen m n s = Ok b t \<longleftrightarrow> (\<exists>a u. m s = Ok a u \<and> n u = Ok b t)"
  by (auto simp: andthen_def bind_Ok_iff)

lemma bind_assoc: "bind (bind m f) g = bind m (\<lambda>a. bind (f a) g)"
  by (rule ext) (simp add: bind_def split: res.split)

lemma bind_cong_run: "m s = m' s \<Longrightarrow> (\<And>a t. m s = Ok a t \<Longrightarrow> f a t = g a t) \<Longrightarrow> bind m f s = bind m' g s"
  by (auto simp: bind_def split: res.split)

text \<open>
  \<open>wp m Q s\<close>: started in \<open>s\<close> the routine returns (no panic, no sleep, no divergence), and
  what it returns satisfies \<open>Q\<close>. Proofs that a routine completes are by this calculus.
\<close>

definition wp :: "('a, 's) kern \<Rightarrow> ('a \<Rightarrow> 's \<Rightarrow> bool) \<Rightarrow> 's \<Rightarrow> bool" where
  "wp m Q s = (case m s of Ok a t \<Rightarrow> Q a t | _ \<Rightarrow> False)"

lemma mfor_append: "mfor (xs @ ys) body = bind (mfor xs body) (\<lambda>_. mfor ys body)"
proof (induction xs)
  case Nil
  show ?case by (simp add: bind_def ret_def)
next
  case (Cons x xs)
  then show ?case by (simp add: bind_assoc)
qed

named_theorems wp_simps \<open>weakest preconditions of the basic routines\<close>

lemma wp_iff: "wp m Q s \<longleftrightarrow> (\<exists>a t. m s = Ok a t \<and> Q a t)"
  by (auto simp: wp_def split: res.splits)

lemma wp_Ok: "m s = Ok a t \<Longrightarrow> wp m Q s = Q a t"
  by (simp add: wp_def)

lemma wp_ret [wp_simps]: "wp (ret a) Q s = Q a s"
  by (simp add: wp_def ret_def)

lemma wp_gets [wp_simps]: "wp (gets f) Q s = Q (f s) s"
  by (simp add: wp_def gets_def)

lemma wp_upd [wp_simps]: "wp (upd f) Q s = Q () (f s)"
  by (simp add: wp_def upd_def)

lemma wp_panic [wp_simps]: "wp (panic e) Q s = False"
  by (simp add: wp_def panic_def)

lemma wp_bind [wp_simps]: "wp (bind m f) Q s = wp m (\<lambda>a t. wp (f a) Q t) s"
  by (auto simp: wp_def bind_def split: res.splits)

lemma wp_andthen [wp_simps]: "wp (andthen m n) Q s = wp m (\<lambda>_ t. wp n Q t) s"
  by (simp add: andthen_def wp_bind)

lemma wp_unless_panic [wp_simps]: "wp (unless_panic b e) Q s = (b \<and> Q () s)"
  by (simp add: unless_panic_def wp_ret wp_panic)

lemma wp_if [wp_simps]: "wp (if b then m else n) Q s = (if b then wp m Q s else wp n Q s)"
  by simp

lemma wp_conseq: "wp m Q s \<Longrightarrow> (\<And>a t. Q a t \<Longrightarrow> R a t) \<Longrightarrow> wp m R s"
  by (auto simp: wp_iff)

lemma wp_mfor:
  assumes "I [] s"
    and "\<And>pre x rest t. xs = pre @ x # rest \<Longrightarrow> I pre t \<Longrightarrow>
           wp (body x) (\<lambda>_ u. I (pre @ [x]) u) t"
  shows "wp (mfor xs body) (\<lambda>_ t. I xs t) s"
proof -
  have "wp (mfor rest body) (\<lambda>_ u. I xs u) t"
    if "xs = pre @ rest" "I pre t" for pre rest t
    using that
  proof (induction rest arbitrary: pre t)
    case Nil
    then show ?case by (simp add: wp_ret)
  next
    case (Cons x rest)
    have "wp (body x) (\<lambda>_ u. I (pre @ [x]) u) t"
      using Cons.prems by (rule assms(2))
    moreover have "wp (mfor rest body) (\<lambda>_ u. I xs u) u" if "I (pre @ [x]) u" for u
      using Cons.prems(1) that by (intro Cons.IH) simp_all
    ultimately show ?case
      by (auto simp: wp_bind intro: wp_conseq)
  qed
  from this [of "[]" xs s] assms(1) show ?thesis by simp
qed

lemma mfor_run:
  assumes "I s"
    and "\<And>x t. x \<in> set xs \<Longrightarrow> I t \<Longrightarrow> body x t = Ok () (g x t)"
    and "\<And>x t. x \<in> set xs \<Longrightarrow> I t \<Longrightarrow> I (g x t)"
  shows "mfor xs body s = Ok () (fold g xs s)"
  using assms
proof (induction xs arbitrary: s)
  case Nil
  then show ?case by (simp add: ret_run)
next
  case (Cons x xs)
  have "mfor xs body (g x s) = Ok () (fold g xs (g x s))"
    using Cons.prems by (intro Cons.IH) auto
  then show ?case
    using Cons.prems(1) by (simp add: exec_simps Cons.prems(2))
qed

section \<open>Scanning a table\<close>

text \<open>The kernel's tables are scanned from index 0; the scan stops at the least match.\<close>

lemma find_upt:
  assumes "p < n" "P p" "\<And>j. j < p \<Longrightarrow> \<not> P j"
  shows "List.find P [0..<n] = Some p"
proof -
  have "p < length [0..<n] \<and> P ([0..<n] ! p) \<and> p = [0..<n] ! p \<and> (\<forall>j<p. \<not> P ([0..<n] ! j))"
    using assms by simp
  then show ?thesis unfolding find_Some_iff by blast
qed

lemma find_Least:
  assumes "\<exists>p < n. P p"
  shows "List.find P [0..<n] = Some (LEAST p. P p)"
proof (rule find_upt)
  from assms obtain p0 where p0: "p0 < n" "P p0" by blast
  show "P (LEAST p. P p)" using p0(2) by (rule LeastI)
  have "(LEAST p. P p) \<le> p0" using p0(2) by (rule Least_le)
  with p0(1) show "(LEAST p. P p) < n" by simp
  show "\<not> P j" if "j < (LEAST p. P p)" for j using not_less_Least [OF that] .
qed

section \<open>Unsigned counters\<close>

text \<open>\<open>x++\<close> and \<open>x--\<close> on a 32-bit unsigned counter kept as a natural number below \<open>2 ^ 32\<close>.\<close>

definition inc32 :: "nat \<Rightarrow> nat" where
  "inc32 n = (n + 1) mod 2 ^ 32"

definition dec32 :: "nat \<Rightarrow> nat" where
  "dec32 n = (n + (2 ^ 32 - 1)) mod 2 ^ 32"

lemma inc32_small [simp]: "n < 2 ^ 32 - 1 \<Longrightarrow> inc32 n = n + 1"
  by (simp add: inc32_def)

lemma dec32_small [simp]:
  assumes "0 < n" "n < 2 ^ 32"
  shows "dec32 n = n - 1"
proof -
  have "n + (2 ^ 32 - 1) = (n - 1) + 2 ^ 32" using assms(1) by simp
  then have "dec32 n = (n - 1) mod 2 ^ 32" unfolding dec32_def by (simp only: mod_add_self2)
  then show ?thesis using assms(2) by simp
qed

text \<open>A 32-bit pattern read as a C \<open>int\<close>, and back.\<close>

definition int32 :: "nat \<Rightarrow> int" where
  "int32 n = (if n mod 2 ^ 32 < 2 ^ 31 then int (n mod 2 ^ 32) else int (n mod 2 ^ 32) - 2 ^ 32)"

definition nat32 :: "int \<Rightarrow> nat" where
  "nat32 i = nat (i mod 2 ^ 32)"

lemma int32_nat32:
  assumes "- (2 ^ 31) \<le> i" "i < 2 ^ 31"
  shows "int32 (nat32 i) = i"
proof (cases "0 \<le> i")
  case True
  with assms show ?thesis by (simp add: int32_def nat32_def)
next
  case False
  have "i mod 2 ^ 32 = i + 2 ^ 32" using False assms by (intro int_mod_pos_eq [of _ _ "-1"]) auto
  with False assms show ?thesis by (simp add: int32_def nat32_def)
qed

text \<open>The result of an operation on C \<open>int\<close>s, computed by the hardware: two's complement, 32 bits.\<close>

definition wrap32 :: "int \<Rightarrow> int" where
  "wrap32 i = int32 (nat32 i)"

lemma wrap32_id [simp]: "- (2 ^ 31) \<le> i \<Longrightarrow> i < 2 ^ 31 \<Longrightarrow> wrap32 i = i"
  by (simp add: wrap32_def int32_nat32)

lemma wrap32_inc [simp]: "0 \<le> i \<Longrightarrow> i < 2 ^ 31 - 1 \<Longrightarrow> wrap32 (i + 1) = i + 1"
  by simp

lemma wrap32_max: "wrap32 (2 ^ 31) = - (2 ^ 31)"
  by (simp add: wrap32_def int32_def nat32_def)

lemma nat32_small [simp]: "0 \<le> i \<Longrightarrow> i < 2 ^ 32 \<Longrightarrow> nat32 i = nat i"
  by (simp add: nat32_def)

lemma int32_small [simp]: "n < 2 ^ 31 \<Longrightarrow> int32 n = int n"
  by (simp add: int32_def)

section \<open>Little-endian integers in byte arrays\<close>

text \<open>
  RISC-V stores integers little-endian. \<open>le_get m a n\<close> is the unsigned value of the \<open>n\<close>
  bytes at index \<open>a\<close>, \<open>le_put m a n v\<close> stores the low \<open>n\<close> bytes of \<open>v\<close> there. Fields of
  C structures inside disk blocks and page-table entries inside pages are read and
  written with them.
\<close>

fun le_dec :: "byte list \<Rightarrow> nat" where
  "le_dec [] = 0"
| "le_dec (b # bs) = unat b + 256 * le_dec bs"

fun le_enc :: "nat \<Rightarrow> nat \<Rightarrow> byte list" where
  "le_enc 0 v = []"
| "le_enc (Suc n) v = word_of_nat v # le_enc n (v div 256)"

definition le_get :: "bytes \<Rightarrow> nat \<Rightarrow> nat \<Rightarrow> nat" where
  "le_get m a n = le_dec (map (\<lambda>i. m (a + i)) [0..<n])"

definition put_bytes :: "bytes \<Rightarrow> nat \<Rightarrow> byte list \<Rightarrow> bytes" where
  "put_bytes m a bs = (\<lambda>i. if a \<le> i \<and> i < a + length bs then bs ! (i - a) else m i)"

definition get_bytes :: "bytes \<Rightarrow> nat \<Rightarrow> nat \<Rightarrow> byte list" where
  "get_bytes m a n = map (\<lambda>i. m (a + i)) [0..<n]"

definition le_put :: "bytes \<Rightarrow> nat \<Rightarrow> nat \<Rightarrow> nat \<Rightarrow> bytes" where
  "le_put m a n v = put_bytes m a (le_enc n v)"

lemma length_le_enc [simp]: "length (le_enc n v) = n"
  by (induction n arbitrary: v) auto

lemma le_dec_enc: "le_dec (le_enc n v) = v mod 256 ^ n"
proof (induction n arbitrary: v)
  case 0
  then show ?case by simp
next
  case (Suc n)
  have "unat (word_of_nat v :: byte) = v mod 256"
    by (simp add: unat_of_nat)
  then show ?case
    using Suc.IH [of "v div 256"] by (simp add: mod_mult2_eq mult.commute)
qed

lemma unat_byte_less: "unat (b :: byte) < 256"
  using unsigned_less [of b, where ?'a = nat] by simp

lemma byte_uint_eq: "uint a = uint b \<longleftrightarrow> a = (b :: byte)"
  by (simp add: word_uint_eq_iff)

lemma le_dec_less: "le_dec bs < 256 ^ length bs"
proof (induction bs)
  case Nil
  then show ?case by simp
next
  case (Cons b bs)
  have "unat b < 256"
    using unat_byte_less [of b] by simp
  with Cons show ?case by simp
qed

lemma le_enc_dec: "le_enc (length bs) (le_dec bs) = bs"
proof (induction bs)
  case Nil
  then show ?case by simp
next
  case (Cons b bs)
  have b: "unat b < 256"
    using unat_byte_less [of b] by simp
  have "word_of_nat (unat b + 256 * le_dec bs) = b"
  proof -
    have z: "(256 :: byte) = 0"
      by (simp add: word_eq_iff_unsigned [where ?'a = nat])
    have "word_of_nat (unat b + 256 * le_dec bs) = b + 256 * word_of_nat (le_dec bs)"
      by simp
    also have "\<dots> = b"
      unfolding z by simp
    finally show ?thesis .
  qed
  moreover have "(unat b + 256 * le_dec bs) div 256 = le_dec bs"
    using b by simp
  ultimately show ?case
    using Cons.IH by simp
qed

lemma length_get_bytes [simp]: "length (get_bytes m a n) = n"
  by (simp add: get_bytes_def)

lemma get_bytes_nth [simp]: "i < n \<Longrightarrow> get_bytes m a n ! i = m (a + i)"
  by (simp add: get_bytes_def)

lemma get_put_bytes_same: "n = length bs \<Longrightarrow> get_bytes (put_bytes m a bs) a n = bs"
  by (auto simp: put_bytes_def intro: nth_equalityI)

lemma get_put_bytes_other:
  "a + n \<le> b \<or> b + length bs \<le> a \<Longrightarrow> get_bytes (put_bytes m b bs) a n = get_bytes m a n"
  by (auto simp: put_bytes_def get_bytes_def)

lemma le_get_alt: "le_get m a n = le_dec (get_bytes m a n)"
  by (simp add: le_get_def get_bytes_def)

lemma le_get_less: "le_get m a n < 256 ^ n"
  using le_dec_less [of "get_bytes m a n"] by (simp add: le_get_alt)

lemma le_get_put_same: "le_get (le_put m a n v) a n = v mod 256 ^ n"
  by (simp add: le_get_alt le_put_def get_put_bytes_same le_dec_enc)

lemma le_get_put_other:
  "a + n \<le> b \<or> b + k \<le> a \<Longrightarrow> le_get (le_put m b k v) a n = le_get m a n"
  by (simp add: le_get_alt le_put_def get_put_bytes_other)

lemma le_get_cong: "(\<And>i. i < n \<Longrightarrow> m (a + i) = m' (a + i)) \<Longrightarrow> le_get m a n = le_get m' a n"
  unfolding le_get_def by (rule arg_cong [where f = le_dec]) simp

lemma le_put_outside: "i < a \<or> a + n \<le> i \<Longrightarrow> le_put m a n v i = m i"
  by (auto simp: le_put_def put_bytes_def)

end
