(* ===== verification/Ring.thy ===== *)
theory Ring
  imports Prelude
begin

text \<open>
  Ring buffers with free-running counters: the pipe, the UART transmit buffer and the console input buffer all keep
  bytes in an array of a fixed size, indexed by counters modulo that size, where the counters wrap around at
  the width of their machine type. The locale gives the queue such a buffer represents and what its three
  elementary moves do to it.
\<close>

locale ring_buffer =
  fixes cap :: nat and width :: "'w::len itself"
  assumes cap_pos: "0 < cap"
    and cap_dvd: "cap dvd 2 ^ LENGTH('w)"
    and cap_less: "cap < 2 ^ LENGTH('w)"
begin

definition items :: "(nat \<Rightarrow> byte) \<Rightarrow> 'w word \<Rightarrow> 'w word \<Rightarrow> byte list" where
  "items d r w = map (\<lambda>i. d ((unat r + i) mod cap)) [0..<unat (w - r)]"

lemma length_items [simp]: "length (items d r w) = unat (w - r)"
  by (simp add: items_def)

lemma items_empty [simp]: "items d r r = []"
  by (simp add: items_def)

lemma items_Nil_iff: "items d r w = [] \<longleftrightarrow> r = w"
  using unat_eq_zero [of "w - r"] by (auto simp: items_def)

lemma unat_split: "unat w mod cap = (unat r + unat (w - r)) mod cap" for r w :: "'w word"
proof -
  have "unat w = unat (r + (w - r))" by simp
  also have "\<dots> = (unat r + unat (w - r)) mod 2 ^ LENGTH('w)" by (simp only: unat_word_ariths)
  finally show ?thesis using mod_mod_cancel [OF cap_dvd] by simp
qed

lemma unat_succ: "unat (x + 1) = unat x + 1" if "unat x < cap" for x :: "'w word"
  using that cap_less by (simp add: unat_word_ariths)

lemma fill_push: "unat (w - r) < cap \<Longrightarrow> unat (w + 1 - r) = unat (w - r) + 1" for r w :: "'w word"
  using unat_succ [of "w - r"] by (simp add: algebra_simps)

lemma items_push:
  assumes "unat (w - r) < cap"
  shows "items (d(unat w mod cap := c)) r (w + 1) = items d r w @ [c]"
proof -
  have ne: "(unat r + i) mod cap \<noteq> unat w mod cap" if "i < unat (w - r)" for i
  proof
    assume "(unat r + i) mod cap = unat w mod cap"
    then have "(unat r + unat (w - r)) mod cap = (unat r + i) mod cap" by (simp only: unat_split [of w r])
    then have "cap dvd unat (w - r) - i" using that mod_eq_dvd_iff_nat [of "unat r + i" "unat r + unat (w - r)" cap] by simp
    then show False using that assms nat_dvd_not_less [of "unat (w - r) - i" cap] by simp
  qed
  have n: "unat (w + 1 - r) = Suc (unat (w - r))" using fill_push [OF assms] by simp
  have "items (d(unat w mod cap := c)) r (w + 1)
      = map (\<lambda>i. (d(unat w mod cap := c)) ((unat r + i) mod cap)) ([0..<unat (w - r)] @ [unat (w - r)])"
    unfolding items_def n by simp
  also have "\<dots> = items d r w @ [c]"
    unfolding items_def using ne by (simp add: unat_split [of w r])
  finally show ?thesis .
qed

lemma fill_pop: "r \<noteq> w \<Longrightarrow> unat (w - (r + 1)) = unat (w - r) - 1" for r w :: "'w word"
proof -
  assume "r \<noteq> w"
  then have "w - r \<noteq> 0" by auto
  then have "unat ((w - r) - 1) = unat (w - r) - 1" by (simp add: unat_minus_one)
  then show ?thesis by (simp add: algebra_simps)
qed

lemma items_pop:
  assumes "r \<noteq> w"
  shows "items d r w = d (unat r mod cap) # items d (r + 1) w"
proof -
  have "w - r \<noteq> 0" using assms by auto
  then have n: "unat (w - r) = Suc (unat (w - (r + 1)))" using fill_pop [OF assms] by (simp add: unat_gt_0)
  have s: "(unat (r + 1) + i) mod cap = (unat r + Suc i) mod cap" for i
  proof -
    have "unat (r + 1) mod cap = (unat r + 1) mod cap"
      using mod_mod_cancel [OF cap_dvd] by (simp add: unat_word_ariths)
    then show ?thesis by (metis add.assoc mod_add_left_eq plus_1_eq_Suc)
  qed
  show ?thesis
    unfolding items_def n by (simp add: upt_conv_Cons map_Suc_upt [symmetric] s del: upt_Suc)
qed

lemma fill_unpush: "r \<noteq> w \<Longrightarrow> unat (w - 1 - r) = unat (w - r) - 1" for r w :: "'w word"
  using fill_pop [of r w] by (simp add: algebra_simps)

lemma items_unpush:
  assumes "r \<noteq> w"
  shows "items d r (w - 1) = butlast (items d r w)"
proof -
  have "w - r \<noteq> 0" using assms by auto
  then have n: "unat (w - r) = Suc (unat (w - 1 - r))" using fill_unpush [OF assms] by (simp add: unat_gt_0)
  show ?thesis unfolding items_def n by simp
qed

lemma fill_split: "unat (w - r) \<le> unat (e - r) \<Longrightarrow> unat (e - w) = unat (e - r) - unat (w - r)" for r w e :: "'w word"
  using unat_sub [of "w - r" "e - r"] by (simp add: word_le_nat_alt)

lemma items_split:
  assumes "unat (w - r) \<le> unat (e - r)"
  shows "items d r e = items d r w @ items d w e"
proof -
  let ?a = "unat (w - r)" and ?b = "unat (e - w)"
  have n: "unat (e - r) = ?a + ?b" using fill_split [OF assms] assms by simp
  have s: "(unat w + i) mod cap = (unat r + (i + ?a)) mod cap" for i
  proof -
    have "(unat w + i) mod cap = (unat w mod cap + i) mod cap" by (simp only: mod_add_left_eq)
    also have "\<dots> = ((unat r + ?a) mod cap + i) mod cap" by (simp only: unat_split [of w r])
    also have "\<dots> = (unat r + ?a + i) mod cap" by (simp only: mod_add_left_eq)
    finally show ?thesis by (simp add: ac_simps)
  qed
  have "[0..<unat (e - r)] = [0..<?a] @ map (\<lambda>i. i + ?a) [0..<?b]"
    unfolding n map_add_upt add.commute [of ?b ?a] by (rule upt_add_eq_append) simp
  then show ?thesis unfolding items_def by (simp add: s)
qed

end

end
