(* ===== verification/Spinlock.thy ===== *)
theory Spinlock
  imports Prelude
begin

text \<open>
  Spin locks (\<open>kernel/spinlock.c\<close>, \<open>kernel/spinlock.h\<close>, the interrupt bit of
  \<open>kernel/riscv.h\<close>). The first part is the code itself, run by one hart on the shared
  lock words. The second part is the multi-hart machine: every hart runs \<open>acquire\<close> and
  \<open>release\<close> in the atomic steps the code has, in any interleaving, and the invariant gives
  mutual exclusion. The third part is the contract the other components are written
  against: the view one hart has of its own locks, refined by the code.
\<close>

section \<open>The lock contract\<close>

text \<open>
  What a lock promises its users, whatever implements it: an acquired lock is owned, a
  second acquire by the owner fails, a release needs ownership, and neither touches the
  ownership of other locks. \<open>fits\<close> says that one more lock can be nested: the counter of
  nested locks has not reached its maximum.
\<close>

locale lock_contract =
  fixes acq :: "'l \<Rightarrow> (unit, 's) kern"
    and rel :: "'l \<Rightarrow> (unit, 's) kern"
    and own :: "'s \<Rightarrow> 'l \<Rightarrow> bool"
    and ready :: "'s \<Rightarrow> bool"
    and fits :: "'s \<Rightarrow> bool"
  assumes acq_owns: "ready s \<Longrightarrow> fits s \<Longrightarrow> acq l s = Ok () t \<Longrightarrow> own t l \<and> ready t"
    and acq_frame: "ready s \<Longrightarrow> acq l s = Ok () t \<Longrightarrow> k \<noteq> l \<Longrightarrow> own t k = own s k"
    and acq_owned: "ready s \<Longrightarrow> own s l \<Longrightarrow> acq l s \<noteq> Ok () t"
    and rel_owned: "ready s \<Longrightarrow> own s l \<Longrightarrow> \<exists>t. rel l s = Ok () t \<and> ready t \<and> own t = (own s)(l := False)"
    and rel_not_owned: "ready s \<Longrightarrow> \<not> own s l \<Longrightarrow> \<exists>e. rel l s = Panic e"
begin

definition critical :: "'l \<Rightarrow> ('a, 's) kern \<Rightarrow> ('a, 's) kern" where
  "critical l body = andthen (acq l) (bind body (\<lambda>a. andthen (rel l) (ret a)))"

text \<open>
  A critical section whose body keeps the ownerships returns whenever the acquire and
  the body do, and leaves every ownership as it found it.
\<close>

lemma critical_restores:
  assumes "ready s" and "critical l body s = Ok a t" and fits: "fits s"
    and keep: "\<And>u b v. ready u \<Longrightarrow> own u l \<Longrightarrow> body u = Ok b v \<Longrightarrow> ready v \<and> own v = own u"
  shows "own t = own s \<and> ready t"
proof -
  from assms(2) obtain u v where a: "acq l s = Ok () u" and b: "body u = Ok a v"
    and r: "rel l v = Ok () t"
    by (auto simp: critical_def andthen_Ok_iff bind_Ok_iff ret_run)
  from acq_owns [OF assms(1) fits a] have u: "own u l" "ready u" by auto
  from keep [OF u(2,1) b] have v: "ready v" "own v = own u" by auto
  from u v have "own v l" by simp
  from rel_owned [OF v(1) this] r have t: "ready t" "own t = (own v)(l := False)" by auto
  have "\<not> own s l"
    using acq_owned [OF assms(1), of l u] a by auto
  then have "own t = own s"
    using t(2) v(2) acq_frame [OF assms(1) a] by (auto simp: fun_eq_iff)
  with t show ?thesis by simp
qed

lemma critical_returns:
  assumes "ready s" and "acq l s = Ok () u"
    and "body u = Ok a v" and "ready v" and "own v l"
  shows "\<exists>t. critical l body s = Ok a t \<and> own t = (own v)(l := False)"
proof -
  from rel_owned [OF assms(4,5)] obtain t where "rel l v = Ok () t" "own t = (own v)(l := False)"
    by auto
  with assms(2,3) show ?thesis
    by (auto simp: critical_def exec_simps)
qed

lemma no_reentry: "ready s \<Longrightarrow> own s l \<Longrightarrow> critical l body s \<noteq> Ok a t"
  by (auto simp: critical_def andthen_Ok_iff dest: acq_owned)

end

section \<open>The code, run by one hart\<close>

record spinlock =
  locked :: bool
  lname :: string
  lcpu :: "nat option"

text \<open>\<open>noff\<close> is a C \<open>int\<close>: the value of a 32-bit signed integer, wrapped where it is incremented.\<close>

record cpu =
  noff :: int
  intena :: bool

text \<open>
  The part of the machine the lock code uses: \<open>cpus[]\<close>, the SIE bit of each hart's
  \<open>sstatus\<close>, and the lock words. \<open>c\<close> is the executing hart, the index \<open>mycpu()\<close> uses.
\<close>

record machine =
  cpus :: "nat \<Rightarrow> cpu"
  sie :: "nat \<Rightarrow> bool"
  lks :: "lockid \<Rightarrow> spinlock"

definition initlock :: "lockid \<Rightarrow> string \<Rightarrow> (unit, machine) kern" where
  "initlock l name = upd (\<lambda>m. m\<lparr>lks := (lks m)(l := \<lparr>locked = False, lname = name, lcpu = None\<rparr>)\<rparr>)"

definition intr_on :: "nat \<Rightarrow> (unit, machine) kern" where
  "intr_on c = upd (\<lambda>m. m\<lparr>sie := (sie m)(c := True)\<rparr>)"

definition intr_off :: "nat \<Rightarrow> (unit, machine) kern" where
  "intr_off c = upd (\<lambda>m. m\<lparr>sie := (sie m)(c := False)\<rparr>)"

definition intr_get :: "nat \<Rightarrow> (bool, machine) kern" where
  "intr_get c = gets (\<lambda>m. sie m c)"

definition upd_cpu :: "nat \<Rightarrow> (cpu \<Rightarrow> cpu) \<Rightarrow> (unit, machine) kern" where
  "upd_cpu c f = upd (\<lambda>m. m\<lparr>cpus := (cpus m)(c := f (cpus m c))\<rparr>)"

definition upd_lk :: "lockid \<Rightarrow> (spinlock \<Rightarrow> spinlock) \<Rightarrow> (unit, machine) kern" where
  "upd_lk l f = upd (\<lambda>m. m\<lparr>lks := (lks m)(l := f (lks m l))\<rparr>)"

definition push_off :: "nat \<Rightarrow> (unit, machine) kern" where
  "push_off c =
     bind (intr_get c) (\<lambda>old.
     andthen (intr_off c) (
     bind (gets (\<lambda>m. noff (cpus m c))) (\<lambda>n.
     andthen (if n = 0 then upd_cpu c (\<lambda>k. k\<lparr>intena := old\<rparr>) else ret ())
             (upd_cpu c (\<lambda>k. k\<lparr>noff := wrap32 (noff k + 1)\<rparr>)))))"

definition pop_off :: "nat \<Rightarrow> (unit, machine) kern" where
  "pop_off c =
     bind (intr_get c) (\<lambda>on.
     if on then panic ''pop_off - interruptible'' else
     bind (gets (\<lambda>m. noff (cpus m c))) (\<lambda>n.
     if n < 1 then panic ''pop_off'' else
     andthen (upd_cpu c (\<lambda>k. k\<lparr>noff := noff k - 1\<rparr>)) (
     bind (gets (\<lambda>m. cpus m c)) (\<lambda>k.
     if noff k = 0 \<and> intena k then intr_on c else ret ()))))"

definition holding :: "nat \<Rightarrow> lockid \<Rightarrow> (bool, machine) kern" where
  "holding c l = gets (\<lambda>m. locked (lks m l) \<and> lcpu (lks m l) = Some c)"

text \<open>
  \<open>acquire\<close> spins while the swap returns 1. Run by one hart alone, a lock word that is
  set is never cleared: the spinning loop does not end (\<open>Diverge\<close>). The multi-hart machine
  below has the loop as separate steps.
\<close>

definition acquire :: "nat \<Rightarrow> lockid \<Rightarrow> (unit, machine) kern" where
  "acquire c l =
     andthen (push_off c) (
     bind (holding c l) (\<lambda>h.
     if h then panic ''acquire'' else
     bind (gets (\<lambda>m. locked (lks m l))) (\<lambda>taken.
     if taken then diverge else
     andthen (upd_lk l (\<lambda>k. k\<lparr>locked := True\<rparr>))
             (upd_lk l (\<lambda>k. k\<lparr>lcpu := Some c\<rparr>)))))"

definition release :: "nat \<Rightarrow> lockid \<Rightarrow> (unit, machine) kern" where
  "release c l =
     bind (holding c l) (\<lambda>h.
     if \<not> h then panic ''release'' else
     andthen (upd_lk l (\<lambda>k. k\<lparr>lcpu := None\<rparr>)) (
     andthen (upd_lk l (\<lambda>k. k\<lparr>locked := False\<rparr>))
             (pop_off c)))"

lemmas spin_defs = intr_on_def intr_off_def intr_get_def upd_cpu_def upd_lk_def

text \<open>
  Between kernel instructions of hart \<open>c\<close> the nesting depth is a non-negative \<open>int\<close>, and
  interrupts are off while it is positive.
\<close>

definition cpu_ok :: "nat \<Rightarrow> machine \<Rightarrow> bool" where
  "cpu_ok c m \<longleftrightarrow> 0 \<le> noff (cpus m c) \<and> noff (cpus m c) < 2 ^ 31 \<and> (0 < noff (cpus m c) \<longrightarrow> \<not> sie m c)"

definition off_step :: "nat \<Rightarrow> machine \<Rightarrow> machine" where
  "off_step c m = m\<lparr>sie := (sie m)(c := False),
     cpus := (cpus m)(c := (cpus m c)
       \<lparr>intena := (if noff (cpus m c) = 0 then sie m c else intena (cpus m c)),
        noff := wrap32 (noff (cpus m c) + 1)\<rparr>)\<rparr>"

lemma push_off_run: "push_off c m = Ok () (off_step c m)"
  by (simp add: push_off_def spin_defs off_step_def exec_simps)

lemma off_step_simps [simp]:
  "lks (off_step c m) = lks m"
  "sie (off_step c m) c = False"
  "noff (cpus (off_step c m) c) = wrap32 (noff (cpus m c) + 1)"
  "d \<noteq> c \<Longrightarrow> cpus (off_step c m) d = cpus m d"
  "d \<noteq> c \<Longrightarrow> sie (off_step c m) d = sie m d"
  by (auto simp: off_step_def)

lemma off_step_ok: "cpu_ok c m \<Longrightarrow> noff (cpus m c) < 2 ^ 31 - 1 \<Longrightarrow> cpu_ok c (off_step c m)"
  by (simp add: cpu_ok_def)

lemma pop_off_run:
  assumes "\<not> sie m c" and "0 < noff (cpus m c)"
  shows "\<exists>m'. pop_off c m = Ok () m' \<and> lks m' = lks m
    \<and> noff (cpus m' c) = noff (cpus m c) - 1 \<and> intena (cpus m' c) = intena (cpus m c)
    \<and> sie m' c = (noff (cpus m c) = 1 \<and> intena (cpus m c))
    \<and> (\<forall>d. d \<noteq> c \<longrightarrow> cpus m' d = cpus m d \<and> sie m' d = sie m d)"
  using assms by (simp add: pop_off_def spin_defs exec_simps)


lemma acquire_run:
  "\<not> locked (lks m l) \<Longrightarrow>
   acquire c l m = Ok () ((off_step c m)\<lparr>lks := (lks m)(l := (lks m l)\<lparr>locked := True, lcpu := Some c\<rparr>)\<rparr>)"
  by (simp add: acquire_def holding_def upd_lk_def push_off_run exec_simps)

lemma acquire_held: "locked (lks m l) \<Longrightarrow> lcpu (lks m l) = Some c \<Longrightarrow> acquire c l m = Panic ''acquire''"
  by (simp add: acquire_def holding_def push_off_run exec_simps)

lemma acquire_taken: "locked (lks m l) \<Longrightarrow> lcpu (lks m l) \<noteq> Some c \<Longrightarrow> acquire c l m = Diverge"
  by (simp add: acquire_def holding_def push_off_run exec_simps)

lemma acquire_Ok_iff: "(\<exists>m'. acquire c l m = Ok () m') \<longleftrightarrow> \<not> locked (lks m l)"
  by (metis acquire_run acquire_held acquire_taken res.distinct(1,5))

lemma release_run:
  assumes "locked (lks m l)" "lcpu (lks m l) = Some c" "\<not> sie m c" "0 < noff (cpus m c)"
  shows "\<exists>m'. release c l m = Ok () m'
    \<and> lks m' = (lks m)(l := (lks m l)\<lparr>lcpu := None, locked := False\<rparr>)
    \<and> noff (cpus m' c) = noff (cpus m c) - 1 \<and> intena (cpus m' c) = intena (cpus m c)
    \<and> sie m' c = (noff (cpus m c) = 1 \<and> intena (cpus m c))
    \<and> (\<forall>d. d \<noteq> c \<longrightarrow> cpus m' d = cpus m d \<and> sie m' d = sie m d)"
proof -
  let ?n = "m\<lparr>lks := (lks m)(l := (lks m l)\<lparr>lcpu := None, locked := False\<rparr>)\<rparr>"
  have "release c l m = pop_off c ?n"
    using assms(1,2) by (simp add: release_def holding_def upd_lk_def exec_simps)
  with pop_off_run [of ?n c] assms(3,4) show ?thesis by simp
qed

lemma release_not_held:
  "\<not> (locked (lks m l) \<and> lcpu (lks m l) = Some c) \<Longrightarrow> release c l m = Panic ''release''"
  by (auto simp: release_def holding_def exec_simps)

definition held_set :: "nat \<Rightarrow> machine \<Rightarrow> lockid set" where
  "held_set c m = {l. locked (lks m l) \<and> lcpu (lks m l) = Some c}"

definition hart_ready :: "nat \<Rightarrow> machine \<Rightarrow> bool" where
  "hart_ready c m \<longleftrightarrow> cpu_ok c m \<and> finite (held_set c m) \<and> int (card (held_set c m)) \<le> noff (cpus m c)"

lemma held_set_acquire:
  "\<not> locked (lks m l) \<Longrightarrow>
   held_set c (n\<lparr>lks := (lks m)(l := (lks m l)\<lparr>locked := True, lcpu := Some c\<rparr>)\<rparr>) = insert l (held_set c m)"
  by (auto simp: held_set_def)

lemma held_set_release:
  "lks m' = (lks m)(l := (lks m l)\<lparr>lcpu := None, locked := False\<rparr>) \<Longrightarrow>
   held_set c m' = held_set c m - {l}"
  by (auto simp: held_set_def)

lemma acquire_ready:
  assumes "hart_ready c m" and "acquire c l m = Ok () m'"
  shows "held_set c m' = insert l (held_set c m) \<and> l \<notin> held_set c m \<and>
    (noff (cpus m c) < 2 ^ 31 - 1 \<longrightarrow> hart_ready c m' \<and> noff (cpus m' c) = noff (cpus m c) + 1)"
proof -
  from assms(2) acquire_Ok_iff [of c l m] have free: "\<not> locked (lks m l)" by auto
  then have l: "l \<notin> held_set c m" by (simp add: held_set_def)
  from free assms(2) have h: "held_set c m' = insert l (held_set c m)"
    by (auto simp: acquire_run held_set_acquire)
  have n: "noff (cpus m' c) = wrap32 (noff (cpus m c) + 1)" "\<not> sie m' c"
    using free assms(2) by (auto simp: acquire_run)
  from l h n assms(1) show ?thesis
    by (auto simp: hart_ready_def cpu_ok_def)
qed

lemma release_ready:
  assumes "hart_ready c m" and "l \<in> held_set c m"
  shows "\<exists>m'. release c l m = Ok () m' \<and> hart_ready c m' \<and> held_set c m' = held_set c m - {l}"
proof -
  from assms have "card (held_set c m) > 0"
    by (auto simp: hart_ready_def card_gt_0_iff)
  with assms(1) have n: "0 < noff (cpus m c)" "\<not> sie m c"
    by (auto simp: hart_ready_def cpu_ok_def)
  with assms(2) release_run [of m l c] obtain m' where m': "release c l m = Ok () m'"
      "lks m' = (lks m)(l := (lks m l)\<lparr>lcpu := None, locked := False\<rparr>)"
      "noff (cpus m' c) = noff (cpus m c) - 1"
      "sie m' c = (noff (cpus m c) = 1 \<and> intena (cpus m c))"
    by (auto simp: held_set_def)
  have h: "held_set c m' = held_set c m - {l}"
    using m'(2) by (rule held_set_release)
  have "card (held_set c m') = card (held_set c m) - 1"
    using h assms by (simp add: hart_ready_def)
  with m' h n assms(1) \<open>card (held_set c m) > 0\<close> show ?thesis
    by (auto simp: hart_ready_def cpu_ok_def)
qed

interpretation hart: lock_contract "acquire c" "release c" "\<lambda>m l. l \<in> held_set c m" "hart_ready c"
  "\<lambda>m. noff (cpus m c) < 2 ^ 31 - 1" for c
proof
  fix s t l k
  assume "hart_ready c s" "noff (cpus s c) < 2 ^ 31 - 1" "acquire c l s = Ok () t"
  then show "l \<in> held_set c t \<and> hart_ready c t" by (auto dest: acquire_ready)
next
  fix s t l k
  assume "hart_ready c s" "acquire c l s = Ok () t" "k \<noteq> l"
  then show "(k \<in> held_set c t) = (k \<in> held_set c s)" by (auto dest: acquire_ready)
next
  fix s t l
  assume "hart_ready c s" "l \<in> held_set c s"
  then show "acquire c l s \<noteq> Ok () t" by (auto dest: acquire_ready)
next
  fix s l
  assume "hart_ready c s" "l \<in> held_set c s"
  then show "\<exists>t. release c l s = Ok () t \<and> hart_ready c t \<and>
      (\<lambda>k. k \<in> held_set c t) = (\<lambda>k. k \<in> held_set c s)(l := False)"
    by (elim release_ready [THEN exE, of c s l]) (auto simp: fun_eq_iff)
next
  fix s l
  assume "hart_ready c s" "l \<notin> held_set c s"
  then show "\<exists>e. release c l s = Panic e"
    by (auto simp: held_set_def release_not_held)
qed


section \<open>Nesting of interrupt disabling\<close>

lemma pushes_run:
  "cpu_ok c m \<Longrightarrow> noff (cpus m c) + int n < 2 ^ 31 \<Longrightarrow>
   \<exists>m'. mfor [0..<n] (\<lambda>_. push_off c) m = Ok () m' \<and> lks m' = lks m
     \<and> noff (cpus m' c) = noff (cpus m c) + int n \<and> (0 < n \<longrightarrow> \<not> sie m' c) \<and> (n = 0 \<longrightarrow> m' = m)
     \<and> (0 < n \<longrightarrow> intena (cpus m' c) = (if noff (cpus m c) = 0 then sie m c else intena (cpus m c)))"
proof (induction n)
  case 0
  then show ?case by (simp add: ret_run)
next
  case (Suc n)
  then obtain m' where m': "mfor [0..<n] (\<lambda>_. push_off c) m = Ok () m'" "lks m' = lks m"
      "noff (cpus m' c) = noff (cpus m c) + int n" "n = 0 \<longrightarrow> m' = m"
      "0 < n \<longrightarrow> intena (cpus m' c) = (if noff (cpus m c) = 0 then sie m c else intena (cpus m c))"
    by auto
  have "mfor [0..<Suc n] (\<lambda>_. push_off c) m = Ok () (off_step c m')"
    using m'(1) by (simp add: mfor_append push_off_run exec_simps)
  moreover have "intena (cpus (off_step c m') c) = (if noff (cpus m c) = 0 then sie m c else intena (cpus m c))"
    using m'(3-5) Suc.prems by (cases "n = 0") (auto simp: off_step_def cpu_ok_def)
  moreover have "noff (cpus (off_step c m') c) = noff (cpus m c) + int (Suc n)"
    using m'(3) Suc.prems by (simp add: cpu_ok_def)
  ultimately show ?case using m' by simp
qed

lemma pops_run:
  assumes "\<not> sie m c" "int n \<le> noff (cpus m c)" "0 < n"
  shows "\<exists>m'. mfor [0..<n] (\<lambda>_. pop_off c) m = Ok () m' \<and> lks m' = lks m
     \<and> noff (cpus m' c) = noff (cpus m c) - int n
     \<and> sie m' c = (noff (cpus m c) = int n \<and> intena (cpus m c))
     \<and> intena (cpus m' c) = intena (cpus m c)"
  using assms(2,3)
proof (induction n)
  case 0
  then show ?case by simp
next
  case (Suc n)
  show ?case
  proof (cases "n = 0")
    case True
    with pop_off_run [OF assms(1)] Suc.prems show ?thesis
      by (auto simp: exec_simps)
  next
    case False
    with Suc obtain m' where m': "mfor [0..<n] (\<lambda>_. pop_off c) m = Ok () m'" "lks m' = lks m"
        "noff (cpus m' c) = noff (cpus m c) - int n" "\<not> sie m' c"
        "intena (cpus m' c) = intena (cpus m c)"
      by auto
    with pop_off_run [of m' c] Suc.prems obtain m'' where "pop_off c m' = Ok () m''"
        "lks m'' = lks m" "noff (cpus m'' c) = noff (cpus m c) - int (Suc n)"
        "sie m'' c = (noff (cpus m c) = int (Suc n) \<and> intena (cpus m c))"
        "intena (cpus m'' c) = intena (cpus m c)"
      by auto
    with m' show ?thesis by (auto simp: mfor_append exec_simps)
  qed
qed


lemma push_pop_overflow:
  assumes "noff (cpus m c) = 2 ^ 31 - 1"
  shows "andthen (push_off c) (pop_off c) m = Panic ''pop_off''"
proof -
  have "noff (cpus (off_step c m) c) = - (2 ^ 31)" using assms wrap32_max by simp
  then have "pop_off c (off_step c m) = Panic ''pop_off''"
    by (simp add: pop_off_def intr_get_def bind_def gets_def panic_def)
  then show ?thesis by (simp add: push_off_run andthen_run_Ok)
qed

text \<open>
  C3: \<open>push_off\<close>/\<open>pop_off\<close> nest as their comment says: after \<open>n\<close> calls of \<open>push_off\<close> and as
  many of \<open>pop_off\<close>, as long as the depth stays an \<open>int\<close> below \<open>2 ^ 31\<close>, no \<open>pop_off\<close> has
  panicked, and the depth, the lock words and the interrupt-enable bit are what they were,
  also when interrupts were already off or the hart already had locks. The bound is exact:
  from depth \<open>2 ^ 31 - 1\<close> one more \<open>push_off\<close> overflows the counter and the matching \<open>pop_off\<close> panics.
\<close>

theorem push_pop_nest:
  assumes "cpu_ok c m"
  shows "(noff (cpus m c) + int n < 2 ^ 31 \<longrightarrow>
     (\<exists>m'. andthen (mfor [0..<n] (\<lambda>_. push_off c)) (mfor [0..<n] (\<lambda>_. pop_off c)) m = Ok () m'
       \<and> sie m' c = sie m c \<and> noff (cpus m' c) = noff (cpus m c) \<and> lks m' = lks m)) \<and>
   (noff (cpus m c) = 2 ^ 31 - 1 \<longrightarrow> andthen (push_off c) (pop_off c) m = Panic ''pop_off'')"
proof (intro conjI impI)
  assume b: "noff (cpus m c) + int n < 2 ^ 31"
  show "\<exists>m'. andthen (mfor [0..<n] (\<lambda>_. push_off c)) (mfor [0..<n] (\<lambda>_. pop_off c)) m = Ok () m'
    \<and> sie m' c = sie m c \<and> noff (cpus m' c) = noff (cpus m c) \<and> lks m' = lks m"
  proof (cases "n = 0")
    case True
    then show ?thesis by (simp add: exec_simps)
  next
    case False
    from pushes_run [OF assms b] False obtain m1 where m1:
        "mfor [0..<n] (\<lambda>_. push_off c) m = Ok () m1" "lks m1 = lks m" "\<not> sie m1 c"
        "noff (cpus m1 c) = noff (cpus m c) + int n"
        "intena (cpus m1 c) = (if noff (cpus m c) = 0 then sie m c else intena (cpus m c))"
      by auto
    from pops_run [of m1 c n] m1(3,4) False assms obtain m2 where m2:
        "mfor [0..<n] (\<lambda>_. pop_off c) m1 = Ok () m2" "lks m2 = lks m1"
        "noff (cpus m2 c) = noff (cpus m c)"
        "sie m2 c = (noff (cpus m c) = 0 \<and> intena (cpus m1 c))"
      by (auto simp: cpu_ok_def)
    from m1 m2 assms show ?thesis
      by (auto simp: exec_simps cpu_ok_def)
  qed
qed (rule push_pop_overflow)

definition boot_machine :: machine where
  "boot_machine = \<lparr>cpus = (\<lambda>_. \<lparr>noff = 0, intena = False\<rparr>), sie = (\<lambda>_. False),
     lks = (\<lambda>_. \<lparr>locked = False, lname = [], lcpu = None\<rparr>)\<rparr>"

theorem push_pop_nest_witness:
  "cpu_ok 0 (boot_machine\<lparr>sie := (\<lambda>_. True)\<rparr>) \<and>
   (\<exists>m'. andthen (mfor [0..<3] (\<lambda>_. push_off 0)) (mfor [0..<3] (\<lambda>_. pop_off 0))
       (boot_machine\<lparr>sie := (\<lambda>_. True)\<rparr>) = Ok () m' \<and> sie m' 0)"
proof -
  have ok: "cpu_ok 0 (boot_machine\<lparr>sie := (\<lambda>_. True)\<rparr>)"
    by (simp add: cpu_ok_def boot_machine_def)
  have "noff (cpus (boot_machine\<lparr>sie := (\<lambda>_. True)\<rparr>) 0) + int 3 < 2 ^ 31" by (simp add: boot_machine_def)
  with push_pop_nest [OF ok, of 3] ok show ?thesis by auto
qed

section \<open>Many harts\<close>

text \<open>
  Where a hart is in the lock code. \<open>In_kernel\<close>: outside it. \<open>Spinning l\<close>: in the swap loop
  of \<open>acquire(l)\<close>. \<open>Swapped l\<close>: the swap succeeded, \<open>lk->cpu\<close> is not yet set. \<open>Clearing l\<close>:
  in \<open>release(l)\<close>, \<open>lk->cpu\<close> is cleared and the lock word is still set. \<open>Popping\<close>: the lock
  word is cleared, \<open>pop_off\<close> is next.
\<close>

datatype lpc = In_kernel | Spinning lockid | Swapped lockid | Clearing lockid | Popping

text \<open>\<open>crit s c\<close>: the locks whose \<open>acquire\<close> has returned on hart \<open>c\<close> and whose \<open>release\<close> has not begun.\<close>

record smp =
  mach :: machine
  lpc :: "nat \<Rightarrow> lpc"
  crit :: "nat \<Rightarrow> lockid set"

text \<open>
  The locks there are: the global ones, one per process and per sleep lock of a buffer or an inode, and one per
  pipe, which is a page of physical memory.
\<close>

definition kernel_locks :: "lockid set" where
  "kernel_locks = {Kmem_lock, Bcache_lock, Log_lock, Itable_lock, Ftable_lock, Pid_lock, Wait_lock, Cons_lock,
       Uart_tx_lock, Ticks_lock, Vdisk_lock, Pr_lock}
     \<union> Proc_lock ` {..<64} \<union> (\<lambda>i. Sleep_lk (Buf_slock i)) ` {..<30} \<union> (\<lambda>i. Sleep_lk (Inode_slock i)) ` {..<50}
     \<union> (\<lambda>k. Pipe_lock (4096 * k)) ` {..<0x88000}"

lemma kernel_locks_card: "finite kernel_locks" "card kernel_locks < 2 ^ 31 - 1"
proof -
  show "finite kernel_locks" by (simp add: kernel_locks_def)
  have "card {Kmem_lock, Bcache_lock, Log_lock, Itable_lock, Ftable_lock, Pid_lock, Wait_lock, Cons_lock,
       Uart_tx_lock, Ticks_lock, Vdisk_lock, Pr_lock} = 12" by simp
  moreover have "card (Proc_lock ` {..<64}) \<le> 64" "card ((\<lambda>i. Sleep_lk (Buf_slock i)) ` {..<30}) \<le> 30"
    "card ((\<lambda>i. Sleep_lk (Inode_slock i)) ` {..<50}) \<le> 50" "card ((\<lambda>k. Pipe_lock (4096 * k)) ` {..<0x88000}) \<le> 0x88000"
    using card_image_le [of "{..<64 :: nat}" Proc_lock] card_image_le [of "{..<30 :: nat}" "\<lambda>i. Sleep_lk (Buf_slock i)"]
      card_image_le [of "{..<50 :: nat}" "\<lambda>i. Sleep_lk (Inode_slock i)"] card_image_le [of "{..<0x88000 :: nat}" "\<lambda>k. Pipe_lock (4096 * k)"]
    by simp_all
  ultimately have "card kernel_locks \<le> 12 + 64 + 30 + 50 + 0x88000"
    unfolding kernel_locks_def by (intro order.trans [OF card_Un_le] add_mono) simp_all
  then show "card kernel_locks < 2 ^ 31 - 1" by simp
qed

text \<open>
  One step of one hart. The shared memory is accessed in single steps (the swap, the stores of \<open>lk->cpu\<close>, the clearing of
  the lock word). Two steps are longer: entering \<open>acquire\<close> runs \<open>push_off\<close>, which touches only the hart's own state, together with
  the test of \<open>holding\<close>, and entering \<open>release\<close> runs \<open>holding\<close> together with the store that clears \<open>lk->cpu\<close>; whether \<open>holding\<close>
  is true of a hart is changed only by that hart. \<open>acquire\<close> is called with locks of the kernel, and \<open>intr_on\<close> only outside
  all critical sections.
\<close>

inductive spin_step :: "smp \<Rightarrow> smp \<Rightarrow> bool" where
  acquire_enter:
    "lpc s c = In_kernel \<Longrightarrow> l \<in> kernel_locks \<Longrightarrow> push_off c (mach s) = Ok () m \<Longrightarrow> holding c l m = Ok False m \<Longrightarrow>
     spin_step s (s\<lparr>mach := m, lpc := (lpc s)(c := Spinning l)\<rparr>)"
| swap_fails:
    "lpc s c = Spinning l \<Longrightarrow> locked (lks (mach s) l) \<Longrightarrow> spin_step s s"
| swap_succeeds:
    "lpc s c = Spinning l \<Longrightarrow> \<not> locked (lks (mach s) l) \<Longrightarrow>
     upd_lk l (\<lambda>k. k\<lparr>locked := True\<rparr>) (mach s) = Ok () m \<Longrightarrow>
     spin_step s (s\<lparr>mach := m, lpc := (lpc s)(c := Swapped l)\<rparr>)"
| acquire_leave:
    "lpc s c = Swapped l \<Longrightarrow> upd_lk l (\<lambda>k. k\<lparr>lcpu := Some c\<rparr>) (mach s) = Ok () m \<Longrightarrow>
     spin_step s (s\<lparr>mach := m, lpc := (lpc s)(c := In_kernel), crit := (crit s)(c := insert l (crit s c))\<rparr>)"
| release_enter:
    "lpc s c = In_kernel \<Longrightarrow> holding c l (mach s) = Ok True (mach s) \<Longrightarrow>
     upd_lk l (\<lambda>k. k\<lparr>lcpu := None\<rparr>) (mach s) = Ok () m \<Longrightarrow>
     spin_step s (s\<lparr>mach := m, lpc := (lpc s)(c := Clearing l), crit := (crit s)(c := crit s c - {l})\<rparr>)"
| lock_cleared:
    "lpc s c = Clearing l \<Longrightarrow> upd_lk l (\<lambda>k. k\<lparr>locked := False\<rparr>) (mach s) = Ok () m \<Longrightarrow>
     spin_step s (s\<lparr>mach := m, lpc := (lpc s)(c := Popping)\<rparr>)"
| release_leave:
    "lpc s c = Popping \<Longrightarrow> pop_off c (mach s) = Ok () m \<Longrightarrow>
     spin_step s (s\<lparr>mach := m, lpc := (lpc s)(c := In_kernel)\<rparr>)"
| interrupts_on:
    "lpc s c = In_kernel \<Longrightarrow> noff (cpus (mach s) c) = 0 \<Longrightarrow> intr_on c (mach s) = Ok () m \<Longrightarrow>
     spin_step s (s\<lparr>mach := m\<rparr>)"
| interrupts_off:
    "lpc s c = In_kernel \<Longrightarrow> intr_off c (mach s) = Ok () m \<Longrightarrow> spin_step s (s\<lparr>mach := m\<rparr>)"

definition smp_init :: smp where
  "smp_init = \<lparr>mach = boot_machine, lpc = (\<lambda>_. In_kernel), crit = (\<lambda>_. {})\<rparr>"

inductive smp_reachable :: "smp \<Rightarrow> bool" where
  smp_start: "smp_reachable smp_init"
| smp_step: "smp_reachable s \<Longrightarrow> spin_step s t \<Longrightarrow> smp_reachable t"

text \<open>
  A hart owns the lock word of \<open>l\<close> from its successful swap until the store that clears the
  word. The invariant: the word is set exactly while some hart owns it, two harts never own
  the same word, \<open>lk->cpu\<close> names the hart inside the critical section, and the nesting
  depth counts the locks held plus the lock operation under way.
\<close>

definition owns :: "smp \<Rightarrow> nat \<Rightarrow> lockid \<Rightarrow> bool" where
  "owns s c l \<longleftrightarrow> l \<in> crit s c \<or> lpc s c = Swapped l \<or> lpc s c = Clearing l"

definition in_lock_code :: "lpc \<Rightarrow> int" where
  "in_lock_code p = (if p = In_kernel then 0 else 1)"

definition lpc_lock :: "lpc \<Rightarrow> lockid set" where
  "lpc_lock p = (case p of Spinning l \<Rightarrow> {l} | Swapped l \<Rightarrow> {l} | _ \<Rightarrow> {})"

definition word_ok :: "smp \<Rightarrow> bool" where
  "word_ok s \<longleftrightarrow> (\<forall>l. locked (lks (mach s) l) \<longleftrightarrow> (\<exists>c. owns s c l))"

definition excl_ok :: "smp \<Rightarrow> bool" where
  "excl_ok s \<longleftrightarrow> (\<forall>c d l. owns s c l \<longrightarrow> owns s d l \<longrightarrow> c = d)"

definition holder_ok :: "smp \<Rightarrow> bool" where
  "holder_ok s \<longleftrightarrow>
     (\<forall>c l. (lcpu (lks (mach s) l) = Some c \<longleftrightarrow> l \<in> crit s c) \<and>
            (l \<in> crit s c \<longrightarrow> lpc s c \<noteq> Swapped l \<and> lpc s c \<noteq> Clearing l \<and> lpc s c \<noteq> Spinning l))"

definition depth_ok :: "smp \<Rightarrow> bool" where
  "depth_ok s \<longleftrightarrow>
     (\<forall>c. finite (crit s c) \<and> crit s c \<subseteq> kernel_locks \<and> lpc_lock (lpc s c) \<subseteq> kernel_locks \<and>
          noff (cpus (mach s) c) = int (card (crit s c)) + in_lock_code (lpc s c) \<and>
          (0 < noff (cpus (mach s) c) \<longrightarrow> \<not> sie (mach s) c))"

definition smp_inv :: "smp \<Rightarrow> bool" where
  "smp_inv s \<longleftrightarrow> word_ok s \<and> excl_ok s \<and> holder_ok s \<and> depth_ok s"

lemma word_okD: "word_ok s \<Longrightarrow> locked (lks (mach s) l) \<longleftrightarrow> (\<exists>c. owns s c l)"
  by (simp add: word_ok_def)

lemma excl_okD: "excl_ok s \<Longrightarrow> owns s c l \<Longrightarrow> owns s d l \<Longrightarrow> d = c"
  by (auto simp: excl_ok_def)

lemma holder_okD: 
   "holder_ok s \<Longrightarrow> lcpu (lks (mach s) l) = Some c \<longleftrightarrow> l \<in> crit s c"
   "holder_ok s \<Longrightarrow> l \<in> crit s c \<Longrightarrow> lpc s c \<noteq> Swapped l"
   "holder_ok s \<Longrightarrow> l \<in> crit s c \<Longrightarrow> lpc s c \<noteq> Clearing l"
   "holder_ok s \<Longrightarrow> l \<in> crit s c \<Longrightarrow> lpc s c \<noteq> Spinning l"
  by (auto simp: holder_ok_def)

lemma depth_okD: 
   "depth_ok s \<Longrightarrow> finite (crit s c)"
   "depth_ok s \<Longrightarrow> noff (cpus (mach s) c) = int (card (crit s c)) + in_lock_code (lpc s c)"
   "depth_ok s \<Longrightarrow> 0 < noff (cpus (mach s) c) \<Longrightarrow> \<not> sie (mach s) c"
   "depth_ok s \<Longrightarrow> crit s c \<subseteq> kernel_locks" "depth_ok s \<Longrightarrow> lpc_lock (lpc s c) \<subseteq> kernel_locks"
  by (auto simp: depth_ok_def)

text \<open>There are too few locks for the depth to overflow.\<close>
lemma depth_fits:
  assumes "depth_ok s" "lpc s c = In_kernel"
  shows "0 \<le> noff (cpus (mach s) c)" "noff (cpus (mach s) c) < 2 ^ 31 - 1"
proof -
  have "card (crit s c) \<le> card kernel_locks"
    by (rule card_mono [OF kernel_locks_card(1) depth_okD(4) [OF assms(1)]])
  then show "0 \<le> noff (cpus (mach s) c)" "noff (cpus (mach s) c) < 2 ^ 31 - 1"
    using depth_okD(2) [OF assms(1), of c] assms(2) kernel_locks_card(2) by (simp_all add: in_lock_code_def)
qed

text \<open>A step of hart \<open>c\<close> changes no depth but its own.\<close>
lemma depth_ok_upd:
  assumes "depth_ok s" "\<And>d. d \<noteq> c \<Longrightarrow> crit t d = crit s d \<and> lpc t d = lpc s d
      \<and> cpus (mach t) d = cpus (mach s) d \<and> sie (mach t) d = sie (mach s) d"
    "finite (crit t c)" "crit t c \<subseteq> kernel_locks" "lpc_lock (lpc t c) \<subseteq> kernel_locks" "noff (cpus (mach t) c) = int (card (crit t c)) + in_lock_code (lpc t c)"
    "0 < noff (cpus (mach t) c) \<Longrightarrow> \<not> sie (mach t) c"
  shows "depth_ok t"
  unfolding depth_ok_def
proof 
  fix d
  show "finite (crit t d) \<and> crit t d \<subseteq> kernel_locks \<and> lpc_lock (lpc t d) \<subseteq> kernel_locks \<and>
          noff (cpus (mach t) d) = int (card (crit t d)) + in_lock_code (lpc t d) \<and>
          (0 < noff (cpus (mach t) d) \<longrightarrow> \<not> sie (mach t) d)"
    using assms depth_okD [OF assms(1), of d] by (cases "d = c") auto
qed

lemma depth_acquire_enter:
  assumes "depth_ok s" "lpc s c = In_kernel" "l \<in> kernel_locks"
  shows "depth_ok (s\<lparr>mach := off_step c (mach s), lpc := (lpc s)(c := Spinning l)\<rparr>)"
  using assms depth_okD [OF assms(1), of c] depth_fits [OF assms(1,2)]
  by (intro depth_ok_upd [OF assms(1), of c]) (auto simp: in_lock_code_def lpc_lock_def)

lemma inv_acquire_enter:
  assumes "smp_inv s" "lpc s c = In_kernel" "push_off c (mach s) = Ok () m"
    "holding c l m = Ok False m" "l \<in> kernel_locks"
  shows "smp_inv (s\<lparr>mach := m, lpc := (lpc s)(c := Spinning l)\<rparr>)" (is "smp_inv ?t")
proof -
  have m: "m = off_step c (mach s)" using assms(3) by (simp add: push_off_run)
  have inv: "word_ok s" "holder_ok s"
    using assms(1) by (auto simp: smp_inv_def)
  have ow: "owns ?t = owns s"
    using assms(2) by (auto simp: owns_def fun_eq_iff)
  have nc: "l \<notin> crit s c"
    using assms(4) word_okD [OF inv(1), of l] holder_okD(1) [OF inv(2), of l c]
    by (auto simp: holding_def gets_run m owns_def)
  have "word_ok ?t" "excl_ok ?t" using assms(1) unfolding smp_inv_def word_ok_def excl_ok_def ow
    by (auto simp: m)
  moreover have "holder_ok ?t" using inv(2) nc by (auto simp: holder_ok_def m)
  moreover have "depth_ok ?t" using assms(1,2,5) by (simp add: m smp_inv_def depth_acquire_enter)
  ultimately show ?thesis by (simp add: smp_inv_def)
qed

lemma inv_swap_succeeds:
  assumes "smp_inv s" "lpc s c = Spinning l" "\<not> locked (lks (mach s) l)"
     "upd_lk l (\<lambda>k. k\<lparr>locked := True\<rparr>) (mach s) = Ok () m"
  shows "smp_inv (s\<lparr>mach := m, lpc := (lpc s)(c := Swapped l)\<rparr>)" (is "smp_inv ?t")
proof -
  have m: "m = (mach s)\<lparr>lks := (lks (mach s))(l := (lks (mach s) l)\<lparr>locked := True\<rparr>)\<rparr>"
    using assms(4) by (simp add: upd_lk_def upd_run)
  have inv: "word_ok s" "excl_ok s" "holder_ok s" "depth_ok s"
    using assms(1) by (auto simp: smp_inv_def)
  have no: "\<not> owns s d l" for d
    using inv(1) assms(3) by (auto simp: word_okD)
  have ow: "owns ?t d k \<longleftrightarrow> owns s d k \<or> d = c \<and> k = l" for d k
    using assms(2) no by (auto simp: owns_def)
  have "l \<notin> crit s c" using no [of c] by (simp add: owns_def)
  have "word_ok ?t" using inv(1) unfolding word_ok_def ow by (auto simp: m)
  moreover have "excl_ok ?t" using inv(2) no unfolding excl_ok_def ow by auto
  moreover have "holder_ok ?t" using inv(3) \<open>l \<notin> crit s c\<close> assms(2)
    by (auto simp: holder_ok_def m)
  moreover have "depth_ok ?t" 
    using depth_okD [OF inv(4), of c] assms(2) 
    by (intro depth_ok_upd [OF inv(4), of c]) (auto simp: m in_lock_code_def lpc_lock_def)
  ultimately show ?thesis by (simp add: smp_inv_def)
qed

lemma inv_acquire_leave:
  assumes "smp_inv s" "lpc s c = Swapped l" 
     "upd_lk l (\<lambda>k. k\<lparr>lcpu := Some c\<rparr>) (mach s) = Ok () m"
  shows "smp_inv (s\<lparr>mach := m, lpc := (lpc s)(c := In_kernel), crit := (crit s)(c := insert l (crit s c))\<rparr>)" (is "smp_inv ?t")
proof -
  have m: "m = (mach s)\<lparr>lks := (lks (mach s))(l := (lks (mach s) l)\<lparr>lcpu := Some c\<rparr>)\<rparr>"
    using assms(3) by (simp add: upd_lk_def upd_run)
  have inv: "word_ok s" "excl_ok s" "holder_ok s" "depth_ok s"
    using assms(1) by (auto simp: smp_inv_def)
  have ow: "owns ?t = owns s"
    using assms(2) by (auto simp: owns_def fun_eq_iff)
  have c: "owns s c l" using assms(2) by (simp add: owns_def)
  have nc: "l \<notin> crit s d" for d
    using excl_okD [OF inv(2) c, of d] holder_okD(2) [OF inv(3), of l c] assms(2)
    by (auto simp: owns_def)
  have "word_ok ?t" "excl_ok ?t" using inv unfolding word_ok_def excl_ok_def ow by (auto simp: m)
  moreover have "holder_ok ?t" using inv(3) nc 
    by (auto simp: holder_ok_def m)
  moreover have "depth_ok ?t" 
    using depth_okD [OF inv(4), of c] assms(2) nc [of c]
    by (intro depth_ok_upd [OF inv(4), of c]) (auto simp: m in_lock_code_def lpc_lock_def)
  ultimately show ?thesis by (simp add: smp_inv_def)
qed

lemma inv_release_enter:
  assumes "smp_inv s" "lpc s c = In_kernel" "holding c l (mach s) = Ok True (mach s)"
     "upd_lk l (\<lambda>k. k\<lparr>lcpu := None\<rparr>) (mach s) = Ok () m"
  shows "smp_inv (s\<lparr>mach := m, lpc := (lpc s)(c := Clearing l), crit := (crit s)(c := crit s c - {l})\<rparr>)" (is "smp_inv ?t")
proof -
  have m: "m = (mach s)\<lparr>lks := (lks (mach s))(l := (lks (mach s) l)\<lparr>lcpu := None\<rparr>)\<rparr>"
    using assms(4) by (simp add: upd_lk_def upd_run)
  have inv: "word_ok s" "excl_ok s" "holder_ok s" "depth_ok s"
    using assms(1) by (auto simp: smp_inv_def)
  have lc: "l \<in> crit s c"
    using inv(3) assms(3) by (auto simp: holder_okD holding_def gets_run)
  have ow: "owns ?t = owns s"
    using assms(2) lc by (auto simp: owns_def fun_eq_iff)
  have u: "l \<in> crit s d \<Longrightarrow> d = c" for d 
    using lc excl_okD [OF inv(2), of c l d] by (auto simp: owns_def)
  have n: "card (crit s c) \<ge> 1" 
    using lc depth_okD(1) [OF inv(4), of c] by (auto simp: card_gt_0_iff Suc_le_eq)
  have "word_ok ?t" "excl_ok ?t" using inv unfolding word_ok_def excl_ok_def ow by (auto simp: m)
  moreover have "holder_ok ?t" using inv(3) u assms(2)
    by (auto simp: holder_ok_def m)
  moreover have "depth_ok ?t" 
    using depth_okD [OF inv(4), of c] assms(2) lc n
    by (intro depth_ok_upd [OF inv(4), of c]) (auto simp: m in_lock_code_def lpc_lock_def)
  ultimately show ?thesis by (simp add: smp_inv_def)
qed

lemma inv_lock_cleared:
  assumes "smp_inv s" "lpc s c = Clearing l" 
     "upd_lk l (\<lambda>k. k\<lparr>locked := False\<rparr>) (mach s) = Ok () m"
  shows "smp_inv (s\<lparr>mach := m, lpc := (lpc s)(c := Popping)\<rparr>)" (is "smp_inv ?t")
proof -
  have m: "m = (mach s)\<lparr>lks := (lks (mach s))(l := (lks (mach s) l)\<lparr>locked := False\<rparr>)\<rparr>"
    using assms(3) by (simp add: upd_lk_def upd_run)
  have inv: "word_ok s" "excl_ok s" "holder_ok s" "depth_ok s"
    using assms(1) by (auto simp: smp_inv_def)
  have c: "owns s c l" using assms(2) by (simp add: owns_def)
  have "l \<notin> crit s c" using holder_okD(3) [OF inv(3)] assms(2) by auto
  moreover have "\<not> owns s d l" if "d \<noteq> c" for d
    using that excl_okD [OF inv(2) c] by blast
  ultimately have ow: "owns ?t d k \<longleftrightarrow> owns s d k \<and> k \<noteq> l" for d k
    using assms(2) by (cases "d = c") (auto simp: owns_def)
  have "word_ok ?t" using inv(1) unfolding word_ok_def ow by (auto simp: m)
  moreover have "excl_ok ?t" using inv(2) unfolding excl_ok_def ow by auto
  moreover have "holder_ok ?t" using inv(3)
    by (auto simp: holder_ok_def m)
  moreover have "depth_ok ?t" 
    using depth_okD [OF inv(4), of c] assms(2) 
    by (intro depth_ok_upd [OF inv(4), of c]) (auto simp: m in_lock_code_def lpc_lock_def)
  ultimately show ?thesis by (simp add: smp_inv_def)
qed

lemma popping_depth: "depth_ok s \<Longrightarrow> lpc s c = Popping \<Longrightarrow> 0 < noff (cpus (mach s) c) \<and> \<not> sie (mach s) c"
  using depth_okD [of s c] by (auto simp: in_lock_code_def)

lemma inv_release_leave:
  assumes "smp_inv s" "lpc s c = Popping" "pop_off c (mach s) = Ok () m"
  shows "smp_inv (s\<lparr>mach := m, lpc := (lpc s)(c := In_kernel)\<rparr>)" (is "smp_inv ?t")
proof -
  have inv: "word_ok s" "excl_ok s" "holder_ok s" "depth_ok s"
    using assms(1) by (auto simp: smp_inv_def)
  have n: "0 < noff (cpus (mach s) c)" "\<not> sie (mach s) c"
    using popping_depth [OF inv(4) assms(2)] by auto
  from pop_off_run [OF n(2,1)] assms(3) have m: "lks m = lks (mach s)"
    "noff (cpus m c) = noff (cpus (mach s) c) - 1"
    "sie m c = (noff (cpus (mach s) c) = 1 \<and> intena (cpus (mach s) c))"
    "\<And>d. d \<noteq> c \<Longrightarrow> cpus m d = cpus (mach s) d \<and> sie m d = sie (mach s) d"
    by auto
  have ow: "owns ?t = owns s" using assms(2) by (auto simp: owns_def fun_eq_iff)
  have "word_ok ?t" "excl_ok ?t" using inv unfolding word_ok_def excl_ok_def ow by (auto simp: m)
  moreover have "holder_ok ?t" using inv(3)
    by (auto simp: holder_ok_def m)
  moreover have "depth_ok ?t" 
    using depth_okD [OF inv(4), of c] assms(2) m n
    by (intro depth_ok_upd [OF inv(4), of c]) (auto simp: in_lock_code_def lpc_lock_def)
  ultimately show ?thesis by (simp add: smp_inv_def)
qed

lemma inv_intr:
  assumes "smp_inv s" "b \<Longrightarrow> noff (cpus (mach s) c) = 0"
  shows "smp_inv (s\<lparr>mach := (mach s)\<lparr>sie := (sie (mach s))(c := b)\<rparr>\<rparr>)" (is "smp_inv ?t")
proof -
  have inv: "word_ok s" "excl_ok s" "holder_ok s" "depth_ok s"
    using assms(1) by (auto simp: smp_inv_def)
  have ow: "owns ?t = owns s" by (auto simp: owns_def fun_eq_iff)
  have "word_ok ?t" "excl_ok ?t" using inv unfolding word_ok_def excl_ok_def ow by auto
  moreover have "holder_ok ?t" using inv(3) by (auto simp: holder_ok_def)
  moreover have "depth_ok ?t" 
    using depth_okD [OF inv(4), of c] assms(2)
    by (intro depth_ok_upd [OF inv(4), of c]) auto
  ultimately show ?thesis by (simp add: smp_inv_def)
qed

lemma spin_step_inv: "spin_step s t \<Longrightarrow> smp_inv s \<Longrightarrow> smp_inv t"
proof (induction rule: spin_step.induct)
  case (acquire_enter s c l m)
  then show ?case by (blast intro: inv_acquire_enter)
next
  case (swap_succeeds s c l m)
  then show ?case by (blast intro: inv_swap_succeeds)
next
  case (acquire_leave s c l m)
  then show ?case by (blast intro: inv_acquire_leave)
next
  case (release_enter s c l m)
  then show ?case by (blast intro: inv_release_enter)
next
  case (lock_cleared s c l m)
  then show ?case by (blast intro: inv_lock_cleared)
next
  case (release_leave s c m)
  then show ?case by (blast intro: inv_release_leave)
next
  case (interrupts_on s c m)
  then show ?case using inv_intr [of s True c] by (auto simp: intr_on_def upd_run)
next
  case (interrupts_off s c m)
  then show ?case using inv_intr [of s False c] by (auto simp: intr_off_def upd_run)
qed

lemma smp_init_inv: "smp_inv smp_init"
  by (simp add: smp_inv_def word_ok_def excl_ok_def holder_ok_def depth_ok_def smp_init_def
      owns_def in_lock_code_def lpc_lock_def boot_machine_def)

lemma smp_reachable_inv: "smp_reachable s \<Longrightarrow> smp_inv s"
  by (induction rule: smp_reachable.induct) (blast intro: smp_init_inv spin_step_inv)+

text \<open>
  C1: mutual exclusion of spin locks. In every state that any interleaving of any number of
  harts can reach, a lock whose \<open>acquire\<close> has returned on hart \<open>c\<close> and is not yet being
  released is inside no other hart's critical section, \<open>holding\<close> on \<open>c\<close> says so (so
  \<open>release\<close> does not panic), and interrupts are off on \<open>c\<close>.
\<close>

theorem spinlock_mutual_exclusion:
  assumes "smp_reachable s" and "l \<in> crit s c"
  shows "(\<forall>d. l \<in> crit s d \<longrightarrow> d = c) \<and> holding c l (mach s) = Ok True (mach s) \<and> \<not> sie (mach s) c"
proof -
  have inv: "word_ok s" "excl_ok s" "holder_ok s" "depth_ok s"
    using smp_reachable_inv [OF assms(1)] by (auto simp: smp_inv_def)
  have own: "owns s c l" using assms(2) by (simp add: owns_def)
  have "d = c" if "l \<in> crit s d" for d
    using that excl_okD [OF inv(2) own] by (simp add: owns_def)
  moreover have "locked (lks (mach s) l)" "lcpu (lks (mach s) l) = Some c"
    using word_okD [OF inv(1)] holder_okD(1) [OF inv(3)] own assms(2) by auto
  moreover have "0 < card (crit s c)"
    using assms(2) depth_okD(1) [OF inv(4), of c] by (auto simp: card_gt_0_iff)
  then have "0 < noff (cpus (mach s) c)"
    using depth_okD(2) [OF inv(4), of c] by (simp add: in_lock_code_def)
  then have "\<not> sie (mach s) c"
    using depth_okD(3) [OF inv(4)] by blast
  ultimately show ?thesis by (auto simp: holding_def gets_run)
qed

definition one_in :: smp where
  "one_in = (let m1 = off_step 0 boot_machine;
                 m2 = m1\<lparr>lks := (lks m1)(Kmem_lock := (lks m1 Kmem_lock)\<lparr>locked := True\<rparr>)\<rparr>;
                 m3 = m2\<lparr>lks := (lks m2)(Kmem_lock := (lks m2 Kmem_lock)\<lparr>lcpu := Some 0\<rparr>)\<rparr>
             in \<lparr>mach = m3, lpc = ((\<lambda>_. In_kernel)(0 := Spinning Kmem_lock, 0 := Swapped Kmem_lock, 0 := In_kernel)),
                 crit = (\<lambda>_. {})(0 := {Kmem_lock})\<rparr>)"

lemma one_in_reachable: "smp_reachable one_in"
proof -
  let ?s0 = smp_init
  let ?m1 = "off_step 0 boot_machine"
  let ?s1 = "?s0\<lparr>mach := ?m1, lpc := (lpc ?s0)(0 := Spinning Kmem_lock)\<rparr>"
  let ?m2 = "?m1\<lparr>lks := (lks ?m1)(Kmem_lock := (lks ?m1 Kmem_lock)\<lparr>locked := True\<rparr>)\<rparr>"
  let ?s2 = "?s1\<lparr>mach := ?m2, lpc := (lpc ?s1)(0 := Swapped Kmem_lock)\<rparr>"
  let ?m3 = "?m2\<lparr>lks := (lks ?m2)(Kmem_lock := (lks ?m2 Kmem_lock)\<lparr>lcpu := Some 0\<rparr>)\<rparr>"
  have "spin_step ?s0 ?s1"
    by (rule spin_step.acquire_enter)
       (simp_all add: smp_init_def push_off_run holding_def gets_run boot_machine_def kernel_locks_def)
  moreover have "spin_step ?s1 ?s2"
    by (rule spin_step.swap_succeeds [where l = Kmem_lock])
       (simp_all add: smp_init_def upd_lk_def upd_run boot_machine_def)
  moreover have "spin_step ?s2 (?s2\<lparr>mach := ?m3, lpc := (lpc ?s2)(0 := In_kernel),
      crit := (crit ?s2)(0 := insert Kmem_lock (crit ?s2 0))\<rparr>)"
    by (rule spin_step.acquire_leave) (simp_all add: smp_init_def upd_lk_def upd_run)
  ultimately have "smp_reachable (?s2\<lparr>mach := ?m3, lpc := (lpc ?s2)(0 := In_kernel),
      crit := (crit ?s2)(0 := insert Kmem_lock (crit ?s2 0))\<rparr>)"
    by (blast intro: smp_reachable.intros)
  then show ?thesis by (simp add: one_in_def smp_init_def Let_def)
qed

theorem spinlock_mutual_exclusion_witness:
  "smp_reachable one_in \<and> Kmem_lock \<in> crit one_in 0 \<and> \<not> sie (mach one_in) 0"
proof -
  have "Kmem_lock \<in> crit one_in 0" by (simp add: one_in_def Let_def)
  then show ?thesis
    using one_in_reachable spinlock_mutual_exclusion [OF one_in_reachable] by blast
qed

text \<open>
  C2: the lock code gets stuck only on a lock another hart owns. In every reachable state a
  hart inside \<open>acquire\<close> or \<open>release\<close> either can take its next step, so in particular
  \<open>pop_off\<close> does not panic, or it spins on a lock word owned by a different hart.
\<close>

theorem lock_code_progress:
  assumes "smp_reachable s" and "lpc s c \<noteq> In_kernel"
  shows "(\<exists>t. spin_step s t \<and> lpc t c \<noteq> lpc s c) \<or>
         (\<exists>l d. lpc s c = Spinning l \<and> d \<noteq> c \<and> owns s d l)"
proof -
  have inv: "word_ok s" "excl_ok s" "holder_ok s" "depth_ok s"
    using smp_reachable_inv [OF assms(1)] by (auto simp: smp_inv_def)
  show ?thesis
  proof (cases "lpc s c")
    case In_kernel
    with assms(2) show ?thesis by simp
  next
    case (Spinning l)
    show ?thesis
    proof (cases "locked (lks (mach s) l)")
      case True
      then obtain d where d: "owns s d l" using word_okD [OF inv(1)] by blast
      moreover have "\<not> owns s c l"
        using Spinning holder_okD(4) [OF inv(3), of l c] by (auto simp: owns_def)
      ultimately have "d \<noteq> c" by auto
      with d Spinning show ?thesis by blast
    next
      case False
      from spin_step.swap_succeeds [OF Spinning False]
      obtain m where "spin_step s (s\<lparr>mach := m, lpc := (lpc s)(c := Swapped l)\<rparr>)"
        by (auto simp: upd_lk_def upd_run)
      with Spinning show ?thesis by (intro disjI1 exI conjI) auto
    qed
  next
    case (Swapped l)
    from spin_step.acquire_leave [OF Swapped]
    obtain m where "spin_step s (s\<lparr>mach := m, lpc := (lpc s)(c := In_kernel),
        crit := (crit s)(c := insert l (crit s c))\<rparr>)"
      by (auto simp: upd_lk_def upd_run)
    with Swapped show ?thesis by (intro disjI1 exI conjI) auto
  next
    case (Clearing l)
    from spin_step.lock_cleared [OF Clearing]
    obtain m where "spin_step s (s\<lparr>mach := m, lpc := (lpc s)(c := Popping)\<rparr>)"
      by (auto simp: upd_lk_def upd_run)
    with Clearing show ?thesis by (intro disjI1 exI conjI) auto
  next
    case Popping
    with popping_depth [OF inv(4)] pop_off_run obtain m where "pop_off c (mach s) = Ok () m"
      by blast
    from spin_step.release_leave [OF Popping this] Popping show ?thesis
      by (intro disjI1 exI conjI) auto
  qed
qed

theorem lock_code_progress_witness:
  "smp_reachable (smp_init\<lparr>mach := off_step 0 boot_machine, lpc := (lpc smp_init)(0 := Spinning Kmem_lock)\<rparr>) \<and>
   (\<exists>t. spin_step (smp_init\<lparr>mach := off_step 0 boot_machine, lpc := (lpc smp_init)(0 := Spinning Kmem_lock)\<rparr>) t)"
proof -
  let ?s1 = "smp_init\<lparr>mach := off_step 0 boot_machine, lpc := (lpc smp_init)(0 := Spinning Kmem_lock)\<rparr>"
  have "spin_step smp_init ?s1"
    by (rule spin_step.acquire_enter)
       (simp_all add: smp_init_def push_off_run holding_def gets_run boot_machine_def kernel_locks_def)
  then have r: "smp_reachable ?s1" by (blast intro: smp_reachable.intros)
  have n: "lpc ?s1 0 \<noteq> In_kernel" by simp
  have "\<not> owns ?s1 d Kmem_lock" for d by (simp add: owns_def smp_init_def)
  with lock_code_progress [OF r n] have "\<exists>t. spin_step ?s1 t" by auto
  with r show ?thesis by blast
qed

section \<open>The view of one kernel thread\<close>

text \<open>
  The other components are written against the locks as one running kernel thread sees
  them: which locks its hart holds and how deep interrupts are disabled. Acquiring a
  lock another hart holds means waiting; the thread then continues from the state it
  finds, so the wait itself is not part of this view.
\<close>

record kctx =
  held :: "lockid \<Rightarrow> bool"
  depth :: nat

definition k_acquire :: "lockid \<Rightarrow> (unit, 'z kctx_scheme) kern" where
  "k_acquire l = bind (gets (\<lambda>s. held s l)) (\<lambda>h.
     if h then panic ''acquire''
     else upd (\<lambda>s. s\<lparr>held := (held s)(l := True), depth := depth s + 1\<rparr>))"

definition k_release :: "lockid \<Rightarrow> (unit, 'z kctx_scheme) kern" where
  "k_release l = bind (gets (\<lambda>s. held s l)) (\<lambda>h.
     if \<not> h then panic ''release'' else
     bind (gets depth) (\<lambda>n.
     if n < 1 then panic ''pop_off''
     else upd (\<lambda>s. s\<lparr>held := (held s)(l := False), depth := depth s - 1\<rparr>)))"

definition kview :: "nat \<Rightarrow> machine \<Rightarrow> kctx" where
  "kview c m = \<lparr>held = (\<lambda>l. l \<in> held_set c m), depth = nat (noff (cpus m c))\<rparr>"

text \<open>
  C4: the code of \<open>acquire\<close> and \<open>release\<close> implements this view: whenever the hart's
  bookkeeping is in order and its depth can still be incremented, a return of the code is a return in the view with the state the
  view computes, and a panic of the code is the same panic in the view.
\<close>

theorem spinlock_refines_view:
  assumes "hart_ready c m"
  shows "(\<forall>m'. noff (cpus m c) < 2 ^ 31 - 1 \<longrightarrow> acquire c l m = Ok () m' \<longrightarrow> k_acquire l (kview c m) = Ok () (kview c m'))
       \<and> (\<forall>e. acquire c l m = Panic e \<longrightarrow> k_acquire l (kview c m) = Panic e)
       \<and> (\<forall>m'. release c l m = Ok () m' \<longrightarrow> k_release l (kview c m) = Ok () (kview c m'))
       \<and> (\<forall>e. release c l m = Panic e \<longrightarrow> k_release l (kview c m) = Panic e)"
proof (intro conjI allI impI)
  fix m'
  assume n: "noff (cpus m c) < 2 ^ 31 - 1" and a: "acquire c l m = Ok () m'"
  with acquire_ready [OF assms a] assms have "l \<notin> held_set c m"
      "held_set c m' = insert l (held_set c m)" "noff (cpus m' c) = noff (cpus m c) + 1"
      "0 \<le> noff (cpus m c)"
    using acquire_Ok_iff [of c l m] by (auto simp: hart_ready_def cpu_ok_def)
  then show "k_acquire l (kview c m) = Ok () (kview c m')"
    by (auto simp: k_acquire_def kview_def exec_simps fun_eq_iff)
next
  fix e
  assume a: "acquire c l m = Panic e"
  then have "l \<in> held_set c m \<and> e = ''acquire''"
    by (cases "locked (lks m l)"; cases "lcpu (lks m l) = Some c")
       (auto simp: acquire_run acquire_held acquire_taken held_set_def)
  then show "k_acquire l (kview c m) = Panic e"
    by (simp add: k_acquire_def kview_def exec_simps)
next
  fix m'
  assume r: "release c l m = Ok () m'"
  then have l: "l \<in> held_set c m"
    by (cases "l \<in> held_set c m") (auto simp: held_set_def release_not_held)
  then have "0 < card (held_set c m)"
    using assms by (auto simp: hart_ready_def card_gt_0_iff)
  then have n: "0 < noff (cpus m c)" "\<not> sie m c"
    using assms by (auto simp: hart_ready_def cpu_ok_def)
  from release_run [of m l c] l n r have "lks m' = (lks m)(l := (lks m l)\<lparr>lcpu := None, locked := False\<rparr>)"
      "noff (cpus m' c) = noff (cpus m c) - 1"
    by (auto simp: held_set_def)
  with l n show "k_release l (kview c m) = Ok () (kview c m')"
    by (auto simp: k_release_def kview_def exec_simps fun_eq_iff held_set_def nat_diff_distrib)
next
  fix e
  assume r: "release c l m = Panic e"
  with release_ready [OF assms, of l] have "l \<notin> held_set c m" by auto
  with r show "k_release l (kview c m) = Panic e"
    by (auto simp: k_release_def kview_def exec_simps held_set_def release_not_held)
qed

theorem spinlock_refines_view_witness:
  "hart_ready 1 boot_machine \<and>
   (\<exists>m'. acquire 1 Bcache_lock boot_machine = Ok () m' \<and>
         k_acquire Bcache_lock (kview 1 boot_machine) = Ok () (kview 1 m'))"
proof -
  have r: "hart_ready 1 boot_machine"
    by (simp add: hart_ready_def cpu_ok_def held_set_def boot_machine_def)
  obtain m' where "acquire 1 Bcache_lock boot_machine = Ok () m'"
    using acquire_Ok_iff [of 1 Bcache_lock boot_machine] by (auto simp: boot_machine_def)
  moreover have "noff (cpus boot_machine 1) < 2 ^ 31 - 1" by (simp add: boot_machine_def)
  ultimately show ?thesis using r spinlock_refines_view [OF r, of Bcache_lock] by blast
qed

lemma k_acquire_run [exec_simps]:
  "k_acquire l s = (if held s l then Panic ''acquire''
     else Ok () (s\<lparr>held := (held s)(l := True), depth := depth s + 1\<rparr>))"
  by (simp add: k_acquire_def exec_simps)

lemma k_release_run [exec_simps]:
  "k_release l s = (if \<not> held s l then Panic ''release'' else if depth s < 1 then Panic ''pop_off''
     else Ok () (s\<lparr>held := (held s)(l := False), depth := depth s - 1\<rparr>))"
  by (simp add: k_release_def exec_simps)

lemma wp_k_acquire [wp_simps]:
  "wp (k_acquire l) Q s = (\<not> held s l \<and> Q () (s\<lparr>held := (held s)(l := True), depth := depth s + 1\<rparr>))"
  by (simp add: wp_def k_acquire_run)

lemma wp_k_release [wp_simps]:
  "wp (k_release l) Q s =
     (held s l \<and> 1 \<le> depth s \<and> Q () (s\<lparr>held := (held s)(l := False), depth := depth s - 1\<rparr>))"
  by (auto simp: wp_def k_release_run)

definition k_ready :: "'z kctx_scheme \<Rightarrow> bool" where
  "k_ready s \<longleftrightarrow> finite {l. held s l} \<and> card {l. held s l} \<le> depth s"

lemma held_set_upd:
  "{k. k \<noteq> l \<longrightarrow> h k} = insert l {k. h k}"
  "Collect (h(l := False)) = {k. h k} - {l}"
  by (auto split: if_splits)

interpretation kthread: lock_contract k_acquire k_release held k_ready "\<lambda>_. True"
proof
  fix s t :: "'a kctx_scheme" and l k
  assume "k_ready s" "k_acquire l s = Ok () t"
  then show "held t l \<and> k_ready t"
    by (auto simp: k_acquire_run k_ready_def held_set_upd card_insert_if split: if_splits)
next
  fix s t :: "'a kctx_scheme" and l k
  assume "k_acquire l s = Ok () t" "k \<noteq> l"
  then show "held t k = held s k"
    by (auto simp: k_acquire_run split: if_splits)
next
  fix s t :: "'a kctx_scheme" and l
  assume "held s l"
  then show "k_acquire l s \<noteq> Ok () t"
    by (simp add: k_acquire_run)
next
  fix s :: "'a kctx_scheme" and l
  assume a: "k_ready s" "held s l"
  then have "0 < card {k. held s k}"
    by (auto simp: k_ready_def card_gt_0_iff)
  with a show "\<exists>t. k_release l s = Ok () t \<and> k_ready t \<and> held t = (held s)(l := False)"
    by (auto simp: k_release_run k_ready_def held_set_upd)
next
  fix s :: "'a kctx_scheme" and l
  assume "\<not> held s l"
  then show "\<exists>e. k_release l s = Panic e"
    by (simp add: k_release_run)
qed

end
