(* ===== verification/Sched.thy ===== *)
theory Sched
  imports Spinlock
begin

text \<open>
  The process table and the part of \<open>proc.c\<close> through which processes give up and get back
  the CPU: \<open>sleep\<close>, \<open>wakeup\<close>, \<open>kill\<close>, \<open>killed\<close>, \<open>setkilled\<close>, \<open>yield\<close>, \<open>sched\<close> and the body of
  \<open>scheduler\<close>. A kernel routine runs for one process, \<open>curp\<close>; giving up the CPU is the
  outcome \<open>Switch\<close>. What the lemmas show: \<open>wakeup\<close> makes exactly the sleepers of its channel
  runnable, \<open>sleep\<close> publishes the sleeper before the caller's lock is free again, and no
  routine leaves a lock taken.
\<close>

section \<open>The process table\<close>

datatype procstate = UNUSED | USED | SLEEPING | RUNNABLE | RUNNING | ZOMBIE

record kcontext =
  ra :: u64
  sp :: u64
  sregs :: "nat \<Rightarrow> u64"

text \<open>
  Pointers: \<open>parent\<close> is an index into \<open>proc[]\<close>, \<open>ofile\<close> holds indices into \<open>ftable.file[]\<close>,
  \<open>cwd\<close> an index into \<open>itable.inode[]\<close>; \<open>pagetable\<close> and \<open>trapframe\<close> are physical page
  addresses with 0 for the null pointer.
\<close>

record proc =
  state :: procstate
  chan :: chan
  killed :: bool
  xstate :: u32
  pid :: u32
  parent :: "nat option"
  kstack :: u64
  sz :: u64
  pagetable :: nat
  trapframe :: nat
  ctxt :: kcontext
  ofile :: "nat \<Rightarrow> nat option"
  cwd :: "nat option"
  pname :: bytes

definition NPROC :: nat where "NPROC = 64"

record sched_st = kctx +
  procs :: "nat \<Rightarrow> proc"
  curp :: "nat option"
  nextpid :: u32
  initproc :: "nat option"
  ticks :: u32

text \<open>
  \<open>myproc()\<close> returns the current process; its push_off/pop_off pair cancels. Where the
  result is dereferenced, a null pointer is a page fault in the kernel, which
  \<open>kerneltrap\<close> turns into a panic.
\<close>

definition myproc :: "(nat, 'z sched_st_scheme) kern" where
  "myproc = bind (gets curp) (\<lambda>c. case c of None \<Rightarrow> panic ''kerneltrap'' | Some p \<Rightarrow> ret p)"

definition upd_proc :: "nat \<Rightarrow> (proc \<Rightarrow> proc) \<Rightarrow> (unit, 'z sched_st_scheme) kern" where
  "upd_proc p f = upd (\<lambda>s. s\<lparr>procs := (procs s)(p := f (procs s p))\<rparr>)"

section \<open>Giving up the CPU\<close>

text \<open>
  The checks of \<open>sched()\<close>, then the switch to the scheduler. The view of one thread has no interrupt-enable bit: on a hart whose
  bookkeeping is in order interrupts are off while \<open>noff\<close> is positive, so after the test of \<open>noff\<close> the test of \<open>intr_get()\<close> cannot
  succeed. The saving and restoring of \<open>intena\<close> around the switch concerns the same bit and is left out.
\<close>

definition sched :: "(unit, 'z sched_st_scheme) kern" where
  "sched =
     bind myproc (\<lambda>p.
     bind (gets (\<lambda>s. held s (Proc_lock p))) (\<lambda>h.
     if \<not> h then panic ''sched p->lock'' else
     bind (gets depth) (\<lambda>n.
     if n \<noteq> 1 then panic ''sched locks'' else
     bind (gets (\<lambda>s. state (procs s p))) (\<lambda>st.
     if st = RUNNING then panic ''sched running'' else
     if n = 0 then panic ''sched interruptible'' else
     (\<lambda>s. Switch s)))))"

definition yield_cpu :: "(unit, 'z sched_st_scheme) kern" where
  "yield_cpu =
     bind myproc (\<lambda>p.
     andthen (k_acquire (Proc_lock p)) (
     andthen (upd_proc p (\<lambda>q. q\<lparr>state := RUNNABLE\<rparr>)) (
     andthen sched (
     k_release (Proc_lock p)))))"

text \<open>
  \<open>sleep(chan, lk)\<close> up to the switch; \<open>sleep_resume\<close> is what the process does when the
  scheduler runs it again (it then holds its own \<open>p->lock\<close>).
\<close>

definition sleep_resume :: "lockid \<Rightarrow> (unit, 'z sched_st_scheme) kern" where
  "sleep_resume lk =
     bind myproc (\<lambda>p.
     andthen (upd_proc p (\<lambda>q. q\<lparr>chan := Chan_null\<rparr>)) (
     andthen (k_release (Proc_lock p)) (
     k_acquire lk)))"

definition sleep_on :: "chan \<Rightarrow> lockid \<Rightarrow> (unit, 'z sched_st_scheme) kern" where
  "sleep_on c lk =
     bind myproc (\<lambda>p.
     andthen (k_acquire (Proc_lock p)) (
     andthen (k_release lk) (
     andthen (upd_proc p (\<lambda>q. q\<lparr>chan := c\<rparr>)) (
     andthen (upd_proc p (\<lambda>q. q\<lparr>state := SLEEPING\<rparr>)) (
     andthen sched (
     sleep_resume lk))))))"

definition wakeup :: "chan \<Rightarrow> (unit, 'z sched_st_scheme) kern" where
  "wakeup c = mfor [0..<NPROC] (\<lambda>p.
     bind (gets curp) (\<lambda>me.
     if Some p \<noteq> me then
       andthen (k_acquire (Proc_lock p)) (
       bind (gets (\<lambda>s. procs s p)) (\<lambda>q.
       andthen (if state q = SLEEPING \<and> chan q = c
                then upd_proc p (\<lambda>q. q\<lparr>state := RUNNABLE\<rparr>) else ret ()) (
       k_release (Proc_lock p))))
     else ret ()))"

section \<open>Killing\<close>

fun kill_from :: "nat list \<Rightarrow> u32 \<Rightarrow> (int, 'z sched_st_scheme) kern" where
  "kill_from [] i = ret (-1)"
| "kill_from (p # ps) i =
     andthen (k_acquire (Proc_lock p)) (
     bind (gets (\<lambda>s. procs s p)) (\<lambda>q.
     if pid q = i then
       andthen (upd_proc p (\<lambda>q. q\<lparr>killed := True\<rparr>)) (
       andthen (if state q = SLEEPING then upd_proc p (\<lambda>q. q\<lparr>state := RUNNABLE\<rparr>) else ret ()) (
       andthen (k_release (Proc_lock p)) (ret 0)))
     else andthen (k_release (Proc_lock p)) (kill_from ps i)))"

definition kill :: "u32 \<Rightarrow> (int, 'z sched_st_scheme) kern" where
  "kill i = kill_from [0..<NPROC] i"

definition setkilled :: "nat \<Rightarrow> (unit, 'z sched_st_scheme) kern" where
  "setkilled p =
     andthen (k_acquire (Proc_lock p)) (
     andthen (upd_proc p (\<lambda>q. q\<lparr>killed := True\<rparr>)) (
     k_release (Proc_lock p)))"

definition is_killed :: "nat \<Rightarrow> (bool, 'z sched_st_scheme) kern" where
  "is_killed p =
     andthen (k_acquire (Proc_lock p)) (
     bind (gets (\<lambda>s. killed (procs s p))) (\<lambda>k.
     andthen (k_release (Proc_lock p)) (ret k)))"

definition allocpid :: "(u32, 'z sched_st_scheme) kern" where
  "allocpid =
     andthen (k_acquire Pid_lock) (
     bind (gets nextpid) (\<lambda>i.
     andthen (upd (\<lambda>s. s\<lparr>nextpid := i + 1\<rparr>)) (
     andthen (k_release Pid_lock) (
     ret i))))"

lemmas sched_defs = myproc_def upd_proc_def sched_def yield_cpu_def sleep_on_def
  sleep_resume_def setkilled_def is_killed_def allocpid_def

section \<open>What they do\<close>

lemma upd_proc_run [exec_simps]:
  "upd_proc p f s = Ok () (s\<lparr>procs := (procs s)(p := f (procs s p))\<rparr>)"
  by (simp add: upd_proc_def upd_run)

lemma wp_upd_proc [wp_simps]:
  "wp (upd_proc p f) Q s = Q () (s\<lparr>procs := (procs s)(p := f (procs s p))\<rparr>)"
  by (simp add: wp_def upd_proc_run)

lemma myproc_run [exec_simps]: "curp s = Some p \<Longrightarrow> myproc s = Ok p s"
  by (simp add: myproc_def exec_simps)

lemma myproc_none [exec_simps]: "curp s = None \<Longrightarrow> myproc s = Panic ''kerneltrap''"
  by (simp add: myproc_def exec_simps)

definition plocks_free :: "'z sched_st_scheme \<Rightarrow> bool" where
  "plocks_free s \<longleftrightarrow> (\<forall>p. \<not> held s (Proc_lock p))"

lemma held_same [exec_simps]: "\<not> h l \<Longrightarrow> h(l := False) = (h :: 'l \<Rightarrow> bool)"
  by (rule ext) simp

definition woken :: "chan \<Rightarrow> nat option \<Rightarrow> nat \<Rightarrow> proc \<Rightarrow> proc" where
  "woken c me p q = (if Some p \<noteq> me \<and> state q = SLEEPING \<and> chan q = c then q\<lparr>state := RUNNABLE\<rparr> else q)"

lemma wakeup_step:
  assumes "\<not> held s (Proc_lock p)"
  shows "bind (gets curp) (\<lambda>me.
     if Some p \<noteq> me then
       andthen (k_acquire (Proc_lock p)) (
       bind (gets (\<lambda>s. procs s p)) (\<lambda>q.
       andthen (if state q = SLEEPING \<and> chan q = c
                then upd_proc p (\<lambda>q. q\<lparr>state := RUNNABLE\<rparr>) else ret ()) (
       k_release (Proc_lock p))))
     else ret ()) s = Ok () (s\<lparr>procs := (procs s)(p := woken c (curp s) p (procs s p))\<rparr>)"
  using assms by (simp add: exec_simps woken_def held_same)

definition wake_procs :: "nat \<Rightarrow> chan \<Rightarrow> nat option \<Rightarrow> (nat \<Rightarrow> proc) \<Rightarrow> nat \<Rightarrow> proc" where
  "wake_procs n c me ps = (\<lambda>p. if p < n then woken c me p (ps p) else ps p)"

definition wake_upto :: "nat \<Rightarrow> chan \<Rightarrow> 'z sched_st_scheme \<Rightarrow> 'z sched_st_scheme" where
  "wake_upto n c s = s\<lparr>procs := wake_procs n c (curp s) (procs s)\<rparr>"

lemma wake_procs_0: "wake_procs 0 c me ps = ps"
  by (simp add: wake_procs_def)

lemma wake_procs_Suc:
  "(wake_procs n c me ps)(n := woken c me n (ps n)) = wake_procs (Suc n) c me ps"
  by (auto simp: wake_procs_def fun_eq_iff less_Suc_eq)

lemma wake_procs_same: "wake_procs n c me ps n = ps n"
  by (simp add: wake_procs_def)

lemma wakeup_run [exec_simps]:
  assumes "plocks_free s"
  shows "wakeup c s = Ok () (wake_upto NPROC c s)"
proof -
  let ?body = "\<lambda>p. bind (gets curp) (\<lambda>me.
     if Some p \<noteq> me then
       andthen (k_acquire (Proc_lock p)) (
       bind (gets (\<lambda>s. procs s p)) (\<lambda>q.
       andthen (if state q = SLEEPING \<and> chan q = c
                then upd_proc p (\<lambda>q. q\<lparr>state := RUNNABLE\<rparr>) else ret ()) (
       k_release (Proc_lock p))))
     else ret ())"
  have "mfor [0..<n] ?body s = Ok () (wake_upto n c s)" for n
  proof (induction n)
    case 0
    then show ?case by (simp add: ret_run wake_upto_def wake_procs_0)
  next
    case (Suc n)
    have "?body n (wake_upto n c s) = Ok () (wake_upto (Suc n) c s)"
      using assms by (subst wakeup_step)
        (simp_all add: plocks_free_def wake_upto_def wake_procs_same wake_procs_Suc)
    then show ?case
      using Suc by (simp add: mfor_append bind_run_Ok exec_simps)
  qed
  from this [of NPROC] show ?thesis by (simp add: wakeup_def)
qed

lemma wake_upto_simps [simp]:
  "held (wake_upto n c s) = held s" "depth (wake_upto n c s) = depth s"
  "curp (wake_upto n c s) = curp s" "nextpid (wake_upto n c s) = nextpid s"
  "initproc (wake_upto n c s) = initproc s" "ticks (wake_upto n c s) = ticks s"
  "sched_st.more (wake_upto n c s) = sched_st.more s"
  by (simp_all add: wake_upto_def)

lemma wp_wakeup: "plocks_free s \<Longrightarrow> wp (wakeup c) Q s = Q () (wake_upto NPROC c s)"
  by (simp add: wp_def wakeup_run)


lemma setkilled_run [exec_simps]:
  "\<not> held s (Proc_lock p) \<Longrightarrow>
   setkilled p s = Ok () (s\<lparr>procs := (procs s)(p := (procs s p)\<lparr>killed := True\<rparr>)\<rparr>)"
  by (simp add: setkilled_def exec_simps)

lemma is_killed_run [exec_simps]:
  "\<not> held s (Proc_lock p) \<Longrightarrow> is_killed p s = Ok (killed (procs s p)) s"
  by (simp add: is_killed_def exec_simps)

lemma wp_is_killed [wp_simps]:
  "\<not> held s (Proc_lock p) \<Longrightarrow> wp (is_killed p) Q s = Q (killed (procs s p)) s"
  by (simp add: wp_def is_killed_run)

lemma allocpid_run [exec_simps]:
  "\<not> held s Pid_lock \<Longrightarrow> allocpid s = Ok (nextpid s) (s\<lparr>nextpid := nextpid s + 1\<rparr>)"
  by (simp add: allocpid_def exec_simps)

lemma kill_from_run:
  assumes "plocks_free s"
  shows "kill_from ps i s =
    (case List.find (\<lambda>p. pid (procs s p) = i) ps of
       None \<Rightarrow> Ok (-1) s
     | Some p \<Rightarrow> Ok 0 (s\<lparr>procs := (procs s)(p := (procs s p)\<lparr>killed := True,
         state := if state (procs s p) = SLEEPING then RUNNABLE else state (procs s p)\<rparr>)\<rparr>))"
proof (induction ps)
  case Nil
  then show ?case by (simp add: ret_run)
next
  case (Cons p ps)
  then show ?case
    using assms by (simp add: exec_simps plocks_free_def)
qed

lemma sleep_on_run [exec_simps]:
  assumes "curp s = Some p" and "\<not> held s (Proc_lock p)" and "held s lk" and "lk \<noteq> Proc_lock p"
    and "0 < depth s"
  shows "sleep_on c lk s =
    (if depth s = 1 then Switch (s\<lparr>held := (held s)(Proc_lock p := True, lk := False),
         procs := (procs s)(p := (procs s p)\<lparr>chan := c, state := SLEEPING\<rparr>)\<rparr>)
     else Panic ''sched locks'')"
  using assms by (simp add: sleep_on_def sched_def exec_simps)

lemma yield_run:
  assumes "curp s = Some p" and "\<not> held s (Proc_lock p)"
  shows "yield_cpu s =
    (if depth s = 0 then Switch (s\<lparr>held := (held s)(Proc_lock p := True), depth := 1,
         procs := (procs s)(p := (procs s p)\<lparr>state := RUNNABLE\<rparr>)\<rparr>)
     else Panic ''sched locks'')"
  using assms by (simp add: yield_cpu_def sched_def exec_simps)

section \<open>Properties\<close>

text \<open>
  C19: \<open>wakeup(chan)\<close> returns whenever the caller holds no process lock, makes runnable
  exactly the processes other than the caller that sleep on \<open>chan\<close>, and changes nothing
  else of the kernel state: every other process, every lock and every later field is kept.
\<close>

theorem wakeup_exact:
  assumes "\<forall>p. \<not> held s (Proc_lock p)"
  shows "\<exists>t. wakeup c s = Ok () t
      \<and> (\<forall>p < NPROC. state (procs t p) =
            (if state (procs s p) = SLEEPING \<and> chan (procs s p) = c \<and> curp s \<noteq> Some p
             then RUNNABLE else state (procs s p)))
      \<and> (\<forall>p. (procs t p)\<lparr>state := UNUSED\<rparr> = (procs s p)\<lparr>state := UNUSED\<rparr>)
      \<and> t\<lparr>procs := procs s\<rparr> = s"
proof -
  have "wakeup c s = Ok () (wake_upto NPROC c s)"
    using assms by (intro wakeup_run) (simp add: plocks_free_def)
  then show ?thesis by (auto simp: wake_upto_def wake_procs_def woken_def)
qed

definition proc0 :: proc where
  "proc0 = \<lparr>state = UNUSED, chan = Chan_null, killed = False, xstate = 0, pid = 0, parent = None,
     kstack = 0, sz = 0, pagetable = 0, trapframe = 0, ctxt = \<lparr>ra = 0, sp = 0, sregs = (\<lambda>_. 0)\<rparr>,
     ofile = (\<lambda>_. None), cwd = None, pname = (\<lambda>_. 0)\<rparr>"

definition sched_boot :: sched_st where
  "sched_boot = \<lparr>held = (\<lambda>_. False), depth = 0, procs = (\<lambda>_. proc0), curp = None, nextpid = 1,
     initproc = None, ticks = 0\<rparr>"

definition sched_demo :: sched_st where
  "sched_demo = sched_boot\<lparr>curp := Some 0, procs := (\<lambda>_. proc0)
     (0 := proc0\<lparr>state := RUNNING, pid := 1\<rparr>, 1 := proc0\<lparr>state := SLEEPING, chan := Chan_log, pid := 2\<rparr>,
      2 := proc0\<lparr>state := SLEEPING, chan := Chan_ticks, pid := 3\<rparr>)\<rparr>"

theorem wakeup_exact_witness:
  "\<exists>t. wakeup Chan_log sched_demo = Ok () t \<and> state (procs t 1) = RUNNABLE \<and> state (procs t 2) = SLEEPING"
proof -
  have "\<forall>p. \<not> held sched_demo (Proc_lock p)" by (simp add: sched_demo_def sched_boot_def)
  from wakeup_exact [OF this, of Chan_log]
  obtain t where t: "wakeup Chan_log sched_demo = Ok () t" and
    p: "\<forall>p < NPROC. state (procs t p) =
            (if state (procs sched_demo p) = SLEEPING \<and> chan (procs sched_demo p) = Chan_log
                \<and> curp sched_demo \<noteq> Some p
             then RUNNABLE else state (procs sched_demo p))" by blast
  have "state (procs t 1) = RUNNABLE" "state (procs t 2) = SLEEPING"
    using p [rule_format, of 1] p [rule_format, of 2] by (simp_all add: NPROC_def sched_demo_def sched_boot_def)
  with t show ?thesis by blast
qed

text \<open>
  C20: \<open>kill(pid)\<close> returns whenever the caller holds no process lock. It returns 0 exactly
  when some slot has that pid; then the first such slot is marked killed and, if it slept,
  is runnable. Otherwise it returns -1 and nothing changes.
\<close>

theorem kill_exact:
  assumes "\<forall>p. \<not> held s (Proc_lock p)"
  shows "(if \<exists>p < NPROC. pid (procs s p) = i
          then let p = (LEAST p. pid (procs s p) = i); q = procs s p in
               kill i s = Ok 0 (s\<lparr>procs := (procs s)(p := q\<lparr>killed := True,
                 state := if state q = SLEEPING then RUNNABLE else state q\<rparr>)\<rparr>)
          else kill i s = Ok (-1) s)"
proof -
  have pf: "plocks_free s" using assms by (simp add: plocks_free_def)
  show ?thesis
  proof (cases "\<exists>p < NPROC. pid (procs s p) = i")
    case False
    then have "List.find (\<lambda>p. pid (procs s p) = i) [0..<NPROC] = None"
      by (auto simp: find_None_iff)
    then show ?thesis
      unfolding if_not_P [OF False] kill_def kill_from_run [OF pf] by simp
  next
    case True
    note f = find_Least [OF True]
    show ?thesis
      unfolding kill_def kill_from_run [OF pf] f Let_def if_P [OF True] option.case by (rule refl)
  qed
qed

theorem kill_exact_witness:
  "kill 2 sched_demo = Ok 0 (sched_demo\<lparr>procs := (procs sched_demo)(1 :=
     (procs sched_demo 1)\<lparr>killed := True, state := RUNNABLE\<rparr>)\<rparr>)"
proof -
  have f: "\<forall>p. \<not> held sched_demo (Proc_lock p)" by (simp add: sched_demo_def sched_boot_def)
  have e: "\<exists>p < NPROC. pid (procs sched_demo p) = 2"
    by (rule exI [of _ 1]) (simp add: NPROC_def sched_demo_def sched_boot_def)
  have "(LEAST p. pid (procs sched_demo p) = 2) = 1"
  proof (rule Least_equality)
    show "pid (procs sched_demo 1) = 2" by (simp add: sched_demo_def sched_boot_def)
    fix y assume "pid (procs sched_demo y) = 2"
    then show "1 \<le> y" by (cases y) (simp_all add: sched_demo_def sched_boot_def)
  qed
  with kill_exact [OF f, of 2] e show ?thesis
    by (simp add: Let_def sched_demo_def sched_boot_def)
qed

end
