(* ===== verification/Sleeplock.thy ===== *)
theory Sleeplock
  imports Sched
begin

text \<open>
  Sleep locks (\<open>sleeplock.c\<close>). First the operations as one process executes them, against
  the process table and the spin-lock view; then all processes together, interleaved at
  the granularity of the lock operations and of the single stores of \<open>sleep\<close>, \<open>wakeup\<close>,
  \<open>acquiresleep\<close> and \<open>releasesleep\<close>, with mutual exclusion and the absence of lost wakeups.
\<close>

section \<open>The operations\<close>

record sleeplock =
  slocked :: bool
  spid :: u32

record sleep_st = sched_st +
  slks :: "slock \<Rightarrow> sleeplock"

definition upd_slk :: "slock \<Rightarrow> (sleeplock \<Rightarrow> sleeplock) \<Rightarrow> (unit, 'z sleep_st_scheme) kern" where
  "upd_slk l f = upd (\<lambda>s. s\<lparr>slks := (slks s)(l := f (slks s l))\<rparr>)"

definition initsleeplock :: "slock \<Rightarrow> (unit, 'z sleep_st_scheme) kern" where
  "initsleeplock l = andthen (upd_slk l (\<lambda>k. k\<lparr>slocked := False\<rparr>)) (upd_slk l (\<lambda>k. k\<lparr>spid := 0\<rparr>))"

text \<open>
  The loop of \<open>acquiresleep\<close>, entered with \<open>lk->lk\<close> held. A process that has to wait leaves
  through \<open>Switch\<close>; when it runs again it executes \<open>sleep_resume\<close> and this loop anew.
\<close>

definition acquiresleep_loop :: "slock \<Rightarrow> (unit, 'z sleep_st_scheme) kern" where
  "acquiresleep_loop l =
     bind (gets (\<lambda>s. slocked (slks s l))) (\<lambda>b.
     if b then sleep_on (Chan_slock l) (Sleep_lk l) else
     andthen (upd_slk l (\<lambda>k. k\<lparr>slocked := True\<rparr>)) (
     bind myproc (\<lambda>p.
     bind (gets (\<lambda>s. pid (procs s p))) (\<lambda>i.
     andthen (upd_slk l (\<lambda>k. k\<lparr>spid := i\<rparr>)) (
     k_release (Sleep_lk l))))))"

definition acquiresleep :: "slock \<Rightarrow> (unit, 'z sleep_st_scheme) kern" where
  "acquiresleep l = andthen (k_acquire (Sleep_lk l)) (acquiresleep_loop l)"

definition releasesleep :: "slock \<Rightarrow> (unit, 'z sleep_st_scheme) kern" where
  "releasesleep l =
     andthen (k_acquire (Sleep_lk l)) (
     andthen (upd_slk l (\<lambda>k. k\<lparr>slocked := False\<rparr>)) (
     andthen (upd_slk l (\<lambda>k. k\<lparr>spid := 0\<rparr>)) (
     andthen (wakeup (Chan_slock l)) (
     k_release (Sleep_lk l)))))"

definition holdingsleep :: "slock \<Rightarrow> (bool, 'z sleep_st_scheme) kern" where
  "holdingsleep l =
     andthen (k_acquire (Sleep_lk l)) (
     bind myproc (\<lambda>p.
     bind (gets (\<lambda>s. slocked (slks s l) \<and> spid (slks s l) = pid (procs s p))) (\<lambda>r.
     andthen (k_release (Sleep_lk l)) (
     ret r))))"

lemma upd_slk_run [exec_simps]:
  "upd_slk l f s = Ok () (s\<lparr>slks := (slks s)(l := f (slks s l))\<rparr>)"
  by (simp add: upd_slk_def upd_run)

definition owns_slk :: "'z sleep_st_scheme \<Rightarrow> slock \<Rightarrow> bool" where
  "owns_slk s l \<longleftrightarrow> slocked (slks s l) \<and>
     (\<exists>p. curp s = Some p \<and> spid (slks s l) = pid (procs s p))"

text \<open>The calling thread is a process and holds no spin lock at all.\<close>

definition quiet :: "'z sched_st_scheme \<Rightarrow> bool" where
  "quiet s \<longleftrightarrow> held s = (\<lambda>_. False) \<and> depth s = 0 \<and> curp s \<noteq> None"

lemma quietD [simp]: "quiet s \<Longrightarrow> \<not> held s l" "quiet s \<Longrightarrow> depth s = 0"
  by (simp_all add: quiet_def)

lemma quiet_plocks [simp]: "quiet s \<Longrightarrow> plocks_free s"
  by (simp add: plocks_free_def)

lemma quietE: "quiet s \<Longrightarrow> (\<And>p. curp s = Some p \<Longrightarrow> P) \<Longrightarrow> P"
  by (auto simp: quiet_def)

lemma depth_same [exec_simps]: "depth s = 0 \<Longrightarrow> s\<lparr>depth := 0\<rparr> = s"
  by (cases s) simp

definition mypid :: "'z sched_st_scheme \<Rightarrow> u32" where
  "mypid s = pid (procs s (the (curp s)))"

lemma acquiresleep_run [exec_simps]:
  assumes "quiet s" and "\<not> slocked (slks s l)"
  shows "acquiresleep l s = Ok () (s\<lparr>slks := (slks s)(l := \<lparr>slocked = True, spid = mypid s\<rparr>)\<rparr>)"
  using assms(1)
proof (rule quietE)
  fix p assume "curp s = Some p"
  with assms show ?thesis
    by (cases "slks s l") (simp add: acquiresleep_def acquiresleep_loop_def exec_simps mypid_def)
qed

lemma acquiresleep_blocks:
  assumes "quiet s" and "slocked (slks s l)" and "curp s = Some p"
  shows "acquiresleep l s = Switch (s\<lparr>depth := 1, held := (\<lambda>_. False)(Proc_lock p := True),
      procs := (procs s)(p := (procs s p)\<lparr>chan := Chan_slock l, state := SLEEPING\<rparr>)\<rparr>)"
proof -
  have "held s = (\<lambda>_. False)" using assms(1) by (simp add: quiet_def)
  then have "(held s)(Sleep_lk l := True, Proc_lock p := True, Sleep_lk l := False) =
      (\<lambda>_. False)(Proc_lock p := True)"
    by (auto simp: fun_eq_iff)
  with assms show ?thesis
    by (simp add: acquiresleep_def acquiresleep_loop_def exec_simps)
qed

lemma releasesleep_run [exec_simps]:
  assumes "quiet s"
  shows "releasesleep l s = Ok () (wake_upto NPROC (Chan_slock l)
      (s\<lparr>slks := (slks s)(l := \<lparr>slocked = False, spid = 0\<rparr>)\<rparr>))"
proof -
  have "plocks_free (s\<lparr>held := (held s)(Sleep_lk l := True), depth := 1,
      slks := (slks s)(l := \<lparr>slocked = False, spid = 0\<rparr>)\<rparr>)"
    using assms by (simp add: plocks_free_def)
  from wakeup_run [OF this] assms show ?thesis
    by (cases "slks s l") (simp add: releasesleep_def exec_simps wake_upto_def)
qed

lemma holdingsleep_run [exec_simps]:
  assumes "quiet s"
  shows "holdingsleep l s = Ok (owns_slk s l) s"
  using assms
proof (rule quietE)
  fix p assume "curp s = Some p"
  with assms show ?thesis
    by (simp add: holdingsleep_def exec_simps owns_slk_def)
qed

lemma slks_wake [simp]: "slks (wake_upto n c s) = slks s"
  by (simp add: wake_upto_def)

lemma quiet_wake [simp]: "quiet (wake_upto n c s) = quiet s"
  by (simp add: quiet_def)

lemma quiet_slks [simp]: "quiet (s\<lparr>slks := v\<rparr>) = quiet s"
  by (simp add: quiet_def)

lemma pid_wake [simp]: "pid (procs (wake_upto n c s) p) = pid (procs s p)"
  by (simp add: wake_upto_def wake_procs_def woken_def)

lemma mypid_wake [simp]: "mypid (wake_upto n c s) = mypid s"
  by (simp add: mypid_def)

text \<open>
  Sleep locks keep the lock contract of the spin locks, for a process that holds no spin
  lock; here a second acquire does not panic but never returns.
\<close>

lemma owns_slk_wake [simp]: "owns_slk (wake_upto n c s) l = owns_slk s l"
  by (simp add: owns_slk_def)

text \<open>\<open>releasesleep\<close> does not check its caller; a release by the owner is what the contract covers.\<close>

definition releasesleep_owned :: "slock \<Rightarrow> (unit, 'z sleep_st_scheme) kern" where
  "releasesleep_owned l = bind (holdingsleep l) (\<lambda>h. if \<not> h then panic ''not held'' else releasesleep l)"

interpretation sleeplk: lock_contract acquiresleep releasesleep_owned owns_slk quiet
proof
  fix s t :: "'a sleep_st_scheme" and l
  assume s: "quiet s" and a: "acquiresleep l s = Ok () t"
  have n: "\<not> slocked (slks s l)"
    using acquiresleep_blocks [OF s, of l] s a by (auto simp: quiet_def)
  with s a show "owns_slk t l \<and> quiet t"
    by (auto simp: acquiresleep_run owns_slk_def mypid_def quiet_def)
  show "owns_slk t k = owns_slk s k" if "k \<noteq> l" for k
    using s a n that by (auto simp: acquiresleep_run owns_slk_def)
next
  fix s t :: "'a sleep_st_scheme" and l
  assume "quiet s" and "owns_slk s l"
  then show "acquiresleep l s \<noteq> Ok () t"
    by (auto simp: owns_slk_def acquiresleep_blocks)
next
  fix s :: "'a sleep_st_scheme" and l
  assume q: "quiet s" and o: "owns_slk s l"
  then show "\<exists>t. releasesleep_owned l s = Ok () t \<and> quiet t \<and> owns_slk t = (owns_slk s)(l := False)"
    by (auto simp: releasesleep_owned_def exec_simps fun_eq_iff) (auto simp: owns_slk_def)
next
  fix s :: "'a sleep_st_scheme" and l
  assume "quiet s" and "\<not> owns_slk s l"
  then show "\<exists>e. releasesleep_owned l s = Panic e"
    by (simp add: releasesleep_owned_def exec_simps)
qed


section \<open>All processes together\<close>

text \<open>
  Where a process is in \<open>acquiresleep\<close>, \<open>sleep\<close>, \<open>releasesleep\<close> and \<open>wakeup\<close> on one sleep
  lock: before the acquire of \<open>lk->lk\<close>, at the \<open>while\<close> test, before the acquire of
  \<open>p->lock\<close>, before the release of \<open>lk\<close>, before the stores to \<open>p->chan\<close> and \<open>p->state\<close>,
  switching, switched out, running again; past the store to \<open>locked\<close>, inside; and in
  \<open>releasesleep\<close> before its acquire, before the store to \<open>locked\<close>, and at slot \<open>k\<close> of the scan
  of \<open>wakeup\<close>, before the acquire of that slot's lock, at its test and before its release. Two
  stores next to each other under the same spin lock (\<open>locked\<close> and \<open>pid\<close>, \<open>chan\<close> and \<open>state\<close>) are
  one step. \<open>releasesleep\<close> is called only by the process inside, as everywhere in the kernel.
\<close>

datatype slpc =
    Out | Acq_want | Acq_test | Slp_plock | Slp_rel | Slp_mark | Slp_switch | Slp_off | Slp_tidy
  | Acq_rel | Inside | Rel_want | Rel_clear | Wake_next nat | Wake_test nat | Wake_unlock nat

record slsys =
  lk_holder :: "nat option"
  lk_locked :: bool
  lk_pid :: "nat option"
  p_lock :: "nat \<Rightarrow> nat option"
  p_state :: "nat \<Rightarrow> procstate"
  p_onchan :: "nat \<Rightarrow> bool"
  slpc :: "nat \<Rightarrow> slpc"

definition goto :: "nat \<Rightarrow> slpc \<Rightarrow> slsys \<Rightarrow> slsys" where
  "goto p c s = s\<lparr>slpc := (slpc s)(p := c)\<rparr>"

inductive sl_step :: "slsys \<Rightarrow> slsys \<Rightarrow> bool" where
  call: "slpc s p = Out \<Longrightarrow> p < NPROC \<Longrightarrow> sl_step s (goto p Acq_want s)"
| acq_lk: "slpc s p = Acq_want \<Longrightarrow> lk_holder s = None \<Longrightarrow>
    sl_step s (goto p Acq_test (s\<lparr>lk_holder := Some p\<rparr>))"
| busy: "slpc s p = Acq_test \<Longrightarrow> lk_locked s \<Longrightarrow> sl_step s (goto p Slp_plock s)"
| take: "slpc s p = Acq_test \<Longrightarrow> \<not> lk_locked s \<Longrightarrow>
    sl_step s (goto p Acq_rel (s\<lparr>lk_locked := True, lk_pid := Some p\<rparr>))"
| acq_done: "slpc s p = Acq_rel \<Longrightarrow> sl_step s (goto p Inside (s\<lparr>lk_holder := None\<rparr>))"
| sleep_plock: "slpc s p = Slp_plock \<Longrightarrow> p_lock s p = None \<Longrightarrow>
    sl_step s (goto p Slp_rel (s\<lparr>p_lock := (p_lock s)(p := Some p)\<rparr>))"
| sleep_rel: "slpc s p = Slp_rel \<Longrightarrow> sl_step s (goto p Slp_mark (s\<lparr>lk_holder := None\<rparr>))"
| sleep_mark: "slpc s p = Slp_mark \<Longrightarrow>
    sl_step s (goto p Slp_switch (s\<lparr>p_onchan := (p_onchan s)(p := True), p_state := (p_state s)(p := SLEEPING)\<rparr>))"
| switched: "slpc s p = Slp_switch \<Longrightarrow> sl_step s (goto p Slp_off (s\<lparr>p_lock := (p_lock s)(p := None)\<rparr>))"
| run: "slpc s p = Slp_off \<Longrightarrow> p_state s p = RUNNABLE \<Longrightarrow> p_lock s p = None \<Longrightarrow>
    sl_step s (goto p Slp_tidy (s\<lparr>p_lock := (p_lock s)(p := Some p), p_state := (p_state s)(p := RUNNING)\<rparr>))"
| tidy: "slpc s p = Slp_tidy \<Longrightarrow>
    sl_step s (goto p Acq_want (s\<lparr>p_onchan := (p_onchan s)(p := False), p_lock := (p_lock s)(p := None)\<rparr>))"
| call_release: "slpc s p = Inside \<Longrightarrow> sl_step s (goto p Rel_want s)"
| rel_lk: "slpc s p = Rel_want \<Longrightarrow> lk_holder s = None \<Longrightarrow>
    sl_step s (goto p Rel_clear (s\<lparr>lk_holder := Some p\<rparr>))"
| clear: "slpc s p = Rel_clear \<Longrightarrow>
    sl_step s (goto p (Wake_next 0) (s\<lparr>lk_locked := False, lk_pid := None\<rparr>))"
| wake_self: "slpc s p = Wake_next k \<Longrightarrow> k < NPROC \<Longrightarrow> k = p \<Longrightarrow> sl_step s (goto p (Wake_next (k + 1)) s)"
| wake_lock: "slpc s p = Wake_next k \<Longrightarrow> k < NPROC \<Longrightarrow> k \<noteq> p \<Longrightarrow> p_lock s k = None \<Longrightarrow>
    sl_step s (goto p (Wake_test k) (s\<lparr>p_lock := (p_lock s)(k := Some p)\<rparr>))"
| wake_test: "slpc s p = Wake_test k \<Longrightarrow>
    sl_step s (goto p (Wake_unlock k) (s\<lparr>p_state := (p_state s)(k :=
      if p_state s k = SLEEPING \<and> p_onchan s k then RUNNABLE else p_state s k)\<rparr>))"
| wake_unlock: "slpc s p = Wake_unlock k \<Longrightarrow>
    sl_step s (goto p (Wake_next (k + 1)) (s\<lparr>p_lock := (p_lock s)(k := None)\<rparr>))"
| rel_done: "slpc s p = Wake_next k \<Longrightarrow> \<not> k < NPROC \<Longrightarrow>
    sl_step s (goto p Out (s\<lparr>lk_holder := None\<rparr>))"
| other_wake: "p_state s p = SLEEPING \<Longrightarrow> p_lock s p = None \<Longrightarrow>
    sl_step s (s\<lparr>p_state := (p_state s)(p := RUNNABLE)\<rparr>)"

definition sl_init :: slsys where
  "sl_init = \<lparr>lk_holder = None, lk_locked = False, lk_pid = None, p_lock = (\<lambda>_. None),
     p_state = (\<lambda>_. RUNNING), p_onchan = (\<lambda>_. False), slpc = (\<lambda>_. Out)\<rparr>"

inductive sl_reachable :: "slsys \<Rightarrow> bool" where
  init: "sl_reachable sl_init"
| step: "sl_reachable s \<Longrightarrow> sl_step s t \<Longrightarrow> sl_reachable t"

fun has_lk :: "slpc \<Rightarrow> bool" where
  "has_lk Acq_test = True" | "has_lk Slp_plock = True" | "has_lk Slp_rel = True"
| "has_lk Acq_rel = True" | "has_lk Rel_clear = True" | "has_lk (Wake_next k) = True"
| "has_lk (Wake_test k) = True" | "has_lk (Wake_unlock k) = True" | "has_lk _ = False"

fun has_plock :: "nat \<Rightarrow> slpc \<Rightarrow> nat \<Rightarrow> bool" where
  "has_plock p Slp_rel k = (k = p)" | "has_plock p Slp_mark k = (k = p)"
| "has_plock p Slp_switch k = (k = p)" | "has_plock p Slp_tidy k = (k = p)"
| "has_plock p (Wake_test j) k = (j = k)" | "has_plock p (Wake_unlock j) k = (j = k)"
| "has_plock p _ k = False"

fun has_sleeplock :: "slpc \<Rightarrow> bool" where
  "has_sleeplock Acq_rel = True" | "has_sleeplock Inside = True"
| "has_sleeplock Rel_want = True" | "has_sleeplock Rel_clear = True" | "has_sleeplock _ = False"

text \<open>The scan of a \<open>wakeup\<close> that has yet to look at slot \<open>q\<close>.\<close>

fun will_wake :: "slpc \<Rightarrow> nat \<Rightarrow> bool" where
  "will_wake (Wake_next k) q = (k \<le> q)" | "will_wake (Wake_test k) q = (k \<le> q)"
| "will_wake (Wake_unlock k) q = (k < q)" | "will_wake _ q = False"

text \<open>\<open>holds_ok h f\<close>: the holder field \<open>h\<close> names exactly the process that \<open>f\<close> says holds.\<close>

definition holds_ok :: "nat option \<Rightarrow> (nat \<Rightarrow> bool) \<Rightarrow> bool" where
  "holds_ok h f \<longleftrightarrow> (\<forall>p. h = Some p \<longleftrightarrow> f p)"

definition pcs_in :: "(nat \<Rightarrow> slpc \<Rightarrow> bool) \<Rightarrow> (nat \<Rightarrow> slpc) \<Rightarrow> nat \<Rightarrow> bool" where
  "pcs_in F f = (\<lambda>p. F p (f p))"

definition spin_ok :: "slsys \<Rightarrow> bool" where
  "spin_ok s \<longleftrightarrow> holds_ok (lk_holder s) (pcs_in (\<lambda>_. has_lk) (slpc s))"

definition plock_ok :: "slsys \<Rightarrow> bool" where
  "plock_ok s \<longleftrightarrow> (\<forall>k. holds_ok (p_lock s k) (pcs_in (\<lambda>p c. has_plock p c k) (slpc s)))"

definition owner_ok :: "slsys \<Rightarrow> bool" where
  "owner_ok s \<longleftrightarrow> (lk_locked s \<longleftrightarrow> lk_pid s \<noteq> None) \<and> holds_ok (lk_pid s) (pcs_in (\<lambda>_. has_sleeplock) (slpc s))"

fun at_state :: "slpc \<Rightarrow> procstate \<Rightarrow> bool \<Rightarrow> bool" where
  "at_state Slp_switch st on = (st = SLEEPING \<and> on)"
| "at_state Slp_off st on = ((st = SLEEPING \<or> st = RUNNABLE) \<and> on)"
| "at_state _ st on = (st = RUNNING)"

definition state_ok :: "slsys \<Rightarrow> bool" where
  "state_ok s \<longleftrightarrow> (\<forall>p. at_state (slpc s p) (p_state s p) (p_onchan s p))"

definition range_ok :: "slsys \<Rightarrow> bool" where
  "range_ok s \<longleftrightarrow> (\<forall>p. (slpc s p \<noteq> Out \<longrightarrow> p < NPROC) \<and>
     (\<forall>k. slpc s p = Wake_test k \<or> slpc s p = Wake_unlock k \<longrightarrow> k \<noteq> p \<and> k < NPROC))"

definition busy_ok :: "slsys \<Rightarrow> bool" where
  "busy_ok s \<longleftrightarrow> (\<forall>p. slpc s p = Slp_plock \<or> slpc s p = Slp_rel \<longrightarrow> lk_locked s)"

definition going_off :: "slsys \<Rightarrow> nat \<Rightarrow> bool" where
  "going_off s q \<longleftrightarrow> slpc s q = Slp_mark \<or> slpc s q = Slp_switch \<or> slpc s q = Slp_off \<and> p_state s q = SLEEPING"

definition wake_ok :: "slsys \<Rightarrow> bool" where
  "wake_ok s \<longleftrightarrow> (\<forall>q. going_off s q \<longrightarrow> lk_locked s \<or> (\<exists>p. will_wake (slpc s p) q))"

definition sl_inv :: "slsys \<Rightarrow> bool" where
  "sl_inv s \<longleftrightarrow> spin_ok s \<and> plock_ok s \<and> owner_ok s \<and> state_ok s \<and> range_ok s \<and> busy_ok s \<and> wake_ok s"

lemma pcs_in_upd [simp]: "pcs_in F (f(p := c)) = (pcs_in F f)(p := F p c)"
  by (auto simp: pcs_in_def)

lemma pcs_in_at: "pcs_in F f p = F p (f p)"
  by (simp add: pcs_in_def)

lemma holds_take: "holds_ok h f \<Longrightarrow> h = None \<Longrightarrow> holds_ok (Some p) (f(p := True))"
  by (auto simp: holds_ok_def)

lemma holds_drop: "holds_ok h f \<Longrightarrow> f p \<Longrightarrow> holds_ok None (f(p := False))"
  unfolding holds_ok_def by (metis fun_upd_apply option.distinct(1) option.inject)

lemma holds_same: "holds_ok h f \<Longrightarrow> f p = b \<Longrightarrow> holds_ok h (f(p := b))"
  by (simp add: fun_upd_idem_iff [THEN iffD2])

lemma holds_unique: "holds_ok h f \<Longrightarrow> f p \<Longrightarrow> f q \<Longrightarrow> p = q"
  unfolding holds_ok_def by (metis option.inject)

lemma holds_SomeD: "holds_ok (Some p) f \<Longrightarrow> f p"
  by (auto simp: holds_ok_def)

lemmas holds_intros = holds_take holds_drop holds_same

lemma spin_ok_step: "sl_step s t \<Longrightarrow> spin_ok s \<Longrightarrow> spin_ok t"
  unfolding spin_ok_def
  by (induction rule: sl_step.induct)
     (simp_all add: goto_def pcs_in_at holds_intros)

lemma owner_ok_step: "sl_step s t \<Longrightarrow> owner_ok s \<Longrightarrow> owner_ok t"
  unfolding owner_ok_def
  by (induction rule: sl_step.induct)
     (auto simp: goto_def pcs_in_at intro: holds_intros)

lemma plock_ok_step: "sl_step s t \<Longrightarrow> range_ok s \<Longrightarrow> plock_ok s \<Longrightarrow> plock_ok t"
  unfolding plock_ok_def
  by (induction rule: sl_step.induct)
     (auto simp: goto_def pcs_in_at intro: holds_intros)

lemma range_ok_step: "sl_step s t \<Longrightarrow> range_ok s \<Longrightarrow> range_ok t"
  unfolding range_ok_def
  by (induction rule: sl_step.induct) (auto simp: goto_def)

lemma lk_unique: "spin_ok s \<Longrightarrow> has_lk (slpc s p) \<Longrightarrow> has_lk (slpc s q) \<Longrightarrow> p = q"
  unfolding spin_ok_def by (drule holds_unique) (auto simp: pcs_in_at)

lemma plock_unique:
  "plock_ok s \<Longrightarrow> has_plock p (slpc s p) k \<Longrightarrow> has_plock q (slpc s q) k \<Longrightarrow> p = q"
  unfolding plock_ok_def by (drule spec [of _ k], drule holds_unique) (auto simp: pcs_in_at)

lemma plock_none: "plock_ok s \<Longrightarrow> p_lock s k = None \<Longrightarrow> \<not> has_plock p (slpc s p) k"
  unfolding plock_ok_def holds_ok_def pcs_in_at by (metis option.distinct(1))

lemma busy_ok_step:
  assumes "sl_step s t" "spin_ok s" "busy_ok s"
  shows "busy_ok t"
  using assms
proof (induction rule: sl_step.induct)
  case (clear s p)
  have "\<not> (slpc s q = Slp_plock \<or> slpc s q = Slp_rel)" if "q \<noteq> p" for q
    using lk_unique [OF clear(2), of p q] clear(1) that by auto
  then show ?case by (auto simp: busy_ok_def goto_def)
qed (auto simp: busy_ok_def goto_def)

lemma at_state_sleeping: "at_state c SLEEPING on \<Longrightarrow> (c = Slp_switch \<or> c = Slp_off) \<and> on"
  by (cases c) simp_all

lemma state_okD:
  "state_ok s \<Longrightarrow> p_state s p = SLEEPING \<Longrightarrow> (slpc s p = Slp_switch \<or> slpc s p = Slp_off) \<and> p_onchan s p"
  unfolding state_ok_def by (metis at_state_sleeping)

lemma state_ok_upd:
  assumes "state_ok s" and "\<And>r. r \<noteq> p \<Longrightarrow> slpc t r = slpc s r \<and> p_state t r = p_state s r \<and> p_onchan t r = p_onchan s r"
    and "at_state (slpc s p) (p_state s p) (p_onchan s p) \<Longrightarrow> at_state (slpc t p) (p_state t p) (p_onchan t p)"
  shows "state_ok t"
  unfolding state_ok_def
proof
  fix r
  show "at_state (slpc t r) (p_state t r) (p_onchan t r)"
    using assms(1) assms(2) [of r] assms(3) by (cases "r = p") (auto simp: state_ok_def)
qed

lemma wake_target:
  "plock_ok s \<Longrightarrow> range_ok s \<Longrightarrow> slpc s p = Wake_test k \<Longrightarrow>
   k \<noteq> p \<and> slpc s k \<noteq> Slp_switch \<and> slpc s k \<noteq> Slp_mark"
  using plock_unique [of s p k k] by (auto simp: range_ok_def)

lemma state_ok_step:
  assumes "sl_step s t" "plock_ok s" "range_ok s" "state_ok s"
  shows "state_ok t"
  using assms
proof (induction rule: sl_step.induct)
  case (wake_test s p k)
  note w = wake_target [OF wake_test(2,3,1)]
  have "state_ok (s\<lparr>p_state := (p_state s)(k :=
      if p_state s k = SLEEPING \<and> p_onchan s k then RUNNABLE else p_state s k)\<rparr>)" (is "state_ok ?u")
    by (rule state_ok_upd [OF wake_test(4), of k]) (use w state_okD [OF wake_test(4), of k] in auto)
  then show ?case
    by (rule state_ok_upd [of _ p]) (use wake_test(1) w in \<open>auto simp: goto_def\<close>)
next
  case (other_wake s p)
  have "slpc s p \<noteq> Slp_switch"
    using plock_none [OF other_wake(3,2), of p] by auto
  with state_okD [OF other_wake(5,1)] have "slpc s p = Slp_off" by simp
  then show ?case by (intro state_ok_upd [OF other_wake(5), of p]) auto
qed (erule_tac p = p in state_ok_upd; simp add: goto_def)+

lemma wake_keep:
  assumes "wake_ok s" and "\<And>r. r \<noteq> p \<Longrightarrow> slpc t r = slpc s r"
    and "\<And>q. going_off t q \<Longrightarrow> going_off s q \<or> lk_locked t" and "lk_locked s \<Longrightarrow> lk_locked t"
    and "\<And>q. going_off t q \<Longrightarrow> will_wake (slpc s p) q \<Longrightarrow> will_wake (slpc t p) q"
  shows "wake_ok t"
  using assms unfolding wake_ok_def by metis

lemma wake_ok_step:
  assumes "sl_step s t" "sl_inv s"
  shows "wake_ok t"
proof -
  have inv: "spin_ok s" "plock_ok s" "state_ok s" "range_ok s" "busy_ok s" "wake_ok s"
    using assms(2) by (auto simp: sl_inv_def)
  from assms(1) inv show ?thesis
  proof (induction rule: sl_step.induct)
    case (sleep_rel s p)
    then have "lk_locked s" by (auto simp: busy_ok_def)
    then show ?case
      by (intro wake_keep [OF sleep_rel(7), of p]) (auto simp: goto_def going_off_def sleep_rel(1))
  next
    case (clear s p)
    then show ?case by (auto simp: wake_ok_def goto_def)
  next
    case (wake_self s p k)
    then show ?case
      by (intro wake_keep [OF wake_self(9), of p]) (auto simp: goto_def going_off_def le_less split: if_splits)
  next
    case (wake_test s p k)
    note w = wake_target [OF wake_test(3,5,1)]
    show ?case
    proof (rule wake_keep [OF wake_test(7), of p])
      fix q
      assume g: "going_off (goto p (Wake_unlock k) (s\<lparr>p_state := (p_state s)(k :=
          if p_state s k = SLEEPING \<and> p_onchan s k then RUNNABLE else p_state s k)\<rparr>)) q"
        and v: "will_wake (slpc s p) q"
      have "q \<noteq> k"
        using g w state_okD [OF wake_test(4), of k] by (auto simp: going_off_def goto_def split: if_splits)
      then show "will_wake (slpc (goto p (Wake_unlock k) (s\<lparr>p_state := (p_state s)(k :=
          if p_state s k = SLEEPING \<and> p_onchan s k then RUNNABLE else p_state s k)\<rparr>)) p) q"
        using v wake_test(1) by (simp add: goto_def)
    qed (auto simp: goto_def going_off_def wake_test(1) split: if_splits)
  next
    case (rel_done s p k)
    show ?case
    proof (rule wake_keep [OF rel_done(8), of p])
      fix q
      assume "going_off (goto p Out (s\<lparr>lk_holder := None\<rparr>)) q" and v: "will_wake (slpc s p) q"
      then have "q < NPROC"
        using rel_done(6) by (auto simp: going_off_def goto_def range_ok_def split: if_splits)
      then show "will_wake (slpc (goto p Out (s\<lparr>lk_holder := None\<rparr>)) p) q"
        using v rel_done(1,2) by simp
    qed (auto simp: goto_def going_off_def split: if_splits)
  next
    case (other_wake s p)
    show ?case
      by (rule wake_keep [OF other_wake(8), of p]) (auto simp: going_off_def split: if_splits)
  qed (erule_tac p = p in wake_keep; auto simp: goto_def going_off_def split: if_splits)+
qed

lemma sl_step_inv:
  assumes "sl_step s t" "sl_inv s"
  shows "sl_inv t"
  using assms wake_ok_step [OF assms] spin_ok_step [OF assms(1)] plock_ok_step [OF assms(1)]
    owner_ok_step [OF assms(1)] state_ok_step [OF assms(1)] range_ok_step [OF assms(1)]
    busy_ok_step [OF assms(1)]
  by (simp add: sl_inv_def)

lemma sl_init_inv: "sl_inv sl_init"
  by (simp add: sl_inv_def sl_init_def spin_ok_def plock_ok_def owner_ok_def state_ok_def range_ok_def
      busy_ok_def wake_ok_def going_off_def holds_ok_def pcs_in_def)

lemma sl_reachable_inv: "sl_reachable s \<Longrightarrow> sl_inv s"
  by (induction rule: sl_reachable.induct) (blast intro: sl_init_inv sl_step_inv)+


section \<open>Properties of sleep locks\<close>

text \<open>
  C5: mutual exclusion of sleep locks: in every state reachable by any interleaving of the
  processes (including wakeups from elsewhere, such as \<open>kill\<close>), at most one process is past
  \<open>acquiresleep\<close> and not yet in \<open>releasesleep\<close>, and the recorded owner is that process.
\<close>

theorem sleeplock_mutual_exclusion:
  assumes "sl_reachable s" and "slpc s p = Inside"
  shows "lk_locked s \<and> lk_pid s = Some p \<and> (\<forall>q. slpc s q = Inside \<longrightarrow> q = p)"
proof -
  have o: "owner_ok s" using sl_reachable_inv [OF assms(1)] by (simp add: sl_inv_def)
  then have own: "\<And>q. slpc s q = Inside \<Longrightarrow> lk_pid s = Some q"
    by (simp add: owner_ok_def holds_ok_def pcs_in_at)
  from own [OF assms(2)] own o show ?thesis by (auto simp: owner_ok_def)
qed

definition sl_inside :: slsys where
  "sl_inside = \<lparr>lk_holder = None, lk_locked = True, lk_pid = Some 3, p_lock = (\<lambda>_. None), p_state = (\<lambda>_. RUNNING), p_onchan = (\<lambda>_. False), slpc = (\<lambda>_. Out)(3 := Inside)\<rparr>"

lemma sl_inside_reachable: "sl_reachable sl_inside"
proof -
  have "sl_reachable (\<lparr>lk_holder = None, lk_locked = False, lk_pid = None, p_lock = (\<lambda>_. None), p_state = (\<lambda>_. RUNNING), p_onchan = (\<lambda>_. False), slpc = (\<lambda>_. Out)(3 := Acq_want)\<rparr>)"
    using sl_reachable.step [OF sl_reachable.init sl_step.call [of sl_init 3]]
    by (simp add: goto_def sl_init_def NPROC_def)
  from sl_reachable.step [OF this sl_step.acq_lk [of _ 3]]
  have "sl_reachable (\<lparr>lk_holder = Some 3, lk_locked = False, lk_pid = None, p_lock = (\<lambda>_. None), p_state = (\<lambda>_. RUNNING), p_onchan = (\<lambda>_. False), slpc = (\<lambda>_. Out)(3 := Acq_test)\<rparr>)"
    by (simp add: goto_def)
  from sl_reachable.step [OF this sl_step.take [of _ 3]]
  have "sl_reachable (\<lparr>lk_holder = Some 3, lk_locked = True, lk_pid = Some 3, p_lock = (\<lambda>_. None), p_state = (\<lambda>_. RUNNING), p_onchan = (\<lambda>_. False), slpc = (\<lambda>_. Out)(3 := Acq_rel)\<rparr>)"
    by (simp add: goto_def)
  from sl_reachable.step [OF this sl_step.acq_done [of _ 3]]
  show ?thesis by (simp add: goto_def sl_inside_def)
qed

theorem sleeplock_mutual_exclusion_witness:
  "sl_reachable sl_inside \<and> slpc sl_inside 3 = Inside \<and> lk_locked sl_inside \<and> lk_pid sl_inside = Some 3"
proof -
  have "slpc sl_inside 3 = Inside" by (simp add: sl_inside_def)
  with sleeplock_mutual_exclusion [OF sl_inside_reachable this] sl_inside_reachable show ?thesis by blast
qed

text \<open>
  C6: no lost wakeup: whenever a process sleeps on a sleep lock, either the lock is still
  held, or a \<open>releasesleep\<close> is scanning the process table, holds \<open>lk->lk\<close>, and has not yet
  passed the sleeper, so it will still make it runnable.
\<close>

theorem sleeplock_no_lost_wakeup:
  assumes "sl_reachable s" and "slpc s q = Slp_off" and "p_state s q = SLEEPING"
  shows "lk_locked s \<or>
    (\<exists>p. lk_holder s = Some p \<and> (\<exists>k \<le> q. slpc s p = Wake_next k \<or> slpc s p = Wake_test k \<or>
                                        k < q \<and> slpc s p = Wake_unlock k))"
proof -
  have inv: "wake_ok s" "spin_ok s" using sl_reachable_inv [OF assms(1)] by (simp_all add: sl_inv_def)
  have "going_off s q" using assms(2,3) by (simp add: going_off_def)
  with inv(1) have "lk_locked s \<or> (\<exists>p. will_wake (slpc s p) q)" by (simp add: wake_ok_def)
  moreover have "lk_holder s = Some p \<and> (\<exists>k \<le> q. slpc s p = Wake_next k \<or> slpc s p = Wake_test k \<or>
      k < q \<and> slpc s p = Wake_unlock k)" if "will_wake (slpc s p) q" for p
    using that inv(2) by (cases "slpc s p") (auto simp: spin_ok_def holds_ok_def pcs_in_at)
  ultimately show ?thesis by blast
qed

definition sl_waiting :: slsys where
  "sl_waiting = \<lparr>lk_holder = None, lk_locked = True, lk_pid = Some 3, p_lock = (\<lambda>_. None), p_state = (\<lambda>_. RUNNING)(5 := SLEEPING), p_onchan = (\<lambda>_. False)(5 := True), slpc = (\<lambda>_. Out)(3 := Inside, 5 := Slp_off)\<rparr>"

lemma sl_waiting_reachable: "sl_reachable sl_waiting"
proof -
  have "sl_reachable (\<lparr>lk_holder = None, lk_locked = True, lk_pid = Some 3, p_lock = (\<lambda>_. None), p_state = (\<lambda>_. RUNNING), p_onchan = (\<lambda>_. False), slpc = (\<lambda>_. Out)(3 := Inside, 5 := Acq_want)\<rparr>)"
    using sl_reachable.step [OF sl_inside_reachable sl_step.call [of sl_inside 5]]
    by (simp add: goto_def sl_inside_def NPROC_def)
  from sl_reachable.step [OF this sl_step.acq_lk [of _ 5]]
  have "sl_reachable (\<lparr>lk_holder = Some 5, lk_locked = True, lk_pid = Some 3, p_lock = (\<lambda>_. None), p_state = (\<lambda>_. RUNNING), p_onchan = (\<lambda>_. False), slpc = (\<lambda>_. Out)(3 := Inside, 5 := Acq_test)\<rparr>)"
    by (simp add: goto_def)
  from sl_reachable.step [OF this sl_step.busy [of _ 5]]
  have "sl_reachable (\<lparr>lk_holder = Some 5, lk_locked = True, lk_pid = Some 3, p_lock = (\<lambda>_. None), p_state = (\<lambda>_. RUNNING), p_onchan = (\<lambda>_. False), slpc = (\<lambda>_. Out)(3 := Inside, 5 := Slp_plock)\<rparr>)"
    by (simp add: goto_def)
  from sl_reachable.step [OF this sl_step.sleep_plock [of _ 5]]
  have "sl_reachable (\<lparr>lk_holder = Some 5, lk_locked = True, lk_pid = Some 3, p_lock = (\<lambda>_. None)(5 := Some 5), p_state = (\<lambda>_. RUNNING), p_onchan = (\<lambda>_. False), slpc = (\<lambda>_. Out)(3 := Inside, 5 := Slp_rel)\<rparr>)"
    by (simp add: goto_def)
  from sl_reachable.step [OF this sl_step.sleep_rel [of _ 5]]
  have "sl_reachable (\<lparr>lk_holder = None, lk_locked = True, lk_pid = Some 3, p_lock = (\<lambda>_. None)(5 := Some 5), p_state = (\<lambda>_. RUNNING), p_onchan = (\<lambda>_. False), slpc = (\<lambda>_. Out)(3 := Inside, 5 := Slp_mark)\<rparr>)"
    by (simp add: goto_def)
  from sl_reachable.step [OF this sl_step.sleep_mark [of _ 5]]
  have "sl_reachable (\<lparr>lk_holder = None, lk_locked = True, lk_pid = Some 3, p_lock = (\<lambda>_. None)(5 := Some 5), p_state = (\<lambda>_. RUNNING)(5 := SLEEPING), p_onchan = (\<lambda>_. False)(5 := True), slpc = (\<lambda>_. Out)(3 := Inside, 5 := Slp_switch)\<rparr>)"
    by (simp add: goto_def)
  from sl_reachable.step [OF this sl_step.switched [of _ 5]]
  show ?thesis by (simp add: goto_def sl_waiting_def fun_upd_idem)
qed

theorem sleeplock_no_lost_wakeup_witness:
  "slpc sl_waiting 5 = Slp_off \<and> p_state sl_waiting 5 = SLEEPING \<and> lk_locked sl_waiting"
proof -
  have a: "slpc sl_waiting 5 = Slp_off" "p_state sl_waiting 5 = SLEEPING" by (simp_all add: sl_waiting_def)
  have "lk_holder sl_waiting = None" by (simp add: sl_waiting_def)
  with sleeplock_no_lost_wakeup [OF sl_waiting_reachable a] a show ?thesis by simp
qed

text \<open>A process can move: it is in the lock's code and some step advances it.\<close>

definition can_move :: "slsys \<Rightarrow> nat \<Rightarrow> bool" where
  "can_move s p \<longleftrightarrow> slpc s p \<noteq> Out \<and> (\<exists>t. sl_step s t \<and> slpc t p \<noteq> slpc s p)"

lemma can_moveI: "slpc s p \<noteq> Out \<Longrightarrow> sl_step s (goto p c u) \<Longrightarrow> c \<noteq> slpc s p \<Longrightarrow> can_move s p"
  unfolding can_move_def by (rule conjI, assumption, rule exI [of _ "goto p c u"]) (simp add: goto_def)

lemma moves:
  "slpc s p = Acq_want \<Longrightarrow> lk_holder s = None \<Longrightarrow> can_move s p"
  "slpc s p = Acq_test \<Longrightarrow> lk_locked s \<Longrightarrow> can_move s p"
  "slpc s p = Acq_test \<Longrightarrow> \<not> lk_locked s \<Longrightarrow> can_move s p"
  "slpc s p = Acq_rel \<Longrightarrow> can_move s p"
  "slpc s p = Slp_plock \<Longrightarrow> p_lock s p = None \<Longrightarrow> can_move s p"
  "slpc s p = Slp_rel \<Longrightarrow> can_move s p"
  "slpc s p = Slp_mark \<Longrightarrow> can_move s p"
  "slpc s p = Slp_switch \<Longrightarrow> can_move s p"
  "slpc s p = Slp_off \<Longrightarrow> p_state s p = RUNNABLE \<Longrightarrow> p_lock s p = None \<Longrightarrow> can_move s p"
  "slpc s p = Slp_tidy \<Longrightarrow> can_move s p"
  "slpc s p = Inside \<Longrightarrow> can_move s p"
  "slpc s p = Rel_want \<Longrightarrow> lk_holder s = None \<Longrightarrow> can_move s p"
  "slpc s p = Rel_clear \<Longrightarrow> can_move s p"
  "slpc s p = Wake_next k \<Longrightarrow> k < NPROC \<Longrightarrow> k = p \<Longrightarrow> can_move s p"
  "slpc s p = Wake_next k \<Longrightarrow> k < NPROC \<Longrightarrow> k \<noteq> p \<Longrightarrow> p_lock s k = None \<Longrightarrow> can_move s p"
  "slpc s p = Wake_test k \<Longrightarrow> can_move s p"
  "slpc s p = Wake_unlock k \<Longrightarrow> can_move s p"
  "slpc s p = Wake_next k \<Longrightarrow> \<not> k < NPROC \<Longrightarrow> can_move s p"
  by (auto intro: can_moveI sl_step.intros)

lemma plock_holder_moves:
  assumes "spin_ok s" "plock_ok s" "p_lock s k = Some r" "\<not> has_lk (slpc s r)"
  shows "can_move s r"
proof -
  have "has_plock r (slpc s r) k"
    using assms(2,3) by (auto simp: plock_ok_def holds_ok_def pcs_in_at)
  then consider "slpc s r = Slp_mark" | "slpc s r = Slp_switch" | "slpc s r = Slp_tidy"
    using assms(4) by (cases "slpc s r") auto
  then show ?thesis
    by cases (simp_all add: moves)
qed

lemma holder_moves:
  assumes inv: "sl_inv s" and "lk_holder s = Some p"
  shows "\<exists>r. can_move s r"
proof -
  have i: "spin_ok s" "plock_ok s" "range_ok s" using inv by (auto simp: sl_inv_def)
  have l: "has_lk (slpc s p)" using i(1) assms(2) by (auto simp: spin_ok_def pcs_in_at dest: holds_SomeD)
  have other: "r = p" if "has_lk (slpc s r)" for r using lk_unique [OF i(1) that l] .
  show ?thesis
  proof (cases "slpc s p")
    case Acq_test
    then show ?thesis
      by (cases "lk_locked s") (blast intro: moves)+
  next
    case Slp_plock
    show ?thesis
    proof (cases "p_lock s p")
      case None
      with Slp_plock show ?thesis by (blast intro: moves)
    next
      case (Some r)
      have "has_plock r (slpc s r) p" using i(2) Some by (auto simp: plock_ok_def holds_ok_def pcs_in_at)
      then have "r \<noteq> p" using Slp_plock by auto
      then have "\<not> has_lk (slpc s r)" using other by blast
      from plock_holder_moves [OF i(1,2) Some this] show ?thesis ..
    qed
  next
    case (Wake_next k)
    consider "\<not> k < NPROC" | "k < NPROC" "k = p" | "k < NPROC" "k \<noteq> p" by blast
    then show ?thesis
    proof cases
      case 3
      show ?thesis
      proof (cases "p_lock s k")
        case None
        with 3 Wake_next show ?thesis by (blast intro: moves)
      next
        case (Some r)
        have "has_plock r (slpc s r) k" using i(2) Some by (auto simp: plock_ok_def holds_ok_def pcs_in_at)
        then have "r \<noteq> p" using Wake_next by auto
        then have "\<not> has_lk (slpc s r)" using other by blast
        from plock_holder_moves [OF i(1,2) Some this] show ?thesis ..
      qed
    qed (use Wake_next in \<open>blast intro: moves\<close>)+
  qed (use l in \<open>auto dest: moves\<close>)
qed

lemma nobody_holds_moves:
  assumes inv: "sl_inv s" and "lk_holder s = None" and "slpc s q \<noteq> Out"
  shows "\<exists>r. can_move s r"
proof -
  have i: "spin_ok s" "plock_ok s" "owner_ok s" "state_ok s" "wake_ok s" using inv by (auto simp: sl_inv_def)
  have n: "\<not> has_lk (slpc s r)" for r
    using i(1) assms(2) by (metis spin_ok_def holds_ok_def pcs_in_at option.distinct(1))
  show ?thesis
  proof (cases "slpc s q")
    case Slp_off
    with i(4) have "p_state s q = SLEEPING \<or> p_state s q = RUNNABLE"
      by (metis state_ok_def at_state.simps(2))
    then show ?thesis
    proof
      assume "p_state s q = SLEEPING"
      with Slp_off i(5) have "lk_locked s \<or> (\<exists>p. will_wake (slpc s p) q)"
        by (auto simp: wake_ok_def going_off_def)
      moreover have "\<not> will_wake (slpc s p) q" for p
        using n [of p] by (cases "slpc s p") auto
      ultimately have "lk_locked s" by blast
      then obtain p where "lk_pid s = Some p" using i(3) by (auto simp: owner_ok_def)
      then have "has_sleeplock (slpc s p)" using i(3) by (auto simp: owner_ok_def pcs_in_at dest: holds_SomeD)
      then have "slpc s p = Inside \<or> slpc s p = Rel_want" using n [of p] by (cases "slpc s p") auto
      then show ?thesis using assms(2) by (blast intro: moves)
    next
      assume r: "p_state s q = RUNNABLE"
      show ?thesis
      proof (cases "p_lock s q")
        case None
        with Slp_off r show ?thesis by (blast intro: moves)
      next
        case (Some x)
        from plock_holder_moves [OF i(1,2) Some n] show ?thesis ..
      qed
    qed
  qed (use assms(2,3) n [of q] in \<open>auto dest: moves\<close>)
qed

text \<open>
  C7: no deadlock on a sleep lock: in every reachable state in which some process is
  anywhere in the lock's code, some such process can take its next step.
\<close>

theorem sleeplock_progress:
  assumes "sl_reachable s" and "slpc s q \<noteq> Out"
  shows "\<exists>p t. slpc s p \<noteq> Out \<and> sl_step s t \<and> slpc t p \<noteq> slpc s p"
  using holder_moves [OF sl_reachable_inv [OF assms(1)]]
    nobody_holds_moves [OF sl_reachable_inv [OF assms(1)] _ assms(2)]
  by (cases "lk_holder s") (auto simp: can_move_def)

theorem sleeplock_progress_witness:
  "slpc sl_waiting 5 = Slp_off \<and> (\<exists>p t. slpc sl_waiting p \<noteq> Out \<and> sl_step sl_waiting t \<and> slpc t p \<noteq> slpc sl_waiting p)"
proof -
  have a: "slpc sl_waiting 5 = Slp_off" by (simp add: sl_waiting_def)
  then have "slpc sl_waiting 5 \<noteq> Out" by simp
  from sleeplock_progress [OF sl_waiting_reachable this] a show ?thesis by blast
qed

end
