(* ===== verification/Kstring.thy ===== *)
theory Kstring
  imports Prelude
begin

text \<open>
  The kernel's \<open>string.c\<close>. A routine that only reads takes its pointer argument as the array
  of bytes from that address on; \<open>memset\<close> and \<open>memmove\<close>, whose regions may overlap, work on
  one memory with addresses. Each \<open>while\<close> loop is a recursive function with the loop's own
  counter. The lemmas state what each routine computes on every byte of memory.
\<close>

section \<open>Memory\<close>

fun memset_loop :: "bytes \<Rightarrow> nat \<Rightarrow> byte \<Rightarrow> nat \<Rightarrow> nat \<Rightarrow> bytes" where
  "memset_loop m dst c i 0 = m"
| "memset_loop m dst c i (Suc k) = memset_loop (m(dst + i := c)) dst c (i + 1) k"

definition memset :: "bytes \<Rightarrow> nat \<Rightarrow> byte \<Rightarrow> nat \<Rightarrow> bytes" where
  "memset m dst c n = memset_loop m dst c 0 n"

fun memcmp :: "bytes \<Rightarrow> nat \<Rightarrow> nat \<Rightarrow> nat \<Rightarrow> int" where
  "memcmp m s1 s2 0 = 0"
| "memcmp m s1 s2 (Suc n) =
     (if m s1 \<noteq> m s2 then int (unat (m s1)) - int (unat (m s2)) else memcmp m (s1 + 1) (s2 + 1) n)"

text \<open>The two loops of \<open>memmove\<close>: \<open>*--d = *--s\<close> from the end, \<open>*d++ = *s++\<close> from the start.\<close>

fun copy_down :: "bytes \<Rightarrow> nat \<Rightarrow> nat \<Rightarrow> nat \<Rightarrow> bytes" where
  "copy_down m d s 0 = m"
| "copy_down m d s (Suc n) = copy_down (m(d - 1 := m (s - 1))) (d - 1) (s - 1) n"

fun copy_up :: "bytes \<Rightarrow> nat \<Rightarrow> nat \<Rightarrow> nat \<Rightarrow> bytes" where
  "copy_up m d s 0 = m"
| "copy_up m d s (Suc n) = copy_up (m(d := m s)) (d + 1) (s + 1) n"

definition memmove :: "bytes \<Rightarrow> nat \<Rightarrow> nat \<Rightarrow> nat \<Rightarrow> bytes" where
  "memmove m dst src n =
     (if n = 0 then m
      else if src < dst \<and> src + n > dst then copy_down m (dst + n) (src + n) n
      else copy_up m dst src n)"

definition memcpy :: "bytes \<Rightarrow> nat \<Rightarrow> nat \<Rightarrow> nat \<Rightarrow> bytes" where
  "memcpy m dst src n = memmove m dst src n"

section \<open>Strings\<close>

fun strncmp_loop :: "bytes \<Rightarrow> bytes \<Rightarrow> nat \<Rightarrow> nat \<Rightarrow> int" where
  "strncmp_loop p q i 0 = 0"
| "strncmp_loop p q i (Suc n) =
     (if p i \<noteq> 0 \<and> p i = q i then strncmp_loop p q (i + 1) n
      else int (unat (p i)) - int (unat (q i)))"

definition strncmp :: "bytes \<Rightarrow> bytes \<Rightarrow> nat \<Rightarrow> int" where
  "strncmp p q n = strncmp_loop p q 0 n"

fun strncpy_pad :: "bytes \<Rightarrow> nat \<Rightarrow> nat \<Rightarrow> bytes" where
  "strncpy_pad s i 0 = s"
| "strncpy_pad s i (Suc n) = strncpy_pad (s(i := 0)) (i + 1) n"

fun strncpy_loop :: "bytes \<Rightarrow> bytes \<Rightarrow> nat \<Rightarrow> nat \<Rightarrow> bytes" where
  "strncpy_loop s t i 0 = s"
| "strncpy_loop s t i (Suc n) =
     (if t i \<noteq> 0 then strncpy_loop (s(i := t i)) t (i + 1) n
      else strncpy_pad (s(i := t i)) (i + 1) n)"

text \<open>The count of \<open>strncpy\<close> and \<open>safestrcpy\<close> is an \<open>int\<close>; a negative one acts as zero.\<close>

definition strncpy :: "bytes \<Rightarrow> bytes \<Rightarrow> int \<Rightarrow> bytes" where
  "strncpy s t n = strncpy_loop s t 0 (nat n)"

fun safestrcpy_loop :: "bytes \<Rightarrow> bytes \<Rightarrow> nat \<Rightarrow> nat \<Rightarrow> bytes" where
  "safestrcpy_loop s t i 0 = s(i := 0)"
| "safestrcpy_loop s t i (Suc n) =
     (if t i \<noteq> 0 then safestrcpy_loop (s(i := t i)) t (i + 1) n
      else (s(i := t i))(i + 1 := 0))"

definition safestrcpy :: "bytes \<Rightarrow> bytes \<Rightarrow> int \<Rightarrow> bytes" where
  "safestrcpy s t n = (if n \<le> 0 then s else safestrcpy_loop s t 0 (nat (n - 1)))"

text \<open>
  \<open>strlen\<close> counts in an \<open>int\<close> and runs on past the array when there is no NUL. \<open>None\<close>: the loop reaches an
  increment of the counter beyond \<open>2 ^ 31 - 1\<close>, which C leaves undefined.
\<close>

function strlen_loop :: "bytes \<Rightarrow> int \<Rightarrow> int option" where
  "strlen_loop s n =
     (if s (nat n) \<noteq> 0 then if n \<ge> 2 ^ 31 - 1 then None else strlen_loop s (n + 1)
      else Some n)"
  by auto
termination
  by (relation "measure (\<lambda>(s, n). nat (2 ^ 31 - n))") auto

declare strlen_loop.simps [simp del]

definition strlen :: "bytes \<Rightarrow> int option" where
  "strlen s = strlen_loop s 0"

section \<open>What they compute\<close>

lemma memset_loop_run:
  "memset_loop m dst c i k = (\<lambda>a. if dst + i \<le> a \<and> a < dst + i + k then c else m a)"
  by (induction k arbitrary: m i) (auto simp: fun_eq_iff)

lemma memset_run: "memset m dst c n = (\<lambda>a. if dst \<le> a \<and> a < dst + n then c else m a)"
  by (simp add: memset_def memset_loop_run)

lemma memset_in [simp]: "dst \<le> a \<Longrightarrow> a < dst + n \<Longrightarrow> memset m dst c n a = c"
  by (simp add: memset_run)

lemma memset_out [simp]: "\<not> (dst \<le> a \<and> a < dst + n) \<Longrightarrow> memset m dst c n a = m a"
  by (auto simp: memset_run)

lemma copy_up_run:
  "d \<le> s \<or> s + n \<le> d \<Longrightarrow>
   copy_up m d s n = (\<lambda>a. if d \<le> a \<and> a < d + n then m (s + (a - d)) else m a)"
proof (induction n arbitrary: m d s)
  case 0
  show ?case by (auto simp: fun_eq_iff)
next
  case (Suc n)
  have "copy_up (m(d := m s)) (d + 1) (s + 1) n =
      (\<lambda>a. if d + 1 \<le> a \<and> a < d + 1 + n then (m(d := m s)) (s + 1 + (a - (d + 1))) else (m(d := m s)) a)"
    using Suc.prems by (intro Suc.IH) auto
  also have "\<dots> = (\<lambda>a. if d \<le> a \<and> a < d + Suc n then m (s + (a - d)) else m a)"
  proof (rule ext)
    fix a
    consider "a < d" | "a = d" | "d < a" "a < d + Suc n" | "d + Suc n \<le> a" by linarith
    then show "(if d + 1 \<le> a \<and> a < d + 1 + n then (m(d := m s)) (s + 1 + (a - (d + 1))) else (m(d := m s)) a)
        = (if d \<le> a \<and> a < d + Suc n then m (s + (a - d)) else m a)"
    proof cases
      case 3
      then have "s + 1 + (a - (d + 1)) = s + (a - d)" "s + (a - d) \<noteq> d" using Suc.prems by auto
      with 3 show ?thesis by simp
    qed auto
  qed
  finally show ?case by simp
qed

lemma copy_down_run:
  "s + n \<le> s' \<Longrightarrow> s' = s + n \<Longrightarrow> d' = d + n \<Longrightarrow> s < d \<Longrightarrow>
   copy_down m d' s' n = (\<lambda>a. if d \<le> a \<and> a < d + n then m (s + (a - d)) else m a)"
proof (induction n arbitrary: m d' s')
  case 0
  then show ?case by (auto simp: fun_eq_iff)
next
  case (Suc n)
  have e: "d' - 1 = d + n" "s' - 1 = s + n" using Suc.prems by auto
  have "copy_down (m(d' - 1 := m (s' - 1))) (d' - 1) (s' - 1) n =
      (\<lambda>a. if d \<le> a \<and> a < d + n then (m(d' - 1 := m (s' - 1))) (s + (a - d)) else (m(d' - 1 := m (s' - 1))) a)"
    using Suc.prems by (intro Suc.IH) simp_all
  also have "\<dots> = (\<lambda>a. if d \<le> a \<and> a < d + Suc n then m (s + (a - d)) else m a)"
    using Suc.prems(4) unfolding e by (auto simp: fun_eq_iff less_Suc_eq)
  finally show ?case by simp
qed

lemma memmove_run:
  "memmove m dst src n = (\<lambda>a. if dst \<le> a \<and> a < dst + n then m (src + (a - dst)) else m a)"
proof (cases "n \<noteq> 0 \<and> src < dst \<and> src + n > dst")
  case True
  then show ?thesis by (simp add: memmove_def copy_down_run [of src n _ _ dst])
next
  case False
  then show ?thesis
    by (cases "n = 0") (auto simp: memmove_def copy_up_run fun_eq_iff)
qed

lemma memcmp_zero: "memcmp m s1 s2 n = 0 \<longleftrightarrow> (\<forall>i < n. m (s1 + i) = m (s2 + i))"
proof (induction m s1 s2 n rule: memcmp.induct)
  case (1 m s1 s2)
  show ?case by simp
next
  case (2 m s1 s2 n)
  have "(\<forall>i < Suc n. m (s1 + i) = m (s2 + i)) \<longleftrightarrow> m s1 = m s2 \<and> (\<forall>i < n. m (s1 + 1 + i) = m (s2 + 1 + i))"
    by (auto simp: All_less_Suc2)
  with 2 show ?case by (simp add: byte_uint_eq uint_0_iff)
qed

text \<open>The C string in the first \<open>n\<close> bytes of an array: up to the first NUL, all of them if none.\<close>

definition cstr :: "bytes \<Rightarrow> nat \<Rightarrow> byte list" where
  "cstr p n = takeWhile (\<lambda>b. b \<noteq> 0) (map p [0..<n])"

definition cstr_from :: "bytes \<Rightarrow> nat \<Rightarrow> nat \<Rightarrow> byte list" where
  "cstr_from p i n = takeWhile (\<lambda>b. b \<noteq> 0) (map p [i..<i + n])"

lemma cstr_from_0: "cstr_from p i 0 = []"
  by (simp add: cstr_from_def)

lemma cstr_from_Suc: "cstr_from p i (Suc n) = (if p i = 0 then [] else p i # cstr_from p (i + 1) n)"
proof -
  have "[i..<i + Suc n] = i # [i + 1..<i + 1 + n]"
    by (simp add: upt_rec)
  then show ?thesis
    unfolding cstr_from_def by simp
qed

lemma cstr_cstr_from: "cstr p n = cstr_from p 0 n"
  by (simp add: cstr_def cstr_from_def)

lemma strncmp_loop_zero: "strncmp_loop p q i n = 0 \<longleftrightarrow> cstr_from p i n = cstr_from q i n"
proof (induction p q i n rule: strncmp_loop.induct)
  case (1 p q i)
  show ?case by (simp add: cstr_from_0)
next
  case (2 p q i n)
  show ?case
  proof (cases "p i \<noteq> 0 \<and> p i = q i")
    case True
    with 2 show ?thesis by (simp add: cstr_from_Suc)
  next
    case False
    then show ?thesis by (auto simp: cstr_from_Suc byte_uint_eq uint_0_iff)
  qed
qed

lemma strncmp_zero: "strncmp p q n = 0 \<longleftrightarrow> cstr p n = cstr q n"
  by (simp add: strncmp_def strncmp_loop_zero cstr_cstr_from)

lemma strncpy_pad_run: "strncpy_pad s i n = (\<lambda>a. if i \<le> a \<and> a < i + n then 0 else s a)"
  by (induction n arbitrary: s i) (auto simp: fun_eq_iff)

lemma strncpy_loop_outside: "a < i \<or> i + n \<le> a \<Longrightarrow> strncpy_loop s t i n a = s a"
  by (induction s t i n rule: strncpy_loop.induct) (auto simp: strncpy_pad_run)

lemma strncpy_loop_same: "(\<forall>j. i \<le> j \<and> j \<le> a \<longrightarrow> t j \<noteq> 0) \<Longrightarrow> i \<le> a \<Longrightarrow> a < i + n \<Longrightarrow> strncpy_loop s t i n a = t a"
proof (induction n arbitrary: s i)
  case (Suc n)
  then show ?case
    by (cases "a = i") (auto simp: strncpy_loop_outside)
qed simp

lemma strncpy_loop_cstr: "cstr_from (strncpy_loop s t i n) i n = cstr_from t i n"
proof (induction n arbitrary: s i)
  case 0
  show ?case by (simp add: cstr_from_0)
next
  case (Suc n)
  show ?case
  proof (cases "t i = 0")
    case True
    then show ?thesis by (simp add: cstr_from_Suc strncpy_pad_run)
  next
    case False
    moreover have "strncpy_loop (s(i := t i)) t (i + 1) n i = t i"
      by (simp add: strncpy_loop_outside)
    moreover have "cstr_from (strncpy_loop (s(i := t i)) t (i + 1) n) (i + 1) n = cstr_from t (i + 1) n"
      by (rule Suc.IH)
    ultimately show ?thesis by (simp add: cstr_from_Suc)
  qed
qed

lemma strncpy_cstr: "cstr (strncpy s t (int n)) n = cstr t n"
  by (simp add: strncpy_def cstr_cstr_from strncpy_loop_cstr)

lemma strncpy_outside: "n \<le> a \<Longrightarrow> strncpy s t (int n) a = s a"
  by (simp add: strncpy_def strncpy_loop_outside)

lemma safestrcpy_loop_outside: "a < i \<or> i + n < a \<Longrightarrow> safestrcpy_loop s t i n a = s a"
  by (induction n arbitrary: s i) auto

lemma safestrcpy_loop_cstr: "cstr_from (safestrcpy_loop s t i n) i (Suc n) = cstr_from t i n"
proof (induction n arbitrary: s i)
  case 0
  show ?case by (simp add: cstr_from_0 cstr_from_Suc)
next
  case (Suc n)
  show ?case
  proof (cases "t i = 0")
    case True
    then show ?thesis by (simp add: cstr_from_Suc [of _ _ "Suc n"] cstr_from_Suc [of _ _ n])
  next
    case False
    moreover have "safestrcpy_loop (s(i := t i)) t (i + 1) n i = t i"
      by (simp add: safestrcpy_loop_outside)
    moreover have "cstr_from (safestrcpy_loop (s(i := t i)) t (i + 1) n) (i + 1) (Suc n) = cstr_from t (i + 1) n"
      by (rule Suc.IH)
    ultimately show ?thesis by (simp add: cstr_from_Suc [of _ _ "Suc n"] cstr_from_Suc [of t _ n])
  qed
qed

lemma strlen_loop_run:
  "s (n + k) = 0 \<Longrightarrow> (\<forall>i < k. s (n + i) \<noteq> 0) \<Longrightarrow> n + k < 2 ^ 31 \<Longrightarrow> strlen_loop s (int n) = Some (int (n + k))"
proof (induction k arbitrary: n)
  case 0
  then show ?case by (simp add: strlen_loop.simps)
next
  case (Suc k)
  have "strlen_loop s (int (n + 1)) = Some (int (n + 1 + k))"
    using Suc.prems by (intro Suc.IH) (auto simp: All_less_Suc2)
  then have "strlen_loop s (int n + 1) = Some (int (n + Suc k))" by (simp add: ac_simps)
  moreover have "s n \<noteq> 0" using Suc.prems(2) by force
  ultimately show ?case using Suc.prems(3) by (subst strlen_loop.simps) simp
qed

lemma strlen_loop_overflow:
  "n + k = 2 ^ 31 - 1 \<Longrightarrow> (\<forall>i \<le> k. s (n + i) \<noteq> 0) \<Longrightarrow> strlen_loop s (int n) = None"
proof (induction k arbitrary: n)
  case 0
  then have "s (2 ^ 31 - 1) \<noteq> 0" and n: "int n = 2 ^ 31 - 1" by auto
  then have "s (nat (2 ^ 31 - 1)) \<noteq> 0" by simp
  then show ?case unfolding n by (subst strlen_loop.simps) simp
next
  case (Suc k)
  have "s (n + 1 + i) \<noteq> 0" if "i \<le> k" for i using Suc.prems(2) that by (metis Suc_le_mono add_Suc_right add_Suc_shift Suc_eq_plus1 add.commute)
  then have "strlen_loop s (int (n + 1)) = None" using Suc.prems(1) by (intro Suc.IH) simp_all
  moreover have "s n \<noteq> 0" using Suc.prems(2) by force
  moreover have "\<not> int n \<ge> 2 ^ 31 - 1" using Suc.prems(1) by simp
  ultimately show ?case by (subst strlen_loop.simps) (simp add: ac_simps)
qed

section \<open>Properties\<close>

text \<open>
  C21: \<open>memmove\<close> copies correctly whether or not the regions overlap: afterwards byte \<open>i\<close> of the
  destination is what byte \<open>i\<close> of the source was before the call, and every byte outside the
  destination is unchanged. (Its two loops each work for one direction of overlap only.)
\<close>

theorem memmove_correct:
  "(\<forall>i < n. memmove m dst src n (dst + i) = m (src + i)) \<and>
   (\<forall>a. a < dst \<or> dst + n \<le> a \<longrightarrow> memmove m dst src n a = m a)"
  by (auto simp: memmove_run)

theorem memmove_correct_witness:
  "memmove (\<lambda>a. word_of_nat a) 3 1 4 5 = (3 :: byte) \<and> memmove (\<lambda>a. word_of_nat a) 3 1 4 9 = (9 :: byte)"
proof
  show "memmove (\<lambda>a. word_of_nat a) 3 1 4 5 = (3 :: byte)"
    using memmove_correct [THEN conjunct1, rule_format, of 2 4 "\<lambda>a. word_of_nat a" 3 1] by simp
  show "memmove (\<lambda>a. word_of_nat a) 3 1 4 9 = (9 :: byte)"
    using memmove_correct [THEN conjunct2, rule_format, of 9 3 4 "\<lambda>a. word_of_nat a" 1] by simp
qed

text \<open>
  C22: names in directory entries. \<open>strncpy(d, t, n)\<close> writes exactly the first \<open>n\<close> bytes, and then
  \<open>strncmp(d, t, n)\<close> is 0; \<open>strncmp(p, q, n)\<close> is 0 exactly when the C strings in the first \<open>n\<close>
  bytes are equal, terminated or not; \<open>safestrcpy(d, t, n)\<close> leaves a terminated string, the
  longest prefix of \<open>t\<close> that fits with its NUL, inside the \<open>n\<close> bytes.
\<close>

theorem string_functions_agree:
  "(strncmp p q n = 0 \<longleftrightarrow> cstr p n = cstr q n) \<and>
   strncmp (strncpy d t (int n)) t n = 0 \<and>
   (\<forall>a. n \<le> a \<longrightarrow> strncpy d t (int n) a = d a) \<and>
   cstr (safestrcpy d t (int (Suc k))) (Suc k) = cstr t k \<and> length (cstr t k) \<le> k \<and>
   (\<forall>a. Suc k \<le> a \<longrightarrow> safestrcpy d t (int (Suc k)) a = d a)"
proof (intro conjI)
  show "cstr (safestrcpy d t (int (Suc k))) (Suc k) = cstr t k"
    using safestrcpy_loop_cstr [of d t 0 k] by (simp add: safestrcpy_def cstr_cstr_from)
  show "length (cstr t k) \<le> k"
    using length_takeWhile_le [of "\<lambda>b. b \<noteq> 0" "map t [0..<k]"] by (simp add: cstr_def)
  show "\<forall>a. Suc k \<le> a \<longrightarrow> safestrcpy d t (int (Suc k)) a = d a"
    by (simp add: safestrcpy_def safestrcpy_loop_outside)
qed (simp_all add: strncmp_zero strncpy_cstr strncpy_outside)

theorem string_functions_agree_witness:
  "strncpy (\<lambda>_. 7) ((\<lambda>_. 0)(0 := 65)) (int 3) 5 = 7 \<and> strncmp (strncpy (\<lambda>_. 7) ((\<lambda>_. 0)(0 := 65)) (int 3)) ((\<lambda>_. 0)(0 := 65)) 3 = 0"
proof -
  note f = string_functions_agree [of "\<lambda>_. 0" "\<lambda>_. 0" 3 "\<lambda>_. 7" "(\<lambda>_. 0)(0 := 65)" 2]
  have "(3 :: nat) \<le> 5" by simp
  with f show ?thesis by blast
qed

text \<open>
  C23: \<open>strlen\<close> returns the index of the first NUL when there is one among the first \<open>2 ^ 31\<close> bytes, the indices an \<open>int\<close> can
  count, and otherwise its counter overflows.
\<close>

theorem strlen_correct:
  "strlen s = (if \<exists>k < 2 ^ 31. s k = 0 then Some (int (LEAST k. s k = 0)) else None)"
proof (cases "\<exists>k < 2 ^ 31. s k = 0")
  case True
  then obtain k where k: "k < 2 ^ 31" "s k = 0" by blast
  let ?k = "LEAST k. s k = 0"
  have "s ?k = 0" using k(2) by (rule LeastI)
  moreover have "?k \<le> k" using k(2) by (rule Least_le)
  moreover have "\<forall>i < ?k. s i \<noteq> 0" using not_less_Least by blast
  ultimately have "strlen_loop s (int 0) = Some (int (0 + ?k))"
    unfolding add_0 using k(1) by (intro strlen_loop_run [of s 0 ?k, unfolded add_0]) (assumption, assumption, linarith)
  then show ?thesis unfolding if_P [OF True] strlen_def by simp
next
  case False
  have "s (0 + i) \<noteq> 0" if "i \<le> 2 ^ 31 - 1" for i
  proof -
    have "i < 2 ^ 31" using that by simp
    with False show ?thesis unfolding add_0 by blast
  qed
  then have "strlen_loop s (int 0) = None" by (intro strlen_loop_overflow [of 0 "2 ^ 31 - 1" s]) (simp, blast)
  then show ?thesis unfolding if_not_P [OF False] strlen_def by simp
qed

theorem strlen_correct_witness: "strlen ((\<lambda>_. 0)(0 := 65, 1 := 66)) = Some 2"
proof -
  define s :: bytes where "s = (\<lambda>_. 0)(0 := 65, 1 := 66)"
  have z: "s k = 0 \<longleftrightarrow> 2 \<le> k" for k by (auto simp: s_def)
  have l: "(LEAST k. s k = 0) = 2" unfolding z by (rule Least_equality) auto
  have "s 2 = 0" "(2 :: nat) < 2 ^ 31" by (simp_all add: z)
  then have e: "\<exists>k < 2 ^ 31. s k = 0" by blast
  have "strlen s = Some (int 2)" unfolding strlen_correct [of s] if_P [OF e] l ..
  then show ?thesis by (simp add: s_def)
qed

end
