(* ===== verification/Kalloc.thy ===== *)
theory Kalloc
  imports Kstring Sleeplock
begin

text \<open>
  The physical page allocator (\<open>kalloc.c\<close>): a free list threaded through the free pages
  themselves. The list is read off the memory; the invariant says it is finite, has no
  repetition and contains only whole pages between the end of the kernel and \<open>PHYSTOP\<close>.
  The allocator contract is a locale, for all the kernel's allocators.
\<close>

section \<open>Allocators\<close>

text \<open>
  What an allocator of things of type \<open>'a\<close> promises, in terms of the set of available ones.
  Clients never see how the set is represented.
\<close>

locale allocator =
  fixes alloc :: "('a option, 's) kern"
    and free :: "'a \<Rightarrow> (unit, 's) kern"
    and avail :: "'s \<Rightarrow> 'a set"
    and ok :: "'s \<Rightarrow> bool"
    and valid :: "'s \<Rightarrow> 'a \<Rightarrow> bool"
  assumes alloc_none: "ok s \<Longrightarrow> avail s = {} \<Longrightarrow> \<exists>t. alloc s = Ok None t \<and> ok t \<and> avail t = {}"
    and alloc_some: "ok s \<Longrightarrow> avail s \<noteq> {} \<Longrightarrow>
      \<exists>a t. alloc s = Ok (Some a) t \<and> ok t \<and> a \<in> avail s \<and> avail t = avail s - {a} \<and> valid t a"
    and free_adds: "ok s \<Longrightarrow> valid s a \<Longrightarrow> a \<notin> avail s \<Longrightarrow>
      \<exists>t. free a s = Ok () t \<and> ok t \<and> avail t = insert a (avail s)"
    and avail_finite: "ok s \<Longrightarrow> finite (avail s)"
begin

lemma alloc_returns:
  assumes "ok s"
  shows "\<exists>r t. alloc s = Ok r t \<and> ok t \<and> (r = None \<longleftrightarrow> avail s = {})"
  using alloc_none [OF assms] alloc_some [OF assms] by (cases "avail s = {}") auto

lemma alloc_cases:
  assumes "ok s" and "alloc s = Ok r t"
  shows "(r = None \<and> avail s = {} \<and> avail t = {} \<or>
          (\<exists>a. r = Some a \<and> a \<in> avail s \<and> avail t = avail s - {a} \<and> valid t a)) \<and> ok t"
  using alloc_none [OF assms(1)] alloc_some [OF assms(1)] assms(2)
  by (cases "avail s = {}") auto

lemma alloc_free_roundtrip:
  assumes "ok s" and "alloc s = Ok (Some a) t"
  shows "\<exists>u. free a t = Ok () u \<and> ok u \<and> avail u = avail s"
proof -
  from alloc_cases [OF assms] have t: "a \<in> avail s" "avail t = avail s - {a}" "valid t a" "ok t" by auto
  then have "a \<notin> avail t" by simp
  from free_adds [OF t(4,3) this] t(1,2) show ?thesis by (auto simp: insert_absorb)
qed

fun alloc_n :: "nat \<Rightarrow> ('a option list, 's) kern" where
  "alloc_n 0 = ret []"
| "alloc_n (Suc n) = bind alloc (\<lambda>a. bind (alloc_n n) (\<lambda>as. ret (a # as)))"

text \<open>
  A run of allocations hands out different things, all of them available before, and fails
  only when nothing is left: exactly as many succeed as were available.
\<close>

lemma alloc_n_distinct:
  assumes "ok s"
  shows "\<exists>as t. alloc_n n s = Ok (map Some as @ replicate (n - card (avail s)) None) t \<and> ok t \<and>
    distinct as \<and> set as \<subseteq> avail s \<and> avail t = avail s - set as \<and> length as = min n (card (avail s))"
  using assms
proof (induction n arbitrary: s)
  case 0
  then show ?case by (auto simp: exec_simps)
next
  case (Suc n)
  show ?case
  proof (cases "avail s = {}")
    case True
    from alloc_none [OF Suc.prems True] obtain t where t: "alloc s = Ok None t" "ok t" "avail t = {}"
      by blast
    from Suc.IH [OF t(2)] t(3) obtain u where "alloc_n n t = Ok (replicate n None) u" "ok u" "avail u = {}"
      by auto
    with t True show ?thesis by (intro exI [of _ "[]"]) (auto simp: exec_simps)
  next
    case False
    from alloc_some [OF Suc.prems False] obtain a t where
      t: "alloc s = Ok (Some a) t" "ok t" "a \<in> avail s" "avail t = avail s - {a}" by blast
    from Suc.IH [OF t(2)] obtain as u where
      u: "alloc_n n t = Ok (map Some as @ replicate (n - card (avail t)) None) u" "ok u" "distinct as"
        "set as \<subseteq> avail t" "avail u = avail t - set as" "length as = min n (card (avail t))" by blast
    have c: "card (avail s) = Suc (card (avail t))"
      using card_Suc_Diff1 [OF avail_finite [OF Suc.prems] t(3)] t(4) by simp
    have "alloc_n (Suc n) s = Ok (map Some (a # as) @ replicate (Suc n - card (avail s)) None) u"
      using t(1) u(1) c by (simp add: exec_simps)
    moreover have "distinct (a # as)" "set (a # as) \<subseteq> avail s" "avail u = avail s - set (a # as)"
      using t(3,4) u(3-5) by auto
    moreover have "length (a # as) = min (Suc n) (card (avail s))" using u(6) c by simp
    ultimately show ?thesis using u(2) by blast
  qed
qed

end

section \<open>The free list in memory\<close>

definition PGSIZE :: nat where "PGSIZE = 4096"
definition KERNBASE :: nat where "KERNBASE = 0x80000000"
definition PHYSTOP :: nat where "PHYSTOP = KERNBASE + 128 * 1024 * 1024"

definition PGROUNDUP :: "nat \<Rightarrow> nat" where
  "PGROUNDUP n = (n + PGSIZE - 1) div PGSIZE * PGSIZE"

definition PGROUNDDOWN :: "nat \<Rightarrow> nat" where
  "PGROUNDDOWN n = n div PGSIZE * PGSIZE"

text \<open>Addresses fixed by the linker: the end of the kernel image, the end of its text, the
  physical page of the trampoline code, and the address of \<open>forkret\<close>.\<close>

record layout =
  kend :: nat
  etext :: nat
  trampoline :: nat
  forkret_va :: u64

record mem_st = sleep_st +
  mem :: bytes
  freelist :: nat
  lay :: layout

definition store_mem :: "(bytes \<Rightarrow> bytes) \<Rightarrow> (unit, 'z mem_st_scheme) kern" where
  "store_mem f = upd (\<lambda>s. s\<lparr>mem := f (mem s)\<rparr>)"

text \<open>\<open>struct run\<close> is one pointer, the first eight bytes of a free page.\<close>

definition run_next :: "bytes \<Rightarrow> nat \<Rightarrow> nat" where
  "run_next m r = le_get m r 8"

definition page_ok :: "layout \<Rightarrow> nat \<Rightarrow> bool" where
  "page_ok L pa \<longleftrightarrow> \<not> (pa mod PGSIZE \<noteq> 0 \<or> pa < kend L \<or> pa \<ge> PHYSTOP)"

definition kfree :: "nat \<Rightarrow> (unit, 'z mem_st_scheme) kern" where
  "kfree pa =
     bind (gets lay) (\<lambda>L.
     if pa mod PGSIZE \<noteq> 0 \<or> pa < kend L \<or> pa \<ge> PHYSTOP then panic ''kfree'' else
     andthen (store_mem (\<lambda>m. memset m pa 1 PGSIZE)) (
     andthen (k_acquire Kmem_lock) (
     bind (gets freelist) (\<lambda>fl.
     andthen (store_mem (\<lambda>m. le_put m pa 8 fl)) (
     andthen (upd (\<lambda>s. s\<lparr>freelist := pa\<rparr>)) (
     k_release Kmem_lock))))))"

definition kalloc :: "(nat, 'z mem_st_scheme) kern" where
  "kalloc =
     andthen (k_acquire Kmem_lock) (
     bind (gets freelist) (\<lambda>r.
     andthen (if r \<noteq> 0 then upd (\<lambda>s. s\<lparr>freelist := run_next (mem s) r\<rparr>) else ret ()) (
     andthen (k_release Kmem_lock) (
     andthen (if r \<noteq> 0 then store_mem (\<lambda>m. memset m r 5 PGSIZE) else ret ()) (
     ret r)))))"

function freerange_loop :: "nat \<Rightarrow> nat \<Rightarrow> (unit, 'z mem_st_scheme) kern" where
  "freerange_loop p pa_end =
     (if p + PGSIZE \<le> pa_end then andthen (kfree p) (freerange_loop (p + PGSIZE) pa_end) else ret ())"
  by auto
termination
  by (relation "measure (\<lambda>(p, e). e - p)") (auto simp: PGSIZE_def)

declare freerange_loop.simps [simp del]

definition freerange :: "nat \<Rightarrow> nat \<Rightarrow> (unit, 'z mem_st_scheme) kern" where
  "freerange pa_start pa_end = freerange_loop (PGROUNDUP pa_start) pa_end"

definition kinit :: "(unit, 'z mem_st_scheme) kern" where
  "kinit = bind (gets (\<lambda>s. kend (lay s))) (\<lambda>e. freerange e PHYSTOP)"

text \<open>\<open>chain m p xs\<close>: following \<open>next\<close> pointers from \<open>p\<close> visits exactly the pages \<open>xs\<close>.\<close>

fun chain :: "bytes \<Rightarrow> nat \<Rightarrow> nat list \<Rightarrow> bool" where
  "chain m p [] = (p = 0)"
| "chain m p (x # xs) = (p = x \<and> x \<noteq> 0 \<and> chain m (run_next m x) xs)"

definition free_is :: "'z mem_st_scheme \<Rightarrow> nat list \<Rightarrow> bool" where
  "free_is s xs \<longleftrightarrow> chain (mem s) (freelist s) xs \<and> distinct xs \<and> (\<forall>x \<in> set xs. page_ok (lay s) x)"

definition lay_ok :: "layout \<Rightarrow> bool" where
  "lay_ok L \<longleftrightarrow> KERNBASE < kend L \<and> kend L \<le> PHYSTOP"

definition kmem_ok :: "'z mem_st_scheme \<Rightarrow> bool" where
  "kmem_ok s \<longleftrightarrow> (\<exists>xs. free_is s xs) \<and> lay_ok (lay s) \<and> \<not> held s Kmem_lock"

definition free_pages :: "'z mem_st_scheme \<Rightarrow> nat set" where
  "free_pages s = {x. \<exists>xs. free_is s xs \<and> x \<in> set xs}"

section \<open>The operations keep the free list\<close>

lemma chain_unique: "chain m p xs \<Longrightarrow> chain m p ys \<Longrightarrow> xs = ys"
proof (induction xs arbitrary: p ys)
  case Nil
  then show ?case by (cases ys) auto
next
  case (Cons x xs)
  then show ?case by (cases ys) auto
qed

lemma chain_cong:
  "(\<And>x i. x \<in> set xs \<Longrightarrow> i < 8 \<Longrightarrow> m (x + i) = m' (x + i)) \<Longrightarrow> chain m p xs \<longleftrightarrow> chain m' p xs"
proof (induction xs arbitrary: p)
  case (Cons x xs)
  have "run_next m x = run_next m' x"
    unfolding run_next_def by (rule le_get_cong) (use Cons.prems in auto)
  with Cons show ?case by auto
qed simp

lemma free_is_pages: "free_is s xs \<Longrightarrow> free_pages s = set xs"
  unfolding free_pages_def free_is_def using chain_unique by blast

lemma page_pos: "lay_ok L \<Longrightarrow> page_ok L x \<Longrightarrow> 0 < x \<and> x < 256 ^ 8"
  by (simp add: lay_ok_def page_ok_def KERNBASE_def PHYSTOP_def)

text \<open>Different pages do not overlap.\<close>

lemma pages_apart:
  assumes "x mod PGSIZE = 0" "y mod PGSIZE = 0" "x \<noteq> y" "i < PGSIZE"
  shows "\<not> (y \<le> x + i \<and> x + i < y + PGSIZE)"
proof
  assume a: "y \<le> x + i \<and> x + i < y + PGSIZE"
  obtain k j where "x = PGSIZE * k" "y = PGSIZE * j"
    using assms(1,2) by (auto simp: mod_eq_0_iff_dvd dvd_def)
  moreover from this have "(x + i) div PGSIZE = k"
    using assms(4) by (simp add: PGSIZE_def)
  moreover have "(x + i) div PGSIZE = j"
    using a \<open>y = PGSIZE * j\<close> by (intro div_nat_eqI) (simp_all add: PGSIZE_def)
  ultimately show False using assms(3) by simp
qed

lemma kfree_run:
  assumes "\<not> held s Kmem_lock" and "page_ok (lay s) pa"
  shows "kfree pa s = Ok () (s\<lparr>mem := le_put (memset (mem s) pa 1 PGSIZE) pa 8 (freelist s), freelist := pa\<rparr>)"
  using assms by (simp add: kfree_def page_ok_def store_mem_def exec_simps)

lemma kfree_panics: "\<not> page_ok (lay s) pa \<Longrightarrow> kfree pa s = Panic ''kfree''"
  by (simp add: kfree_def page_ok_def exec_simps)

lemma kalloc_run:
  assumes "\<not> held s Kmem_lock"
  shows "kalloc s = (if freelist s = 0 then Ok 0 s
     else Ok (freelist s) (s\<lparr>freelist := run_next (mem s) (freelist s),
                            mem := memset (mem s) (freelist s) 5 PGSIZE\<rparr>))"
  using assms by (simp add: kalloc_def store_mem_def exec_simps)

lemma kfree_free_is:
  assumes "free_is s xs" and "lay_ok (lay s)" and "page_ok (lay s) pa" and "pa \<notin> set xs"
  shows "free_is (s\<lparr>mem := le_put (memset (mem s) pa 1 PGSIZE) pa 8 (freelist s), freelist := pa\<rparr>) (pa # xs)"
proof -
  let ?m = "le_put (memset (mem s) pa 1 PGSIZE) pa 8 (freelist s)"
  have f: "freelist s < 256 ^ 8"
    using assms(1,2) page_pos by (cases xs) (auto simp: free_is_def)
  have n: "run_next ?m pa = freelist s"
    using f by (simp add: run_next_def le_get_put_same)
  have "?m (x + i) = mem s (x + i)" if "x \<in> set xs" "i < 8" for x i
  proof -
    have "\<not> (pa \<le> x + i \<and> x + i < pa + PGSIZE)"
      using that assms by (intro pages_apart) (auto simp: free_is_def page_ok_def PGSIZE_def)
    moreover from this have "x + i < pa \<or> pa + 8 \<le> x + i"
      by (auto simp: PGSIZE_def)
    ultimately show ?thesis by (simp add: le_put_outside)
  qed
  then have "chain ?m (freelist s) xs"
    using assms(1) chain_cong [of xs ?m "mem s"] by (auto simp: free_is_def)
  with n assms page_pos [OF assms(2,3)] show ?thesis by (auto simp: free_is_def)
qed

lemma kalloc_free_is:
  assumes "free_is s (x # xs)"
  shows "freelist s = x" and
    "free_is (s\<lparr>freelist := run_next (mem s) x, mem := memset (mem s) x 5 PGSIZE\<rparr>) xs"
proof -
  show "freelist s = x" using assms by (simp add: free_is_def)
  have "memset (mem s) x 5 PGSIZE (y + i) = mem s (y + i)" if "y \<in> set xs" "i < 8" for y i
    by (rule memset_out, rule pages_apart)
       (use that assms in \<open>auto simp: free_is_def page_ok_def PGSIZE_def\<close>)
  then have "chain (memset (mem s) x 5 PGSIZE) (run_next (mem s) x) xs"
    using assms chain_cong [of xs "memset (mem s) x 5 PGSIZE" "mem s"] by (auto simp: free_is_def)
  then show "free_is (s\<lparr>freelist := run_next (mem s) x, mem := memset (mem s) x 5 PGSIZE\<rparr>) xs"
    using assms by (simp add: free_is_def)
qed

definition kalloc_opt :: "(nat option, 'z mem_st_scheme) kern" where
  "kalloc_opt = bind kalloc (\<lambda>r. ret (if r = 0 then None else Some r))"

lemma kalloc_opt_empty:
  assumes ok: "kmem_ok s" and e: "free_pages s = {}"
  shows "kalloc_opt s = Ok None s"
proof -
  from ok obtain xs where xs: "free_is s xs" by (auto simp: kmem_ok_def)
  from free_is_pages [OF xs] e have "xs = []" by simp
  with xs have "freelist s = 0" by (simp add: free_is_def)
  with ok show ?thesis by (simp add: kalloc_opt_def kalloc_run exec_simps kmem_ok_def)
qed

lemma kalloc_opt_some:
  assumes ok: "kmem_ok s" and e: "free_pages s \<noteq> {}"
  defines "x \<equiv> freelist s"
  defines "t \<equiv> s\<lparr>freelist := run_next (mem s) x, mem := memset (mem s) x 5 PGSIZE\<rparr>"
  shows "kalloc_opt s = Ok (Some x) t \<and> kmem_ok t \<and> x \<in> free_pages s \<and>
    free_pages t = free_pages s - {x} \<and> page_ok (lay t) x"
proof -
  from ok obtain ys where ys: "free_is s ys" by (auto simp: kmem_ok_def)
  with e free_is_pages [OF ys] obtain x' xs where "free_is s (x' # xs)" by (cases ys) auto
  moreover from this have "x' = x" by (simp add: free_is_def x_def)
  ultimately have xs: "free_is s (x # xs)" by simp
  have t: "free_is t xs" unfolding t_def by (rule kalloc_free_is(2) [OF xs])
  have "x \<noteq> 0" using xs by (simp add: free_is_def)
  then have "kalloc_opt s = Ok (Some x) t"
    using ok by (simp add: kalloc_opt_def kalloc_run exec_simps kmem_ok_def x_def t_def)
  moreover have "kmem_ok t" using t ok by (auto simp: kmem_ok_def t_def)
  moreover have "distinct (x # xs)" "page_ok (lay t) x" using xs by (simp_all add: free_is_def t_def)
  ultimately show ?thesis using free_is_pages [OF t] free_is_pages [OF xs] by simp
qed

lemma kfree_adds:
  assumes ok: "kmem_ok s" and v: "page_ok (lay s) a" and n: "a \<notin> free_pages s"
  defines "t \<equiv> s\<lparr>mem := le_put (memset (mem s) a 1 PGSIZE) a 8 (freelist s), freelist := a\<rparr>"
  shows "kfree a s = Ok () t \<and> kmem_ok t \<and> free_pages t = insert a (free_pages s)"
proof -
  from ok obtain xs where xs: "free_is s xs" by (auto simp: kmem_ok_def)
  have t: "free_is t (a # xs)"
    unfolding t_def using ok n free_is_pages [OF xs]
    by (intro kfree_free_is [OF xs _ v]) (simp_all add: kmem_ok_def)
  moreover have "kmem_ok t" using t ok by (auto simp: kmem_ok_def t_def)
  moreover have "kfree a s = Ok () t" using ok v by (simp add: kfree_run kmem_ok_def t_def)
  ultimately show ?thesis using free_is_pages [OF t] free_is_pages [OF xs] by simp
qed

interpretation pages: allocator kalloc_opt kfree free_pages kmem_ok "\<lambda>s. page_ok (lay s)"
proof
  fix s :: "'a mem_st_scheme"
  assume ok: "kmem_ok s"
  show "free_pages s = {} \<Longrightarrow> \<exists>t. kalloc_opt s = Ok None t \<and> kmem_ok t \<and> free_pages t = {}"
    using kalloc_opt_empty [OF ok] ok by blast
  show "free_pages s \<noteq> {} \<Longrightarrow> \<exists>a t. kalloc_opt s = Ok (Some a) t \<and> kmem_ok t \<and> a \<in> free_pages s \<and>
      free_pages t = free_pages s - {a} \<and> page_ok (lay t) a"
    using kalloc_opt_some [OF ok] by blast
  show "finite (free_pages s)"
    using ok free_is_pages by (fastforce simp: kmem_ok_def)
  fix a
  show "page_ok (lay s) a \<Longrightarrow> a \<notin> free_pages s \<Longrightarrow>
      \<exists>t. kfree a s = Ok () t \<and> kmem_ok t \<and> free_pages t = insert a (free_pages s)"
    using kfree_adds [OF ok] by blast
qed


lemma freerange_loop_frees:
  assumes "free_is s xs" and "lay_ok (lay s)" and "\<not> held s Kmem_lock"
    and "p mod PGSIZE = 0" and "kend (lay s) \<le> p" and "e \<le> PHYSTOP" and "e mod PGSIZE = 0"
    and "\<forall>x \<in> set xs. x < p"
  shows "\<exists>t ys. freerange_loop p e s = Ok () t \<and> free_is t ys \<and> lay t = lay s \<and> held t = held s \<and>
    set ys = set xs \<union> {x. p \<le> x \<and> x < e \<and> x mod PGSIZE = 0}"
  using assms
proof (induction p e arbitrary: s xs rule: freerange_loop.induct)
  case (1 p e)
  show ?case
  proof (cases "p + PGSIZE \<le> e")
    case False
    have none: "{x. p \<le> x \<and> x < e \<and> x mod PGSIZE = 0} = {}"
    proof (rule ccontr)
      assume "{x. p \<le> x \<and> x < e \<and> x mod PGSIZE = 0} \<noteq> {}"
      then obtain x where x: "p \<le> x" "x < e" by blast
      with False have "e \<noteq> p" "\<not> (p \<le> e + 0 \<and> e + PGSIZE \<le> p)" "p \<le> e" "e < p + PGSIZE" by auto
      with pages_apart [of e p 0] "1.prems"(4,7) show False by (simp add: PGSIZE_def)
    qed
    have "freerange_loop p e s = Ok () s"
      using False by (subst freerange_loop.simps) (simp add: exec_simps)
    with "1.prems"(1) show ?thesis
      unfolding none by (intro exI [of _ s] exI [of _ xs]) simp
  next
    case True
    let ?s = "s\<lparr>mem := le_put (memset (mem s) p 1 PGSIZE) p 8 (freelist s), freelist := p\<rparr>"
    have pg: "page_ok (lay s) p"
      using "1.prems" True by (auto simp: page_ok_def PGSIZE_def)
    have "free_is ?s (p # xs)"
      using "1.prems"(1,2,8) pg by (intro kfree_free_is) auto
    moreover have "\<forall>x \<in> set (p # xs). x < p + PGSIZE"
      using "1.prems"(8) by (auto simp: PGSIZE_def)
    ultimately obtain t ys where t: "freerange_loop (p + PGSIZE) e ?s = Ok () t" "free_is t ys"
        "lay t = lay s" "held t = held s"
        "set ys = set (p # xs) \<union> {x. p + PGSIZE \<le> x \<and> x < e \<and> x mod PGSIZE = 0}"
      using "1.IH" [of ?s "p # xs"] True "1.prems" by (auto simp: PGSIZE_def)
    have "{x. p \<le> x \<and> x < e \<and> x mod PGSIZE = 0} =
        insert p {x. p + PGSIZE \<le> x \<and> x < e \<and> x mod PGSIZE = 0}"
    proof (intro equalityI subsetI)
      fix x assume x: "x \<in> {x. p \<le> x \<and> x < e \<and> x mod PGSIZE = 0}"
      then have "x = p \<or> p + PGSIZE \<le> x"
        using pages_apart [of x p 0] "1.prems"(4) by (cases "x = p") (auto simp: PGSIZE_def not_le)
      with x show "x \<in> insert p {x. p + PGSIZE \<le> x \<and> x < e \<and> x mod PGSIZE = 0}" by auto
    qed (use True "1.prems"(4) in \<open>auto simp: PGSIZE_def\<close>)
    with t True pg "1.prems"(3) show ?thesis
      by (subst freerange_loop.simps) (auto simp: kfree_run exec_simps)
  qed
qed

lemma PGROUNDUP_props: "PGROUNDUP n mod PGSIZE = 0" "n \<le> PGROUNDUP n" "PGROUNDUP n < n + PGSIZE"
proof -
  show "PGROUNDUP n mod PGSIZE = 0" by (simp add: PGROUNDUP_def)
  have "(n + PGSIZE - 1) = PGROUNDUP n + (n + PGSIZE - 1) mod PGSIZE"
    by (simp add: PGROUNDUP_def)
  moreover have "(n + PGSIZE - 1) mod PGSIZE < PGSIZE" by (simp add: PGSIZE_def)
  ultimately show "n \<le> PGROUNDUP n" "PGROUNDUP n < n + PGSIZE" by (auto simp: PGSIZE_def)
qed

section \<open>Properties\<close>

text \<open>
  C16: boot. Starting from an empty free list, \<open>kinit\<close> returns with a well-formed free list that
  contains exactly the whole pages from the end of the kernel up to \<open>PHYSTOP\<close>, each once.
\<close>

theorem kinit_frees_all:
  assumes "freelist s = 0" and "lay_ok (lay s)" and "\<not> held s Kmem_lock"
  shows "\<exists>t. kinit s = Ok () t \<and> kmem_ok t \<and>
    free_pages t = {x. kend (lay s) \<le> x \<and> x < PHYSTOP \<and> x mod PGSIZE = 0}"
proof -
  let ?p = "PGROUNDUP (kend (lay s))"
  have "free_is s []" using assms(1) by (simp add: free_is_def)
  moreover have "PHYSTOP mod PGSIZE = 0" by (simp add: PHYSTOP_def KERNBASE_def PGSIZE_def)
  ultimately obtain t ys where t: "freerange_loop ?p PHYSTOP s = Ok () t" "free_is t ys" "lay t = lay s"
      "held t = held s" "set ys = {x. ?p \<le> x \<and> x < PHYSTOP \<and> x mod PGSIZE = 0}"
    using freerange_loop_frees [of s "[]" ?p PHYSTOP] assms(2,3) PGROUNDUP_props by auto
  have "{x. ?p \<le> x \<and> x < PHYSTOP \<and> x mod PGSIZE = 0} =
      {x. kend (lay s) \<le> x \<and> x < PHYSTOP \<and> x mod PGSIZE = 0}"
  proof (intro equalityI subsetI)
    fix x assume x: "x \<in> {x. kend (lay s) \<le> x \<and> x < PHYSTOP \<and> x mod PGSIZE = 0}"
    have "\<not> x < ?p"
    proof
      assume "x < ?p"
      moreover have "?p < x + PGSIZE" using x PGROUNDUP_props(3) [of "kend (lay s)"] by auto
      ultimately show False
        using pages_apart [of ?p x 0] x PGROUNDUP_props(1) by (auto simp: PGSIZE_def)
    qed
    with x show "x \<in> {x. ?p \<le> x \<and> x < PHYSTOP \<and> x mod PGSIZE = 0}" by auto
  qed (use PGROUNDUP_props(2) le_trans in blast)
  moreover have "kinit s = Ok () t" using t(1) by (simp add: kinit_def freerange_def exec_simps)
  moreover have "kmem_ok t" using t assms(2,3) by (auto simp: kmem_ok_def)
  ultimately show ?thesis using t(5) free_is_pages [OF t(2)] by auto
qed

definition mem_boot :: mem_st where
  "mem_boot = \<lparr>held = (\<lambda>_. False), depth = 0, procs = (\<lambda>_. proc0), curp = None, nextpid = 1,
     initproc = None, ticks = 0, slks = (\<lambda>_. \<lparr>slocked = False, spid = 0\<rparr>), mem = (\<lambda>_. 0), freelist = 0,
     lay = \<lparr>kend = 0x80021d60, etext = 0x80008000, trampoline = 0x80007000, forkret_va = 0x80001a00\<rparr>\<rparr>"

theorem kinit_frees_all_witness:
  "\<exists>t. kinit mem_boot = Ok () t \<and> kmem_ok t \<and>
    free_pages t = {x. 0x80021d60 \<le> x \<and> x < PHYSTOP \<and> x mod PGSIZE = 0}"
proof -
  have "freelist mem_boot = 0" "lay_ok (lay mem_boot)" "\<not> held mem_boot Kmem_lock"
    by (simp_all add: mem_boot_def lay_ok_def KERNBASE_def PHYSTOP_def)
  from kinit_frees_all [OF this] show ?thesis by (simp add: mem_boot_def)
qed

text \<open>
  C17: \<open>kalloc\<close> returns from every well-formed state. It returns 0 only when no page is free, and
  then changes nothing; otherwise it returns a page that was free and no longer is, filled
  with 5s, and the rest of memory is untouched. The invariant holds again afterwards.
\<close>

theorem kalloc_correct:
  assumes "kmem_ok s"
  shows "\<exists>r t. kalloc s = Ok r t \<and> kmem_ok t \<and>
    (if r = 0 then free_pages s = {} \<and> t = s
     else r \<in> free_pages s \<and> free_pages t = free_pages s - {r} \<and> page_ok (lay s) r \<and>
          (\<forall>i < PGSIZE. mem t (r + i) = 5) \<and> (\<forall>a. a < r \<or> r + PGSIZE \<le> a \<longrightarrow> mem t a = mem s a))"
proof (cases "free_pages s = {}")
  case True
  have "\<not> held s Kmem_lock" using assms by (simp add: kmem_ok_def)
  then have "kalloc s = Ok 0 s"
    using kalloc_opt_empty [OF assms True] by (auto simp: kalloc_opt_def bind_Ok_iff ret_run kalloc_run split: if_splits)
  with True assms show ?thesis by auto
next
  case False
  note k = kalloc_opt_some [OF assms False]
  let ?t = "s\<lparr>freelist := run_next (mem s) (freelist s), mem := memset (mem s) (freelist s) 5 PGSIZE\<rparr>"
  have "freelist s \<noteq> 0"
    using k page_pos [of "lay s" "freelist s"] assms by (auto simp: kmem_ok_def)
  moreover from this have "kalloc s = Ok (freelist s) ?t" using assms by (simp add: kalloc_run kmem_ok_def)
  ultimately show ?thesis using k by (intro exI [of _ "freelist s"] exI [of _ ?t]) auto
qed

definition one_page :: mem_st where
  "one_page = mem_boot\<lparr>freelist := 0x80022000\<rparr>"

lemma one_page_ok: "kmem_ok one_page" "free_pages one_page = {0x80022000}"
proof -
  have "free_is one_page [0x80022000]"
    by (simp add: free_is_def one_page_def mem_boot_def run_next_def le_get_def page_ok_def PHYSTOP_def
        KERNBASE_def PGSIZE_def upt_conv_Cons)
  then show "kmem_ok one_page" "free_pages one_page = {0x80022000}"
    using free_is_pages [of one_page "[0x80022000]"]
    by (auto simp: kmem_ok_def one_page_def mem_boot_def lay_ok_def KERNBASE_def PHYSTOP_def)
qed

theorem kalloc_correct_witness:
  "\<exists>t. kalloc one_page = Ok 0x80022000 t \<and> kmem_ok t \<and> free_pages t = {}"
proof -
  from kalloc_correct [OF one_page_ok(1)] obtain r t where rt: "kalloc one_page = Ok r t" "kmem_ok t"
    "if r = 0 then free_pages one_page = {} \<and> t = one_page
     else r \<in> free_pages one_page \<and> free_pages t = free_pages one_page - {r} \<and> page_ok (lay one_page) r \<and>
       (\<forall>i < PGSIZE. mem t (r + i) = 5) \<and> (\<forall>a. a < r \<or> r + PGSIZE \<le> a \<longrightarrow> mem t a = mem one_page a)"
    by blast
  have "r \<noteq> 0" using rt(3) one_page_ok(2) by (auto split: if_splits)
  with rt(3) have "r \<in> free_pages one_page" "free_pages t = free_pages one_page - {r}" by simp_all
  with rt(1,2) one_page_ok(2) show ?thesis by auto
qed

text \<open>
  C18: \<open>kfree\<close> undoes \<open>kalloc\<close>: a page just allocated can be freed, which never panics, and the set
  of free pages is the old one again. An address that is not a whole page of allocatable
  memory is refused with a panic.
\<close>

theorem kalloc_kfree_roundtrip:
  assumes "kmem_ok s" and "kalloc s = Ok r t" and "r \<noteq> 0"
  shows "(\<exists>u. kfree r t = Ok () u \<and> kmem_ok u \<and> free_pages u = free_pages s) \<and>
         (\<not> page_ok (lay t) x \<longrightarrow> kfree x t = Panic ''kfree'')"
proof -
  have "kalloc_opt s = Ok (Some r) t" using assms(2,3) by (simp add: kalloc_opt_def exec_simps)
  from pages.alloc_free_roundtrip [OF assms(1) this] show ?thesis by (simp add: kfree_panics)
qed

theorem kalloc_kfree_roundtrip_witness:
  "\<exists>t u. kalloc one_page = Ok 0x80022000 t \<and> kfree 0x80022000 t = Ok () u \<and> free_pages u = {0x80022000}
     \<and> kfree 0x80022008 t = Panic ''kfree''"
proof -
  have k: "kalloc one_page = Ok 0x80022000 (one_page\<lparr>freelist := run_next (mem one_page) 0x80022000,
      mem := memset (mem one_page) 0x80022000 5 PGSIZE\<rparr>)" (is "_ = Ok _ ?t")
    by (subst kalloc_run) (simp_all add: one_page_def mem_boot_def)
  have "\<not> page_ok (lay ?t) 0x80022008" by (simp add: page_ok_def PGSIZE_def)
  with kalloc_kfree_roundtrip [OF one_page_ok(1) k, where x = "0x80022008"]
  have "\<exists>u. kfree 0x80022000 ?t = Ok () u \<and> free_pages u = free_pages one_page"
    "kfree 0x80022008 ?t = Panic ''kfree''" by auto
  with k one_page_ok(2) show ?thesis by metis
qed

end
