(* ===== verification/Bio.thy ===== *)
theory Bio
  imports Kalloc
begin

text \<open>
  The buffer cache (\<open>bio.c\<close>): 30 buffers on a doubly linked ring in least-recently-used
  order, at the level of its \<open>prev\<close> and \<open>next\<close> pointers. The invariant ties the pointers to a
  list of all buffers, allows at most one buffer per disk block, and keeps every
  unreferenced valid buffer equal to the disk. What clients see is the content of a block:
  the cached copy if there is one, the disk otherwise. Buffer \<open>i\<close> is \<open>bcache.buf[i]\<close>; index
  30 is \<open>bcache.head\<close>.
\<close>

section \<open>Buffers and the disk\<close>

definition NBUF :: nat where "NBUF = 30"
definition BSIZE :: nat where "BSIZE = 1024"

record buf =
  valid :: bool
  bdev :: nat
  blockno :: nat
  refcnt :: nat
  bprev :: nat
  bnext :: nat
  bdata :: bytes

text \<open>
  \<open>disk\<close> is the block device; \<open>dwrites\<close> records the block writes in the order the device
  completed them, so that the state of the disk at any earlier moment can be spoken about.
\<close>

record bio_st = mem_st +
  bufs :: "nat \<Rightarrow> buf"
  disk :: "nat \<Rightarrow> bytes"
  dwrites :: "(nat \<times> bytes) list"

abbreviation HEAD :: nat where "HEAD \<equiv> NBUF"

definition upd_buf :: "nat \<Rightarrow> (buf \<Rightarrow> buf) \<Rightarrow> (unit, 'z bio_st_scheme) kern" where
  "upd_buf i f = upd (\<lambda>s. s\<lparr>bufs := (bufs s)(i := f (bufs s i))\<rparr>)"

definition getb :: "nat \<Rightarrow> (buf \<Rightarrow> 'a) \<Rightarrow> ('a, 'z bio_st_scheme) kern" where
  "getb i f = gets (\<lambda>s. f (bufs s i))"

text \<open>
  \<open>virtio_disk_rw\<close> as its callers see it: the block is transferred. The caller sleeps until
  the device is done, so it must not hold any spin lock.
\<close>

definition disk_rw :: "nat \<Rightarrow> bool \<Rightarrow> (unit, 'z bio_st_scheme) kern" where
  "disk_rw i write = bind (gets depth) (\<lambda>d.
     if d \<noteq> 0 then panic ''sched locks'' else
     bind (getb i id) (\<lambda>b.
     if write then upd (\<lambda>s. s\<lparr>disk := (disk s)(blockno b := bdata b), dwrites := dwrites s @ [(blockno b, bdata b)]\<rparr>)
     else bind (gets disk) (\<lambda>d. upd_buf i (\<lambda>c. c\<lparr>bdata := d (blockno b)\<rparr>))))"

section \<open>The operations\<close>

text \<open>The body of the loop of \<open>binit\<close>.\<close>

definition binit_link :: "nat \<Rightarrow> (unit, 'z bio_st_scheme) kern" where
  "binit_link b =
     bind (getb HEAD bnext) (\<lambda>n.
     andthen (upd_buf b (\<lambda>c. c\<lparr>bnext := n\<rparr>)) (
     andthen (upd_buf b (\<lambda>c. c\<lparr>bprev := HEAD\<rparr>)) (
     andthen (initsleeplock (Buf_slock b)) (
     bind (getb HEAD bnext) (\<lambda>n.
     andthen (upd_buf n (\<lambda>c. c\<lparr>bprev := b\<rparr>)) (
     upd_buf HEAD (\<lambda>c. c\<lparr>bnext := b\<rparr>)))))))"

definition binit :: "(unit, 'z bio_st_scheme) kern" where
  "binit =
     andthen (upd_buf HEAD (\<lambda>b. b\<lparr>bprev := HEAD\<rparr>)) (
     andthen (upd_buf HEAD (\<lambda>b. b\<lparr>bnext := HEAD\<rparr>)) (
     mfor [0..<NBUF] binit_link))"

text \<open>The two scans of \<open>bget\<close>; the bound is one more than the number of buffers.\<close>

fun bget_cached :: "nat \<Rightarrow> nat \<Rightarrow> nat \<Rightarrow> nat \<Rightarrow> (nat option, 'z bio_st_scheme) kern" where
  "bget_cached 0 b dev bno = diverge"
| "bget_cached (Suc fuel) b dev bno =
     (if b \<noteq> HEAD then
        bind (getb b id) (\<lambda>c.
        if bdev c = dev \<and> blockno c = bno then ret (Some b)
        else bget_cached fuel (bnext c) dev bno)
      else ret None)"

fun bget_unused :: "nat \<Rightarrow> nat \<Rightarrow> (nat option, 'z bio_st_scheme) kern" where
  "bget_unused 0 b = diverge"
| "bget_unused (Suc fuel) b =
     (if b \<noteq> HEAD then
        bind (getb b id) (\<lambda>c.
        if refcnt c = 0 then ret (Some b)
        else bget_unused fuel (bprev c))
      else ret None)"

definition bget :: "nat \<Rightarrow> nat \<Rightarrow> (nat, 'z bio_st_scheme) kern" where
  "bget dev bno =
     andthen (k_acquire Bcache_lock) (
     bind (getb HEAD bnext) (\<lambda>n.
     bind (bget_cached (NBUF + 1) n dev bno) (\<lambda>r.
     case r of
       Some b \<Rightarrow>
         andthen (upd_buf b (\<lambda>c. c\<lparr>refcnt := inc32 (refcnt c)\<rparr>)) (
         andthen (k_release Bcache_lock) (
         andthen (acquiresleep (Buf_slock b)) (
         ret b)))
     | None \<Rightarrow>
         bind (getb HEAD bprev) (\<lambda>p.
         bind (bget_unused (NBUF + 1) p) (\<lambda>r.
         case r of
           Some b \<Rightarrow>
             andthen (upd_buf b (\<lambda>c. c\<lparr>bdev := dev\<rparr>)) (
             andthen (upd_buf b (\<lambda>c. c\<lparr>blockno := bno\<rparr>)) (
             andthen (upd_buf b (\<lambda>c. c\<lparr>valid := False\<rparr>)) (
             andthen (upd_buf b (\<lambda>c. c\<lparr>refcnt := 1\<rparr>)) (
             andthen (k_release Bcache_lock) (
             andthen (acquiresleep (Buf_slock b)) (
             ret b))))))
         | None \<Rightarrow> panic ''bget: no buffers'')))))"

definition bread :: "nat \<Rightarrow> nat \<Rightarrow> (nat, 'z bio_st_scheme) kern" where
  "bread dev bno =
     bind (bget dev bno) (\<lambda>b.
     bind (getb b valid) (\<lambda>v.
     andthen (if \<not> v then andthen (disk_rw b False) (upd_buf b (\<lambda>c. c\<lparr>valid := True\<rparr>)) else ret ()) (
     ret b)))"

definition bwrite :: "nat \<Rightarrow> (unit, 'z bio_st_scheme) kern" where
  "bwrite b =
     bind (holdingsleep (Buf_slock b)) (\<lambda>h.
     if \<not> h then panic ''bwrite'' else disk_rw b True)"

definition brelse :: "nat \<Rightarrow> (unit, 'z bio_st_scheme) kern" where
  "brelse b =
     bind (holdingsleep (Buf_slock b)) (\<lambda>h.
     if \<not> h then panic ''brelse'' else
     andthen (releasesleep (Buf_slock b)) (
     andthen (k_acquire Bcache_lock) (
     andthen (upd_buf b (\<lambda>c. c\<lparr>refcnt := dec32 (refcnt c)\<rparr>)) (
     bind (getb b refcnt) (\<lambda>r.
     andthen (if r = 0 then
       bind (getb b bnext) (\<lambda>n. bind (getb b bprev) (\<lambda>p.
       andthen (upd_buf n (\<lambda>c. c\<lparr>bprev := p\<rparr>)) (
       bind (getb b bprev) (\<lambda>p. bind (getb b bnext) (\<lambda>n.
       andthen (upd_buf p (\<lambda>c. c\<lparr>bnext := n\<rparr>)) (
       bind (getb HEAD bnext) (\<lambda>h.
       andthen (upd_buf b (\<lambda>c. c\<lparr>bnext := h\<rparr>)) (
       andthen (upd_buf b (\<lambda>c. c\<lparr>bprev := HEAD\<rparr>)) (
       bind (getb HEAD bnext) (\<lambda>h.
       andthen (upd_buf h (\<lambda>c. c\<lparr>bprev := b\<rparr>)) (
       upd_buf HEAD (\<lambda>c. c\<lparr>bnext := b\<rparr>))))))))))))
       else ret ()) (
     k_release Bcache_lock))))))"

definition bpin :: "nat \<Rightarrow> (unit, 'z bio_st_scheme) kern" where
  "bpin b =
     andthen (k_acquire Bcache_lock) (
     andthen (upd_buf b (\<lambda>c. c\<lparr>refcnt := inc32 (refcnt c)\<rparr>)) (
     k_release Bcache_lock))"

definition bunpin :: "nat \<Rightarrow> (unit, 'z bio_st_scheme) kern" where
  "bunpin b =
     andthen (k_acquire Bcache_lock) (
     andthen (upd_buf b (\<lambda>c. c\<lparr>refcnt := dec32 (refcnt c)\<rparr>)) (
     k_release Bcache_lock))"

section \<open>The ring as a list\<close>

text \<open>
  \<open>dseg nx pv a xs b\<close>: following \<open>next\<close> from \<open>a\<close> visits \<open>xs\<close> and then \<open>b\<close>, and the \<open>prev\<close>
  pointers lead back the same way.
\<close>

fun dseg :: "(nat \<Rightarrow> nat) \<Rightarrow> (nat \<Rightarrow> nat) \<Rightarrow> nat \<Rightarrow> nat list \<Rightarrow> nat \<Rightarrow> bool" where
  "dseg nx pv a [] b = (nx a = b \<and> pv b = a)"
| "dseg nx pv a (x # xs) b = (nx a = x \<and> pv x = a \<and> dseg nx pv x xs b)"

definition nexts :: "(nat \<Rightarrow> buf) \<Rightarrow> nat \<Rightarrow> nat" where "nexts B i = bnext (B i)"
definition prevs :: "(nat \<Rightarrow> buf) \<Rightarrow> nat \<Rightarrow> nat" where "prevs B i = bprev (B i)"

definition ring :: "(nat \<Rightarrow> buf) \<Rightarrow> nat list \<Rightarrow> bool" where
  "ring B xs \<longleftrightarrow> dseg (nexts B) (prevs B) HEAD xs HEAD \<and> distinct xs \<and> set xs = {0..<NBUF}"

lemma dseg_append: "dseg nx pv a (xs @ x # ys) b \<longleftrightarrow> dseg nx pv a xs x \<and> dseg nx pv x ys b"
  by (induction xs arbitrary: a) auto

lemma dseg_cong:
  "(\<And>x. x \<in> insert a (set xs) \<Longrightarrow> nx x = nx' x) \<Longrightarrow> (\<And>x. x \<in> insert b (set xs) \<Longrightarrow> pv x = pv' x) \<Longrightarrow>
   dseg nx pv a xs b \<longleftrightarrow> dseg nx' pv' a xs b"
  by (induction xs arbitrary: a) auto

lemma dseg_next: "dseg nx pv a xs b \<Longrightarrow> nx a = hd (xs @ [b])"
  by (cases xs) auto

lemma dseg_prev: "dseg nx pv a xs b \<Longrightarrow> pv b = last (a # xs)"
  by (induction xs arbitrary: a) auto

text \<open>Taking \<open>b\<close> out between its neighbours.\<close>

lemma dseg_unlink:
  assumes "dseg nx pv h (l1 @ b # l2) h'" and "distinct (l1 @ b # l2)"
    and "h \<notin> set (l1 @ b # l2)" and "h' \<notin> set (l1 @ b # l2)"
  shows "dseg (nx(pv b := nx b)) (pv(nx b := pv b)) h (l1 @ l2) h'"
proof -
  from assms(1) have d1: "dseg nx pv h l1 b" and d2: "dseg nx pv b l2 h'" by (simp_all add: dseg_append)
  note p = dseg_prev [OF d1] and n = dseg_next [OF d2]
  show ?thesis
  proof (cases l1 rule: rev_cases)
    case Nil
    with p have pb: "pv b = h" by simp
    show ?thesis
    proof (cases l2)
      case Nil2: Nil
      with n Nil pb show ?thesis by simp
    next
      case (Cons y ys)
      have "dseg (nx(h := y)) (pv(y := h)) y ys h'"
        by (rule dseg_cong [THEN iffD1, of y ys nx _ h' pv]) (use d2 Cons assms(2-4) Nil in auto)
      with Nil pb n Cons show ?thesis by simp
    qed
  next
    case (snoc zs z)
    with p have pb: "pv b = z" by simp
    have z1: "dseg nx pv h zs z" using d1 snoc by (simp add: dseg_append)
    show ?thesis
    proof (cases l2)
      case Nil
      have "dseg (nx(z := h')) (pv(h' := z)) h zs z"
        by (rule dseg_cong [THEN iffD1, of h zs nx _ z pv]) (use z1 snoc assms(2-4) in auto)
      with Nil snoc pb n show ?thesis by (simp add: dseg_append)
    next
      case (Cons y ys)
      have "dseg (nx(z := y)) (pv(y := z)) h zs z"
        by (rule dseg_cong [THEN iffD1, of h zs nx _ z pv]) (use z1 snoc Cons assms(2-4) in auto)
      moreover have "dseg (nx(z := y)) (pv(y := z)) y ys h'"
        by (rule dseg_cong [THEN iffD1, of y ys nx _ h' pv]) (use d2 Cons snoc assms(2-4) in auto)
      ultimately show ?thesis using Cons snoc pb n by (simp add: dseg_append)
    qed
  qed
qed

text \<open>Putting \<open>b\<close> in front.\<close>

lemma dseg_push:
  assumes "dseg nx pv h xs h" and "b \<notin> set xs" and "b \<noteq> h" and "h \<notin> set xs" and "distinct xs"
  shows "dseg (nx(b := nx h, h := b)) ((pv(b := h))(nx h := b)) h (b # xs) h"
proof (cases xs)
  case Nil
  with assms show ?thesis by simp
next
  case (Cons y ys)
  with assms(1) have "nx h = y" "dseg nx pv y ys h" by simp_all
  moreover have "dseg (nx(b := y, h := b)) ((pv(b := h))(y := b)) y ys h"
    by (rule dseg_cong [THEN iffD1, of y ys nx _ h pv]) (use assms Cons in auto)
  ultimately show ?thesis using Cons assms by simp
qed


section \<open>The invariant and the content of a block\<close>

definition unique_ok :: "(nat \<Rightarrow> buf) \<Rightarrow> bool" where
  "unique_ok B \<longleftrightarrow> (\<forall>i < NBUF. \<forall>j < NBUF. i \<noteq> j \<longrightarrow> bdev (B i) = bdev (B j) \<longrightarrow>
     blockno (B i) = blockno (B j) \<longrightarrow> bdev (B i) = 0)"

definition clean_ok :: "(nat \<Rightarrow> buf) \<Rightarrow> (nat \<Rightarrow> bytes) \<Rightarrow> bool" where
  "clean_ok B D \<longleftrightarrow> (\<forall>i < NBUF. refcnt (B i) = 0 \<longrightarrow> valid (B i) \<longrightarrow> bdata (B i) = D (blockno (B i)))"

definition locks_ok :: "'z bio_st_scheme \<Rightarrow> bool" where
  "locks_ok s \<longleftrightarrow> (\<forall>i < NBUF. slocked (slks s (Buf_slock i)) \<longrightarrow> 0 < refcnt (bufs s i))"

definition ROOTDEV :: nat where "ROOTDEV = 1"

text \<open>There is one disk: a used buffer belongs to device \<open>ROOTDEV\<close>, an unused one to device 0.\<close>

definition dev_ok :: "(nat \<Rightarrow> buf) \<Rightarrow> bool" where
  "dev_ok B \<longleftrightarrow> (\<forall>i < NBUF. (bdev (B i) = 0 \<or> bdev (B i) = ROOTDEV) \<and>
     (valid (B i) \<or> 0 < refcnt (B i) \<longrightarrow> bdev (B i) = ROOTDEV))"

definition bc_ok :: "'z bio_st_scheme \<Rightarrow> bool" where
  "bc_ok s \<longleftrightarrow> (\<exists>xs. ring (bufs s) xs) \<and> unique_ok (bufs s) \<and> clean_ok (bufs s) (disk s) \<and>
     dev_ok (bufs s) \<and> locks_ok s"

definition cached :: "(nat \<Rightarrow> buf) \<Rightarrow> nat \<Rightarrow> nat \<Rightarrow> nat option" where
  "cached B dev b = List.find (\<lambda>i. bdev (B i) = dev \<and> blockno (B i) = b) [0..<NBUF]"

definition bcontent :: "'z bio_st_scheme \<Rightarrow> nat \<Rightarrow> nat \<Rightarrow> bytes" where
  "bcontent s dev b = (case cached (bufs s) dev b of
     Some i \<Rightarrow> if valid (bufs s i) then bdata (bufs s i) else disk s b
   | None \<Rightarrow> disk s b)"

lemma cached_Some: "cached B dev b = Some i \<Longrightarrow> i < NBUF \<and> bdev (B i) = dev \<and> blockno (B i) = b"
  by (auto simp: cached_def find_Some_iff)

lemma cached_None: "cached B dev b = None \<longleftrightarrow> (\<forall>i < NBUF. \<not> (bdev (B i) = dev \<and> blockno (B i) = b))"
  by (auto simp: cached_def find_None_iff)

lemma cached_unique:
  assumes "unique_ok B" "dev \<noteq> 0" "i < NBUF" "bdev (B i) = dev" "blockno (B i) = b"
  shows "cached B dev b = Some i"
proof (cases "cached B dev b")
  case None
  with assms show ?thesis by (auto simp: cached_None)
next
  case (Some j)
  then have "j = i"
    using cached_Some [OF Some] assms unfolding unique_ok_def by metis
  with Some show ?thesis by simp
qed

lemma unique_okD:
  "unique_ok B \<Longrightarrow> dev \<noteq> 0 \<Longrightarrow> i < NBUF \<Longrightarrow> j < NBUF \<Longrightarrow> bdev (B i) = dev \<Longrightarrow> blockno (B i) = b \<Longrightarrow>
   bdev (B j) = dev \<Longrightarrow> blockno (B j) = b \<Longrightarrow> i = j"
  unfolding unique_ok_def by metis

text \<open>Any order of scanning finds the same buffer.\<close>

lemma find_ring:
  assumes "unique_ok B" "dev \<noteq> 0" "set xs = {0..<NBUF}"
  shows "List.find (\<lambda>i. bdev (B i) = dev \<and> blockno (B i) = b) xs = cached B dev b"
proof (cases "List.find (\<lambda>i. bdev (B i) = dev \<and> blockno (B i) = b) xs")
  case None
  have "cached B dev b = None"
    using None assms(3) by (auto simp: cached_None find_None_iff)
  with None show ?thesis by simp
next
  case (Some i)
  then have "i < NBUF" "bdev (B i) = dev" "blockno (B i) = b"
    using assms(3) by (auto simp: find_Some_iff set_conv_nth)
  with Some cached_unique [OF assms(1,2)] show ?thesis by simp
qed

section \<open>Running the operations\<close>

lemma upd_buf_run [exec_simps]: "upd_buf i f s = Ok () (s\<lparr>bufs := (bufs s)(i := f (bufs s i))\<rparr>)"
  by (simp add: upd_buf_def upd_run)

lemma getb_run [exec_simps]: "getb i f s = Ok (f (bufs s i)) s"
  by (simp add: getb_def gets_run)

lemma wp_upd_buf [wp_simps]: "wp (upd_buf i f) Q s = Q () (s\<lparr>bufs := (bufs s)(i := f (bufs s i))\<rparr>)"
  by (simp add: wp_def upd_buf_run)

lemma wp_getb [wp_simps]: "wp (getb i f) Q s = Q (f (bufs s i)) s"
  by (simp add: wp_def getb_run)

lemma nexts_upd [simp]: "nexts (B(i := c)) = (nexts B)(i := bnext c)"
  by (auto simp: nexts_def)

lemma prevs_upd [simp]: "prevs (B(i := c)) = (prevs B)(i := bprev c)"
  by (auto simp: prevs_def)

lemma nexts_same [simp]: "(nexts B)(i := bnext (B i)) = nexts B" "(nexts B)(i := nexts B i) = nexts B"
  by (auto simp: nexts_def)

lemma prevs_same [simp]: "(prevs B)(i := bprev (B i)) = prevs B" "(prevs B)(i := prevs B i) = prevs B"
  by (auto simp: prevs_def)

lemma bget_cached_run:
  assumes "dseg (nexts (bufs s)) pv a xs HEAD" and "HEAD \<notin> set xs" and "length xs < fuel"
  shows "bget_cached fuel (bnext (bufs s a)) dev b s =
    Ok (List.find (\<lambda>i. bdev (bufs s i) = dev \<and> blockno (bufs s i) = b) xs) s"
  using assms
proof (induction xs arbitrary: a fuel)
  case Nil
  then show ?case by (cases fuel) (auto simp: exec_simps nexts_def)
next
  case (Cons x xs)
  then obtain f where f: "fuel = Suc f" "length xs < f" by (cases fuel) auto
  have "bget_cached f (bnext (bufs s x)) dev b s =
      Ok (List.find (\<lambda>i. bdev (bufs s i) = dev \<and> blockno (bufs s i) = b) xs) s"
    using Cons.prems f by (intro Cons.IH) auto
  with f(1) Cons.prems show ?case by (auto simp: exec_simps nexts_def)
qed

lemma bget_unused_run:
  assumes "dseg nx (prevs (bufs s)) HEAD xs a" and "HEAD \<notin> set xs" and "length xs < fuel"
  shows "bget_unused fuel (bprev (bufs s a)) s = Ok (List.find (\<lambda>i. refcnt (bufs s i) = 0) (rev xs)) s"
  using assms
proof (induction xs arbitrary: a fuel rule: rev_induct)
  case Nil
  then show ?case by (cases fuel) (auto simp: exec_simps prevs_def)
next
  case (snoc x xs)
  then obtain f where f: "fuel = Suc f" "length xs < f" by (cases fuel) auto
  have d: "dseg nx (prevs (bufs s)) HEAD xs x" "prevs (bufs s) a = x"
    using snoc.prems(1) by (auto simp: dseg_append)
  have "bget_unused f (bprev (bufs s x)) s = Ok (List.find (\<lambda>i. refcnt (bufs s i) = 0) (rev xs)) s"
    using snoc.prems f d(1) by (intro snoc.IH) auto
  with f(1) snoc.prems(2) d(2) show ?case by (auto simp: exec_simps prevs_def)
qed

declare bget_cached.simps [simp del] bget_unused.simps [simp del]

lemma ring_head: "ring B xs \<Longrightarrow> HEAD \<notin> set xs \<and> length xs = NBUF"
  using distinct_card [of xs] by (auto simp: ring_def)

text \<open>The state after \<open>bread\<close>: the buffer is locked, referenced and holds the block.\<close>

definition grabbed :: "'z bio_st_scheme \<Rightarrow> nat \<Rightarrow> nat \<Rightarrow> nat \<Rightarrow> 'z bio_st_scheme" where
  "grabbed s i dev b = s\<lparr>bufs := (bufs s)(i := (bufs s i)\<lparr>bdev := dev, blockno := b, valid := True,
        refcnt := (if bdev (bufs s i) = dev \<and> blockno (bufs s i) = b then refcnt (bufs s i) + 1 else 1),
        bdata := bcontent s dev b\<rparr>),
     slks := (slks s)(Buf_slock i := \<lparr>slocked = True, spid = mypid s\<rparr>)\<rparr>"

lemma bget_hit:
  assumes "quiet s" "ring (bufs s) xs" "unique_ok (bufs s)" "dev \<noteq> 0" "cached (bufs s) dev b = Some i"
    "\<not> slocked (slks s (Buf_slock i))" "refcnt (bufs s i) < 2 ^ 32 - 1"
  shows "bget dev b s = Ok i (s\<lparr>bufs := (bufs s)(i := (bufs s i)\<lparr>refcnt := refcnt (bufs s i) + 1\<rparr>),
     slks := (slks s)(Buf_slock i := \<lparr>slocked = True, spid = mypid s\<rparr>)\<rparr>)"
proof -
  let ?u = "s\<lparr>held := (held s)(Bcache_lock := True), depth := Suc 0\<rparr>"
  have d: "dseg (nexts (bufs ?u)) (prevs (bufs ?u)) HEAD xs HEAD" using assms(2) by (simp add: ring_def)
  have "List.find (\<lambda>i. bdev (bufs ?u i) = dev \<and> blockno (bufs ?u i) = b) xs = Some i"
    using find_ring [OF assms(3,4), of xs b] assms(2,5) by (simp add: ring_def)
  with bget_cached_run [OF d, of "NBUF + 1" dev b] ring_head [OF assms(2)]
  have c: "bget_cached (Suc NBUF) (bnext (bufs s HEAD)) dev b ?u = Ok (Some i) ?u" by simp
  let ?v = "s\<lparr>bufs := (bufs s)(i := (bufs s i)\<lparr>refcnt := refcnt (bufs s i) + 1\<rparr>)\<rparr>"
  have "quiet ?v" using assms(1) by (simp add: quiet_def)
  moreover have "mypid ?v = mypid s" by (simp add: mypid_def)
  ultimately have "acquiresleep (Buf_slock i) ?v = Ok () (?v\<lparr>slks := (slks s)(Buf_slock i := \<lparr>slocked = True, spid = mypid s\<rparr>)\<rparr>)"
    using assms(6) by (simp add: acquiresleep_run)
  with assms(1,7) c show ?thesis
    by (simp add: bget_def exec_simps)
qed

lemma bget_miss:
  assumes "quiet s" "ring (bufs s) xs" "unique_ok (bufs s)" "dev \<noteq> 0" "cached (bufs s) dev b = None"
    "List.find (\<lambda>i. refcnt (bufs s i) = 0) (rev xs) = Some i" "\<not> slocked (slks s (Buf_slock i))"
  shows "bget dev b s = Ok i (s\<lparr>bufs := (bufs s)(i := (bufs s i)\<lparr>bdev := dev, blockno := b, valid := False, refcnt := 1\<rparr>),
     slks := (slks s)(Buf_slock i := \<lparr>slocked = True, spid = mypid s\<rparr>)\<rparr>)"
proof -
  let ?u = "s\<lparr>held := (held s)(Bcache_lock := True), depth := Suc 0\<rparr>"
  have d: "dseg (nexts (bufs ?u)) (prevs (bufs ?u)) HEAD xs HEAD" using assms(2) by (simp add: ring_def)
  have "List.find (\<lambda>i. bdev (bufs ?u i) = dev \<and> blockno (bufs ?u i) = b) xs = None"
    using find_ring [OF assms(3,4), of xs b] assms(2,5) by (simp add: ring_def)
  with bget_cached_run [OF d, of "NBUF + 1" dev b] ring_head [OF assms(2)]
  have c: "bget_cached (Suc NBUF) (bnext (bufs s HEAD)) dev b ?u = Ok None ?u" by simp
  from bget_unused_run [OF d, of "NBUF + 1"] ring_head [OF assms(2)] assms(6)
  have e: "bget_unused (Suc NBUF) (bprev (bufs s HEAD)) ?u = Ok (Some i) ?u" by simp
  let ?v = "s\<lparr>bufs := (bufs s)(i := (bufs s i)\<lparr>bdev := dev, blockno := b, valid := False, refcnt := 1\<rparr>)\<rparr>"
  have "quiet ?v" using assms(1) by (simp add: quiet_def)
  moreover have "mypid ?v = mypid s" by (simp add: mypid_def)
  ultimately have "acquiresleep (Buf_slock i) ?v = Ok () (?v\<lparr>slks := (slks s)(Buf_slock i := \<lparr>slocked = True, spid = mypid s\<rparr>)\<rparr>)"
    using assms(7) by (simp add: acquiresleep_run)
  with assms(1) c e show ?thesis
    by (simp add: bget_def exec_simps)
qed


lemma bget_full:
  assumes "quiet s" "ring (bufs s) xs" "unique_ok (bufs s)" "dev \<noteq> 0" "cached (bufs s) dev b = None"
    "\<forall>i \<in> set xs. refcnt (bufs s i) \<noteq> 0"
  shows "bget dev b s = Panic ''bget: no buffers''"
proof -
  let ?u = "s\<lparr>held := (held s)(Bcache_lock := True), depth := Suc 0\<rparr>"
  have d: "dseg (nexts (bufs ?u)) (prevs (bufs ?u)) HEAD xs HEAD" using assms(2) by (simp add: ring_def)
  have "List.find (\<lambda>i. bdev (bufs ?u i) = dev \<and> blockno (bufs ?u i) = b) xs = None"
    using find_ring [OF assms(3,4), of xs b] assms(2,5) by (simp add: ring_def)
  with bget_cached_run [OF d, of "NBUF + 1" dev b] ring_head [OF assms(2)]
  have c: "bget_cached (Suc NBUF) (bnext (bufs s HEAD)) dev b ?u = Ok None ?u" by simp
  have "List.find (\<lambda>i. refcnt (bufs s i) = 0) (rev xs) = None" using assms(6) by (auto simp: find_None_iff)
  with bget_unused_run [OF d, of "NBUF + 1"] ring_head [OF assms(2)]
  have e: "bget_unused (Suc NBUF) (bprev (bufs s HEAD)) ?u = Ok None ?u" by simp
  from assms(1) c e show ?thesis by (simp add: bget_def exec_simps)
qed

lemma find_rev_last: "filter P xs \<noteq> [] \<Longrightarrow> List.find P (rev xs) = Some (last (filter P xs))"
  by (induction xs rule: rev_induct) auto

lemma quiet_bufs [simp]: "quiet (s\<lparr>bufs := v\<rparr>) = quiet s" "quiet (s\<lparr>disk := w\<rparr>) = quiet s"
    "quiet (s\<lparr>dwrites := x\<rparr>) = quiet s"
  by (simp_all add: quiet_def)

lemma mypid_bufs [simp]: "mypid (s\<lparr>bufs := v\<rparr>) = mypid s" "mypid (s\<lparr>slks := w\<rparr>) = mypid s"
    "mypid (s\<lparr>disk := x\<rparr>) = mypid s" "mypid (s\<lparr>dwrites := y\<rparr>) = mypid s"
  by (simp_all add: mypid_def)

text \<open>Which buffer \<open>bread\<close> takes: the one caching the block, else the least recently used free one.\<close>

definition bpick :: "(nat \<Rightarrow> buf) \<Rightarrow> nat list \<Rightarrow> nat \<Rightarrow> nat \<Rightarrow> nat option" where
  "bpick B xs dev b = (case cached B dev b of Some i \<Rightarrow> Some i
     | None \<Rightarrow> List.find (\<lambda>i. refcnt (B i) = 0) (rev xs))"

lemma bpick_less: "ring (bufs s) xs \<Longrightarrow> bpick (bufs s) xs dev b = Some i \<Longrightarrow> i < NBUF"
  by (auto simp: bpick_def ring_def find_Some_iff dest!: cached_Some split: option.splits)
     (metis atLeastLessThan_iff length_rev nth_mem set_rev)

lemma bread_run:
  assumes "quiet s" "ring (bufs s) xs" "unique_ok (bufs s)" "dev \<noteq> 0" "bpick (bufs s) xs dev b = Some i"
    "\<not> slocked (slks s (Buf_slock i))" "refcnt (bufs s i) < 2 ^ 32 - 1"
  shows "bread dev b s = Ok i (grabbed s i dev b)"
proof (cases "cached (bufs s) dev b")
  case (Some j)
  with assms(5) have c: "cached (bufs s) dev b = Some i" by (simp add: bpick_def)
  note g = bget_hit [OF assms(1-4) c assms(6,7)] and e = cached_Some [OF c]
  show ?thesis
  proof (cases "valid (bufs s i)")
    case True
    with g c e show ?thesis
      by (cases "bufs s i") (simp add: bread_def exec_simps grabbed_def bcontent_def)
  next
    case False
    with g c e assms(1) show ?thesis
      by (cases "bufs s i")
         (auto simp: bread_def disk_rw_def exec_simps grabbed_def bcontent_def intro!: bio_st.equality)
  qed
next
  case None
  with assms(5) have f: "List.find (\<lambda>i. refcnt (bufs s i) = 0) (rev xs) = Some i" by (simp add: bpick_def)
  have i: "i < NBUF" by (rule bpick_less [OF assms(2,5)])
  note g = bget_miss [OF assms(1-4) None f assms(6)]
  have n: "\<not> (bdev (bufs s i) = dev \<and> blockno (bufs s i) = b)"
    using None i by (auto simp: cached_None)
  from g assms(1) n None show ?thesis
    by (cases "bufs s i")
       (auto simp: bread_def exec_simps disk_rw_def grabbed_def bcontent_def intro!: bio_st.equality)
qed

text \<open>What a buffer holds apart from its place in the ring.\<close>

definition erase :: "buf \<Rightarrow> buf" where
  "erase c = c\<lparr>bprev := 0, bnext := 0\<rparr>"

lemma erase_eq:
  "erase c = erase d \<longleftrightarrow> valid c = valid d \<and> bdev c = bdev d \<and> blockno c = blockno d \<and>
     refcnt c = refcnt d \<and> bdata c = bdata d"
  by (cases c, cases d) (auto simp: erase_def)

definition same_bufs :: "(nat \<Rightarrow> buf) \<Rightarrow> (nat \<Rightarrow> buf) \<Rightarrow> bool" where
  "same_bufs B B' \<longleftrightarrow> (\<forall>j. erase (B j) = erase (B' j))"

lemma same_bufsD:
  assumes "same_bufs B B'"
  shows "valid (B j) = valid (B' j)" "bdev (B j) = bdev (B' j)" "blockno (B j) = blockno (B' j)"
    "refcnt (B j) = refcnt (B' j)" "bdata (B j) = bdata (B' j)"
  using assms by (simp_all add: same_bufs_def erase_eq)

text \<open>The six pointer stores of \<open>brelse\<close>: out of its place, to the front.\<close>

definition unlink_buf :: "(nat \<Rightarrow> buf) \<Rightarrow> nat \<Rightarrow> nat \<Rightarrow> buf" where
  "unlink_buf B b =
     (let B1 = B(bnext (B b) := (B (bnext (B b)))\<lparr>bprev := bprev (B b)\<rparr>)
      in B1(bprev (B1 b) := (B1 (bprev (B1 b)))\<lparr>bnext := bnext (B1 b)\<rparr>))"

definition push_buf :: "(nat \<Rightarrow> buf) \<Rightarrow> nat \<Rightarrow> nat \<Rightarrow> buf" where
  "push_buf B b =
     (let B3 = B(b := (B b)\<lparr>bnext := bnext (B HEAD)\<rparr>);
          B4 = B3(b := (B3 b)\<lparr>bprev := HEAD\<rparr>);
          B5 = B4(bnext (B4 HEAD) := (B4 (bnext (B4 HEAD)))\<lparr>bprev := b\<rparr>)
      in B5(HEAD := (B5 HEAD)\<lparr>bnext := b\<rparr>))"

definition to_front :: "(nat \<Rightarrow> buf) \<Rightarrow> nat \<Rightarrow> nat \<Rightarrow> buf" where
  "to_front B b = push_buf (unlink_buf B b) b"

lemma same_bufs_refl: "same_bufs B B"
  by (simp add: same_bufs_def)

lemma same_bufs_step:
  "same_bufs B C \<Longrightarrow> same_bufs (B(i := (B i)\<lparr>bprev := v\<rparr>)) C"
  "same_bufs B C \<Longrightarrow> same_bufs (B(i := (B i)\<lparr>bnext := v\<rparr>)) C"
  by (auto simp: same_bufs_def erase_eq)

lemma to_front_same: "same_bufs (to_front B b) B"
  unfolding to_front_def unlink_buf_def push_buf_def Let_def
  by (intro same_bufs_step same_bufs_refl)

lemma unlink_links:
  assumes "nexts B b \<noteq> b"
  shows "nexts (unlink_buf B b) = (nexts B)(prevs B b := nexts B b)"
    "prevs (unlink_buf B b) = (prevs B)(nexts B b := prevs B b)"
  using assms by (auto simp: unlink_buf_def Let_def fun_eq_iff nexts_def prevs_def)

lemma push_links:
  assumes "b \<noteq> HEAD"
  shows "nexts (push_buf B b) = (nexts B)(b := nexts B HEAD, HEAD := b)"
    "prevs (push_buf B b) = (prevs B)(b := HEAD, nexts B HEAD := b)"
  using assms by (auto simp: push_buf_def Let_def fun_eq_iff nexts_def prevs_def)

lemma ring_split:
  assumes "ring B xs" "b < NBUF"
  obtains l1 l2 where "xs = l1 @ b # l2" "b \<notin> set l1"
proof -
  have "b \<in> set xs" using assms by (simp add: ring_def)
  then show ?thesis using split_list_first that by fastforce
qed

lemma to_front_ring:
  assumes "ring B xs" "b < NBUF"
  shows "ring (to_front B b) (b # remove1 b xs)"
proof -
  obtain l1 l2 where xs: "xs = l1 @ b # l2" "b \<notin> set l1" using ring_split [OF assms] .
  from assms(1) have d: "dseg (nexts B) (prevs B) HEAD (l1 @ b # l2) HEAD" "distinct (l1 @ b # l2)"
      "HEAD \<notin> set (l1 @ b # l2)"
    using ring_head [OF assms(1)] xs by (simp_all add: ring_def)
  have "nexts B b \<noteq> b"
    using d dseg_next [of "nexts B" "prevs B" b l2 HEAD] by (cases l2) (auto simp: dseg_append)
  note l = unlink_links [OF this]
  have u: "dseg (nexts (unlink_buf B b)) (prevs (unlink_buf B b)) HEAD (l1 @ l2) HEAD"
    unfolding l by (rule dseg_unlink [OF d(1,2,3,3)])
  have b: "b \<noteq> HEAD" using assms(2) by simp
  have "dseg (nexts (to_front B b)) (prevs (to_front B b)) HEAD (b # l1 @ l2) HEAD"
    unfolding to_front_def push_links [OF b] by (rule dseg_push [OF u]) (use d b in auto)
  moreover have "remove1 b xs = l1 @ l2" using xs by (simp add: remove1_append)
  moreover have "distinct (b # l1 @ l2)" "set (b # l1 @ l2) = {0..<NBUF}"
    using assms(1) xs by (auto simp: ring_def)
  ultimately show ?thesis by (simp add: ring_def)
qed


text \<open>The state after \<open>brelse\<close>.\<close>

definition released_bufs :: "(nat \<Rightarrow> buf) \<Rightarrow> nat \<Rightarrow> nat \<Rightarrow> buf" where
  "released_bufs B b = (let C = B(b := (B b)\<lparr>refcnt := refcnt (B b) - 1\<rparr>) in
     if refcnt (B b) = 1 then to_front C b else C)"

definition released :: "'z bio_st_scheme \<Rightarrow> nat \<Rightarrow> 'z bio_st_scheme" where
  "released s b = wake_upto NPROC (Chan_slock (Buf_slock b))
     (s\<lparr>slks := (slks s)(Buf_slock b := \<lparr>slocked = False, spid = 0\<rparr>), bufs := released_bufs (bufs s) b\<rparr>)"

lemma bufs_wake [simp]: "bufs (wake_upto n c s) = bufs s" "disk (wake_upto n c s) = disk s"
    "dwrites (wake_upto n c s) = dwrites s" "bio_st.more (wake_upto n c s) = bio_st.more s"
    "mem (wake_upto n c s) = mem s" "freelist (wake_upto n c s) = freelist s" "lay (wake_upto n c s) = lay s"
  by (simp_all add: wake_upto_def)

lemma wake_upto_bufs: "wake_upto n c (s\<lparr>bufs := B\<rparr>) = (wake_upto n c s)\<lparr>bufs := B\<rparr>"
  by (simp add: wake_upto_def)

lemma brelse_run:
  assumes "quiet s" "owns_slk s (Buf_slock b)" "0 < refcnt (bufs s b)" "refcnt (bufs s b) < 2 ^ 32"
  shows "brelse b s = Ok () (released s b)"
proof -
  let ?u = "wake_upto NPROC (Chan_slock (Buf_slock b))
     (s\<lparr>slks := (slks s)(Buf_slock b := \<lparr>slocked = False, spid = 0\<rparr>)\<rparr>)"
  have q: "quiet ?u" using assms(1) by simp
  have r: "released s b = ?u\<lparr>bufs := released_bufs (bufs s) b\<rparr>"
    by (simp add: released_def wake_upto_bufs)
  have h: "holdingsleep (Buf_slock b) s = Ok True s" "releasesleep (Buf_slock b) s = Ok () ?u"
    using assms(1,2) by (simp_all add: holdingsleep_run releasesleep_run)
  have d: "dec32 (refcnt (bufs s b)) = refcnt (bufs s b) - 1" using assms(3,4) by simp
  show ?thesis
  proof (cases "refcnt (bufs s b) = 1")
    case True
    with h q d show ?thesis
      by (simp add: brelse_def exec_simps r released_bufs_def to_front_def unlink_buf_def push_buf_def Let_def
          fun_upd_same del: fun_upd_apply dec32_small)
  next
    case False
    with h q d assms(3) show ?thesis
      by (simp add: brelse_def exec_simps r released_bufs_def Let_def del: dec32_small)
  qed
qed

lemma brelse_not_held: "quiet s \<Longrightarrow> \<not> owns_slk s (Buf_slock b) \<Longrightarrow> brelse b s = Panic ''brelse''"
  by (simp add: brelse_def exec_simps)

lemma bwrite_run:
  "quiet s \<Longrightarrow> owns_slk s (Buf_slock b) \<Longrightarrow>
   bwrite b s = Ok () (s\<lparr>disk := (disk s)(blockno (bufs s b) := bdata (bufs s b)),
     dwrites := dwrites s @ [(blockno (bufs s b), bdata (bufs s b))]\<rparr>)"
  by (simp add: bwrite_def disk_rw_def exec_simps)

lemma bpin_run:
  "quiet s \<Longrightarrow> refcnt (bufs s b) < 2 ^ 32 - 1 \<Longrightarrow>
   bpin b s = Ok () (s\<lparr>bufs := (bufs s)(b := (bufs s b)\<lparr>refcnt := refcnt (bufs s b) + 1\<rparr>)\<rparr>)"
  by (simp add: bpin_def exec_simps)

lemma bunpin_run:
  "quiet s \<Longrightarrow> 0 < refcnt (bufs s b) \<Longrightarrow> refcnt (bufs s b) < 2 ^ 32 \<Longrightarrow>
   bunpin b s = Ok () (s\<lparr>bufs := (bufs s)(b := (bufs s b)\<lparr>refcnt := refcnt (bufs s b) - 1\<rparr>)\<rparr>)"
  by (simp add: bunpin_def exec_simps)


section \<open>What clients see\<close>

definition blk :: "'z bio_st_scheme \<Rightarrow> nat \<Rightarrow> bytes" where
  "blk s b = bcontent s ROOTDEV b"

definition brefs :: "'z bio_st_scheme \<Rightarrow> nat \<Rightarrow> nat" where
  "brefs s b = (case cached (bufs s) ROOTDEV b of Some i \<Rightarrow> refcnt (bufs s i) | None \<Rightarrow> 0)"

definition blocked :: "'z bio_st_scheme \<Rightarrow> nat \<Rightarrow> bool" where
  "blocked s b = (case cached (bufs s) ROOTDEV b of Some i \<Rightarrow> slocked (slks s (Buf_slock i)) | None \<Rightarrow> False)"

definition holds :: "'z bio_st_scheme \<Rightarrow> nat \<Rightarrow> nat \<Rightarrow> bool" where
  "holds s i b \<longleftrightarrow> i < NBUF \<and> owns_slk s (Buf_slock i) \<and> bdev (bufs s i) = ROOTDEV \<and>
     blockno (bufs s i) = b \<and> valid (bufs s i)"

definition bio_ok :: "'z bio_st_scheme \<Rightarrow> bool" where
  "bio_ok s \<longleftrightarrow> bc_ok s \<and> quiet s"

lemma ROOTDEV_pos [simp]: "ROOTDEV \<noteq> 0" "0 < ROOTDEV"
  by (simp_all add: ROOTDEV_def)

lemma bio_okD:
  assumes "bio_ok s"
  shows "quiet s" "unique_ok (bufs s)" "clean_ok (bufs s) (disk s)" "dev_ok (bufs s)" "locks_ok s"
    "\<exists>xs. ring (bufs s) xs"
  using assms by (simp_all add: bio_ok_def bc_ok_def)

lemma holds_cached: "bio_ok s \<Longrightarrow> holds s i b \<Longrightarrow> cached (bufs s) ROOTDEV b = Some i"
  using cached_unique [of "bufs s" ROOTDEV i b] by (auto simp: holds_def dest: bio_okD(2))

lemma holds_view:
  assumes "bio_ok s" "holds s i b"
  shows "bdata (bufs s i) = blk s b" "refcnt (bufs s i) = brefs s b" "0 < brefs s b" "blocked s b"
    "blockno (bufs s i) = b"
proof -
  note c = holds_cached [OF assms]
  show "bdata (bufs s i) = blk s b" "refcnt (bufs s i) = brefs s b" "blocked s b" "blockno (bufs s i) = b"
    using c assms(2) by (auto simp: blk_def bcontent_def brefs_def blocked_def holds_def owns_slk_def)
  then show "0 < brefs s b"
    using assms(2) bio_okD(5) [OF assms(1)] by (auto simp: holds_def locks_ok_def owns_slk_def)
qed

lemma holds_inj: "bio_ok s \<Longrightarrow> holds s i b \<Longrightarrow> holds s j b \<Longrightarrow> i = j"
  using holds_cached [of s i b] holds_cached [of s j b] by simp

lemma cached_upd:
  assumes "unique_ok (B(i := c))" "unique_ok B" "i < NBUF" "dev \<noteq> 0"
  shows "cached (B(i := c)) dev x =
    (if bdev c = dev \<and> blockno c = x then Some i
     else if cached B dev x = Some i then None else cached B dev x)"
proof (cases "bdev c = dev \<and> blockno c = x")
  case True
  then show ?thesis using cached_unique [OF assms(1,4,3)] by simp
next
  case False
  show ?thesis
  proof (cases "cached B dev x")
    case None
    then have "cached (B(i := c)) dev x = None" using False by (auto simp: cached_None)
    with None False show ?thesis by simp
  next
    case (Some j)
    note j = cached_Some [OF Some]
    show ?thesis
    proof (cases "j = i")
      case True
      have "cached (B(i := c)) dev x = None"
        unfolding cached_None
      proof (intro allI impI)
        fix k assume "k < NBUF"
        then show "\<not> (bdev ((B(i := c)) k) = dev \<and> blockno ((B(i := c)) k) = x)"
          using False True j unique_okD [OF assms(2,4), of k i x] by auto
      qed
      with Some True False show ?thesis by simp
    next
      case Fj: False
      with j have "cached (B(i := c)) dev x = Some j"
        by (intro cached_unique [OF assms(1,4)]) auto
      with Some Fj False show ?thesis by simp
    qed
  qed
qed

lemma cached_cong: "(\<And>i. i < NBUF \<Longrightarrow> bdev (B i) = bdev (C i) \<and> blockno (B i) = blockno (C i)) \<Longrightarrow>
    cached B dev x = cached C dev x"
  unfolding cached_def by (rule find_cong) auto

text \<open>Changing a buffer without moving it to another block.\<close>

lemma cached_keep:
  "bdev c = bdev (B i) \<Longrightarrow> blockno c = blockno (B i) \<Longrightarrow> cached (B(i := c)) dev x = cached B dev x"
  by (rule cached_cong) auto

lemma unique_keep:
  assumes "bdev c = bdev (B i)" "blockno c = blockno (B i)"
  shows "unique_ok (B(i := c)) = unique_ok B"
proof -
  have "bdev ((B(i := c)) j) = bdev (B j)" "blockno ((B(i := c)) j) = blockno (B j)" for j
    using assms by auto
  then show ?thesis unfolding unique_ok_def by (simp only:)
qed

text \<open>Some buffer is free when fewer than 30 blocks are referenced.\<close>

lemma referenced_blocks:
  assumes "unique_ok B" "dev_ok B"
  shows "{b. 0 < (case cached B ROOTDEV b of Some i \<Rightarrow> refcnt (B i) | None \<Rightarrow> 0)} =
      (\<lambda>i. blockno (B i)) ` {i. i < NBUF \<and> 0 < refcnt (B i)}"
    (is "?L = ?f ` ?I")
proof (intro equalityI subsetI)
  fix b assume "b \<in> ?L"
  then show "b \<in> ?f ` ?I" by (auto split: option.splits dest!: cached_Some)
next
  fix b assume "b \<in> ?f ` ?I"
  then obtain i where i: "i < NBUF" "0 < refcnt (B i)" "blockno (B i) = b" by auto
  then have "bdev (B i) = ROOTDEV" using assms(2) by (auto simp: dev_ok_def)
  with i cached_unique [OF assms(1), of ROOTDEV i b] show "b \<in> ?L" by simp
qed

lemma referenced_inj:
  assumes "unique_ok B" "dev_ok B"
  shows "inj_on (\<lambda>i. blockno (B i)) {i. i < NBUF \<and> 0 < refcnt (B i)}"
  using assms by (auto simp: inj_on_def dev_ok_def unique_ok_def) (metis ROOTDEV_pos(1))

lemma free_buffer:
  assumes "unique_ok (bufs s)" "dev_ok (bufs s)" "card {b. 0 < brefs s b} < NBUF"
  shows "\<exists>i < NBUF. refcnt (bufs s i) = 0"
proof (rule ccontr)
  assume "\<not> ?thesis"
  then have "{i. i < NBUF \<and> 0 < refcnt (bufs s i)} = {0..<NBUF}" by auto
  moreover have "card {b. 0 < brefs s b} = card {i. i < NBUF \<and> 0 < refcnt (bufs s i)}"
    unfolding brefs_def referenced_blocks [OF assms(1,2)]
    by (rule card_image [OF referenced_inj [OF assms(1,2)]])
  ultimately show False using assms(3) by simp
qed


section \<open>Each operation on that view\<close>

lemma brefs_cong:
  assumes "bufs s = bufs t"
  shows "brefs s = brefs t"
  by (unfold fun_eq_iff brefs_def assms) simp

lemma blocked_cong:
  assumes "bufs s = bufs t" "slks s = slks t"
  shows "blocked s = blocked t"
  by (unfold fun_eq_iff blocked_def assms) simp

lemma blk_cong:
  assumes "bufs s = bufs t" "disk s = disk t"
  shows "blk s = blk t"
  by (unfold fun_eq_iff blk_def bcontent_def assms) simp

lemma cached_inj: "cached B d b = Some i \<Longrightarrow> cached B d x = Some i \<longleftrightarrow> x = b"
  by (auto dest: cached_Some)

lemma bpick_exists:
  assumes "bio_ok s" "ring (bufs s) xs" "card {x. 0 < brefs s x} < NBUF \<or> 0 < brefs s b"
  obtains i where "bpick (bufs s) xs ROOTDEV b = Some i"
proof (cases "cached (bufs s) ROOTDEV b")
  case (Some i)
  then show ?thesis using that by (simp add: bpick_def)
next
  case None
  then have "card {x. 0 < brefs s x} < NBUF" using assms(3) by (simp add: brefs_def)
  then obtain j where "j < NBUF" "refcnt (bufs s j) = 0"
    using free_buffer bio_okD(2,4) [OF assms(1)] by blast
  then have "List.find (\<lambda>i. refcnt (bufs s i) = 0) (rev xs) \<noteq> None"
    using assms(2) by (auto simp: find_None_iff ring_def)
  then show ?thesis using None that by (auto simp: bpick_def)
qed

lemma bpick_cases:
  assumes "ring (bufs s) xs" "bpick (bufs s) xs dev b = Some i"
  shows "i < NBUF \<and> (cached (bufs s) dev b = Some i \<or> cached (bufs s) dev b = None \<and> refcnt (bufs s i) = 0)"
  using bpick_less [OF assms] assms(2) by (auto simp: bpick_def find_Some_iff split: option.splits)

lemma grabbed_unique:
  assumes "unique_ok (bufs s)" "i < NBUF" "dev \<noteq> 0"
    "cached (bufs s) dev b = Some i \<or> cached (bufs s) dev b = None"
  shows "unique_ok (bufs (grabbed s i dev b))"
  unfolding unique_ok_def
proof (intro allI impI)
  let ?B = "bufs (grabbed s i dev b)"
  fix j k
  assume a: "j < NBUF" "k < NBUF" "j \<noteq> k" "bdev (?B j) = bdev (?B k)" "blockno (?B j) = blockno (?B k)"
  have new: "bdev (bufs s m) \<noteq> dev \<or> blockno (bufs s m) \<noteq> b" if "m < NBUF" "m \<noteq> i" for m
    using assms(4) that unique_okD [OF assms(1,3), of m i b]
    by (auto simp: cached_None dest!: cached_Some)
  consider "j = i" | "k = i" | "j \<noteq> i" "k \<noteq> i" by blast
  then show "bdev (?B j) = 0"
  proof cases
    case 1
    with a new [of k] show ?thesis by (auto simp: grabbed_def)
  next
    case 2
    with a new [of j] show ?thesis by (auto simp: grabbed_def)
  next
    case 3
    with a assms(1) show ?thesis by (auto simp: grabbed_def unique_ok_def)
  qed
qed

lemma ring_data: "bnext c = bnext (B i) \<Longrightarrow> bprev c = bprev (B i) \<Longrightarrow> ring (B(i := c)) xs = ring B xs"
  by (simp add: ring_def)

lemma grabbed_bc_ok:
  assumes "bc_ok s" "i < NBUF"
    "cached (bufs s) ROOTDEV b = Some i \<or> cached (bufs s) ROOTDEV b = None \<and> refcnt (bufs s i) = 0"
  shows "bc_ok (grabbed s i ROOTDEV b)"
proof -
  have "unique_ok (bufs (grabbed s i ROOTDEV b))"
    using assms by (intro grabbed_unique) (auto simp: bc_ok_def)
  moreover have "\<exists>xs. ring (bufs (grabbed s i ROOTDEV b)) xs"
    using assms(1) by (auto simp: bc_ok_def grabbed_def ring_data)
  ultimately show ?thesis
    using assms(1) by (auto simp: bc_ok_def grabbed_def clean_ok_def dev_ok_def locks_ok_def)
qed

lemma grabbed_view:
  assumes "bc_ok s" "i < NBUF"
    "cached (bufs s) ROOTDEV b = Some i \<or> cached (bufs s) ROOTDEV b = None \<and> refcnt (bufs s i) = 0"
  shows "blk (grabbed s i ROOTDEV b) = blk s"
    "brefs (grabbed s i ROOTDEV b) = (brefs s)(b := brefs s b + 1)"
    "blocked (grabbed s i ROOTDEV b) = (blocked s)(b := True)"
proof -
  let ?g = "grabbed s i ROOTDEV b"
  have u: "unique_ok (bufs s)" "unique_ok (bufs ?g)" "clean_ok (bufs s) (disk s)" "locks_ok s"
    using assms(1) grabbed_bc_ok [OF assms] by (auto simp: bc_ok_def)
  have c: "cached (bufs ?g) ROOTDEV x = (if x = b then Some i
      else if cached (bufs s) ROOTDEV x = Some i then None else cached (bufs s) ROOTDEV x)" for x
    using u(2) cached_upd [OF _ u(1) assms(2) ROOTDEV_pos(1), of _ x] by (auto simp: grabbed_def)
  have evict: "refcnt (bufs s i) = 0" if "cached (bufs s) ROOTDEV x = Some i" "x \<noteq> b" for x
    using that assms(3) by (auto dest!: cached_Some)
  show "blk ?g = blk s"
  proof
    fix x
    show "blk ?g x = blk s x"
    proof (cases "x = b")
      case True
      then show ?thesis using c [of b] by (simp add: blk_def bcontent_def grabbed_def)
    next
      case False
      then show ?thesis
        using c [of x] evict [of x] u(3) assms(2)
        by (auto simp: blk_def bcontent_def clean_ok_def grabbed_def dest!: cached_Some split: option.splits)
    qed
  qed
  show "brefs ?g = (brefs s)(b := brefs s b + 1)"
  proof
    fix x
    show "brefs ?g x = ((brefs s)(b := brefs s b + 1)) x"
    proof (cases "x = b")
      case True
      have "cached (bufs s) ROOTDEV b = Some i \<Longrightarrow> bdev (bufs s i) = ROOTDEV \<and> blockno (bufs s i) = b"
        "cached (bufs s) ROOTDEV b = None \<Longrightarrow> \<not> (bdev (bufs s i) = ROOTDEV \<and> blockno (bufs s i) = b)"
        using assms(2) by (auto simp: cached_None dest!: cached_Some)
      with True c [of b] assms(3) show ?thesis by (auto simp: brefs_def grabbed_def)
    next
      case False
      then show ?thesis
        using c [of x] evict [of x] by (auto simp: brefs_def grabbed_def split: option.splits)
    qed
  qed
  show "blocked ?g = (blocked s)(b := True)"
  proof
    fix x
    show "blocked ?g x = ((blocked s)(b := True)) x"
    proof (cases "x \<noteq> b \<and> cached (bufs s) ROOTDEV x = Some i")
      case True
      then have "\<not> slocked (slks s (Buf_slock i))" using evict [of x] u(4) assms(2) by (auto simp: locks_ok_def)
      with True c [of x] show ?thesis by (simp add: blocked_def)
    next
      case False
      then show ?thesis using c [of x] by (auto simp: blocked_def grabbed_def split: option.splits)
    qed
  qed
qed


lemma bread_law:
  assumes "bio_ok s" "\<not> blocked s b" "card {x. 0 < brefs s x} < NBUF \<or> 0 < brefs s b"
    "brefs s b < 2 ^ 32 - 1"
  shows "\<exists>i. bread ROOTDEV b s = Ok i (grabbed s i ROOTDEV b) \<and>
    bio_ok (grabbed s i ROOTDEV b) \<and> holds (grabbed s i ROOTDEV b) i b \<and> (\<forall>c. \<not> holds s i c) \<and>
    blk (grabbed s i ROOTDEV b) = blk s \<and> brefs (grabbed s i ROOTDEV b) = (brefs s)(b := brefs s b + 1) \<and>
    blocked (grabbed s i ROOTDEV b) = (blocked s)(b := True)"
proof -
  obtain xs where xs: "ring (bufs s) xs" using bio_okD(6) [OF assms(1)] by blast
  obtain i where p: "bpick (bufs s) xs ROOTDEV b = Some i" using bpick_exists [OF assms(1) xs assms(3)] .
  note c = bpick_cases [OF xs p]
  have bc: "bc_ok s" "quiet s" using assms(1) by (auto simp: bio_ok_def)
  have l: "\<not> slocked (slks s (Buf_slock i))"
    using c assms(2) bio_okD(5) [OF assms(1)] by (auto simp: blocked_def locks_ok_def)
  have r: "refcnt (bufs s i) < 2 ^ 32 - 1" using c assms(4) by (auto simp: brefs_def)
  have run: "bread ROOTDEV b s = Ok i (grabbed s i ROOTDEV b)"
    by (rule bread_run [OF bc(2) xs bio_okD(2) [OF assms(1)] _ p l r]) simp
  have ok: "bio_ok (grabbed s i ROOTDEV b)"
    using grabbed_bc_ok [OF bc(1), of i b] c bc(2) by (simp add: bio_ok_def) (simp add: grabbed_def)
  have h: "holds (grabbed s i ROOTDEV b) i b"
    using c bc(2) by (auto simp: holds_def grabbed_def owns_slk_def mypid_def quiet_def)
  have n: "\<not> holds s i c" for c using l by (simp add: holds_def owns_slk_def)
  show ?thesis
    using run ok h n grabbed_view [OF bc(1), of i b] c by (intro exI [of _ i]) simp
qed

lemma grabbed_holds: "holds s j c \<Longrightarrow> j \<noteq> i \<Longrightarrow> holds (grabbed s i dev b) j c"
  by (simp add: holds_def grabbed_def owns_slk_def)

lemma grabbed_rest [simp]:
  "disk (grabbed s i dev b) = disk s" "dwrites (grabbed s i dev b) = dwrites s"
  "bio_st.more (grabbed s i dev b) = bio_st.more s" "mem (grabbed s i dev b) = mem s"
  "procs (grabbed s i dev b) = procs s" "curp (grabbed s i dev b) = curp s"
  by (simp_all add: grabbed_def)

lemma released_same:
  "same_bufs (released_bufs B b) (B(b := (B b)\<lparr>refcnt := refcnt (B b) - 1\<rparr>))"
  by (simp add: released_bufs_def Let_def to_front_same same_bufs_refl)

lemma same_bufs_preserve:
  assumes "same_bufs B C"
  shows "unique_ok B = unique_ok C" "clean_ok B D = clean_ok C D" "dev_ok B = dev_ok C"
    "cached B dev b = cached C dev b"
  using same_bufsD [OF assms] cached_cong [of B C dev b]
  by (simp_all add: unique_ok_def clean_ok_def dev_ok_def)

lemma released_ring:
  assumes "ring B xs" "b < NBUF"
  shows "ring (released_bufs B b) (if refcnt (B b) = 1 then b # remove1 b xs else xs)"
  using assms to_front_ring [of "B(b := (B b)\<lparr>refcnt := refcnt (B b) - 1\<rparr>)" xs b]
  by (cases "refcnt (B b) = 1") (simp_all add: released_bufs_def Let_def ring_data)

lemma brelse_law:
  assumes "bio_ok s" "holds s i b" "brefs s b < 2 ^ 32" "brefs s b = 1 \<Longrightarrow> blk s b = disk s b"
  shows "brelse i s = Ok () (released s i) \<and> bio_ok (released s i) \<and> blk (released s i) = blk s \<and>
    brefs (released s i) = (brefs s)(b := brefs s b - 1) \<and> blocked (released s i) = (blocked s)(b := False)"
proof -
  note v = holds_view [OF assms(1,2)] and c = holds_cached [OF assms(1,2)]
  have i: "i < NBUF" "owns_slk s (Buf_slock i)" using assms(2) by (auto simp: holds_def)
  have q: "quiet s" using assms(1) by (simp add: bio_ok_def)
  let ?t = "released s i" and ?C = "(bufs s)(i := (bufs s i)\<lparr>refcnt := refcnt (bufs s i) - 1\<rparr>)"
  have sb: "same_bufs (bufs ?t) ?C" using released_same [of "bufs s" i] by (simp add: released_def)
  note p = same_bufs_preserve [OF sb] and d = same_bufsD [OF sb]
  have "brelse i s = Ok () ?t"
    by (rule brelse_run [OF q i(2)]) (use v assms(3) in auto)
  moreover have "bio_ok ?t"
    unfolding bio_ok_def bc_ok_def
  proof (intro conjI)
    obtain xs where "ring (bufs s) xs" using bio_okD(6) [OF assms(1)] by blast
    from released_ring [OF this i(1)] show "\<exists>xs. ring (bufs ?t) xs" by (auto simp: released_def)
    show "unique_ok (bufs ?t)" using bio_okD(2) [OF assms(1)] unfolding p(1) by (auto simp: unique_ok_def)
    show "clean_ok (bufs ?t) (disk ?t)"
      using bio_okD(3) [OF assms(1)] assms(4) v unfolding p(2) by (auto simp: clean_ok_def released_def)
    show "dev_ok (bufs ?t)" using bio_okD(4) [OF assms(1)] unfolding p(3) by (auto simp: dev_ok_def)
    show "locks_ok ?t"
      using bio_okD(5) [OF assms(1)] by (auto simp: locks_ok_def d(4)) (auto simp: released_def)
    show "quiet ?t" using q by (simp add: released_def)
  qed
  moreover have ca: "cached (bufs ?t) ROOTDEV x = cached (bufs s) ROOTDEV x" for x
    unfolding p(4) by (rule cached_keep) simp_all
  have "blk ?t = blk s"
    by (rule ext) (simp add: blk_def bcontent_def ca d split: option.splits, simp add: released_def)
  moreover have "brefs ?t = (brefs s)(b := brefs s b - 1)"
  proof
    fix x
    show "brefs ?t x = ((brefs s)(b := brefs s b - 1)) x"
      using c by (auto simp: brefs_def ca d dest!: cached_Some split: option.splits)
  qed
  moreover have "blocked ?t = (blocked s)(b := False)"
  proof
    fix x
    have sl: "slks ?t = (slks s)(Buf_slock i := \<lparr>slocked = False, spid = 0\<rparr>)" by (simp add: released_def)
    from cached_inj [OF c, of x] show "blocked ?t x = ((blocked s)(b := False)) x"
      unfolding blocked_def ca sl using c by (auto split: option.splits)
  qed
  ultimately show ?thesis by blast
qed


lemma released_holds: "holds s j c \<Longrightarrow> j \<noteq> i \<Longrightarrow> holds (released s i) j c"
  using same_bufsD [OF released_same [of "bufs s" i], of j]
  by (simp add: holds_def) (simp add: released_def owns_slk_def)

lemma released_rest [simp]:
  "disk (released s i) = disk s" "dwrites (released s i) = dwrites s"
  "bio_st.more (released s i) = bio_st.more s" "mem (released s i) = mem s"
  by (simp_all add: released_def)

text \<open>Writing a held buffer through to the disk.\<close>

definition written :: "'z bio_st_scheme \<Rightarrow> nat \<Rightarrow> 'z bio_st_scheme" where
  "written s b = s\<lparr>disk := (disk s)(b := blk s b), dwrites := dwrites s @ [(b, blk s b)]\<rparr>"

lemma bwrite_law:
  assumes "bio_ok s" "holds s i b"
  shows "bwrite i s = Ok () (written s b) \<and> bio_ok (written s b) \<and> blk (written s b) = blk s \<and>
    brefs (written s b) = brefs s \<and> blocked (written s b) = blocked s \<and> (\<forall>j c. holds (written s b) j c = holds s j c)"
proof -
  note v = holds_view [OF assms] and c = holds_cached [OF assms]
  have i: "owns_slk s (Buf_slock i)" using assms(2) by (simp add: holds_def)
  have "clean_ok (bufs s) ((disk s)(b := blk s b))"
    unfolding clean_ok_def
  proof (intro allI impI)
    fix j assume j: "j < NBUF" "refcnt (bufs s j) = 0" "valid (bufs s j)"
    then have "bdev (bufs s j) = ROOTDEV" using bio_okD(4) [OF assms(1)] by (auto simp: dev_ok_def)
    then have "blockno (bufs s j) = b \<Longrightarrow> j = i"
      using unique_okD [OF bio_okD(2) [OF assms(1)], of ROOTDEV j i b] assms(2) j(1) by (simp add: holds_def)
    with j v bio_okD(3) [OF assms(1)] show "bdata (bufs s j) = ((disk s)(b := blk s b)) (blockno (bufs s j))"
      by (auto simp: clean_ok_def)
  qed
  then have "bio_ok (written s b)"
    using assms(1) by (simp add: bio_ok_def bc_ok_def written_def locks_ok_def)
  moreover have "blk (written s b) = blk s"
  proof
    fix x show "blk (written s b) x = blk s x"
      using c v(1) assms(2) by (auto simp: blk_def bcontent_def written_def holds_def split: option.splits)
  qed
  moreover have "bwrite i s = Ok () (written s b)"
    using bwrite_run [OF bio_okD(1) [OF assms(1)] i] v by (simp add: written_def)
  moreover have "brefs (written s b) = brefs s" by (rule brefs_cong) (simp add: written_def)
  moreover have "blocked (written s b) = blocked s" by (rule blocked_cong) (simp_all add: written_def)
  moreover have "\<forall>j c. holds (written s b) j c = holds s j c" by (simp add: written_def holds_def owns_slk_def)
  ultimately show ?thesis by blast
qed

text \<open>Changing the data of a held buffer: what a client does between \<open>bread\<close> and \<open>brelse\<close>.\<close>

definition set_data :: "nat \<Rightarrow> (bytes \<Rightarrow> bytes) \<Rightarrow> (unit, 'z bio_st_scheme) kern" where
  "set_data i f = upd_buf i (\<lambda>c. c\<lparr>bdata := f (bdata c)\<rparr>)"

lemma upd_buf_law:
  assumes ok: "bio_ok s" and h: "holds s i b"
    and g: "\<And>c. bdev (g c) = bdev c \<and> blockno (g c) = blockno c \<and> valid (g c) = valid c \<and>
      bnext (g c) = bnext c \<and> bprev (g c) = bprev c"
    and r: "0 < refcnt (g (bufs s i))"
  defines "t \<equiv> s\<lparr>bufs := (bufs s)(i := g (bufs s i))\<rparr>"
  shows "bio_ok t" "blk t = (blk s)(b := bdata (g (bufs s i)))" "brefs t = (brefs s)(b := refcnt (g (bufs s i)))"
    "blocked t = blocked s" "holds t j c = holds s j c"
proof -
  note v = holds_view [OF ok h] and ca = holds_cached [OF ok h]
  have i: "i < NBUF" "valid (bufs s i)" using h by (simp_all add: holds_def)
  have c: "cached (bufs t) ROOTDEV x = cached (bufs s) ROOTDEV x" for x
    unfolding t_def by (simp add: cached_keep g)
  have x: "cached (bufs s) ROOTDEV x = Some i \<longleftrightarrow> x = b" for x
    by (rule cached_inj [OF ca])
  show "bio_ok t"
    unfolding bio_ok_def bc_ok_def t_def
  proof (intro conjI)
    note o = bio_okD [OF ok] and gi = g [of "bufs s i"]
    show "\<exists>xs. ring (bufs (s\<lparr>bufs := (bufs s)(i := g (bufs s i))\<rparr>)) xs" using o(6) gi by (simp add: ring_data)
    show "unique_ok (bufs (s\<lparr>bufs := (bufs s)(i := g (bufs s i))\<rparr>))"
      using o(2) gi by (simp add: unique_keep)
    show "clean_ok (bufs (s\<lparr>bufs := (bufs s)(i := g (bufs s i))\<rparr>)) (disk (s\<lparr>bufs := (bufs s)(i := g (bufs s i))\<rparr>))"
      using o(3) r by (auto simp: clean_ok_def)
    show "dev_ok (bufs (s\<lparr>bufs := (bufs s)(i := g (bufs s i))\<rparr>))"
      using o(4) gi i by (auto simp: dev_ok_def)
    show "locks_ok (s\<lparr>bufs := (bufs s)(i := g (bufs s i))\<rparr>)"
      using o(5) r by (auto simp: locks_ok_def)
    show "quiet (s\<lparr>bufs := (bufs s)(i := g (bufs s i))\<rparr>)" using o(1) by simp
  qed
  show "blk t = (blk s)(b := bdata (g (bufs s i)))"
  proof
    fix y show "blk t y = ((blk s)(b := bdata (g (bufs s i)))) y"
      unfolding blk_def bcontent_def c using x [of y] i g [of "bufs s i"]
      by (auto simp: t_def split: option.splits)
  qed
  show "brefs t = (brefs s)(b := refcnt (g (bufs s i)))"
  proof
    fix y show "brefs t y = ((brefs s)(b := refcnt (g (bufs s i)))) y"
      unfolding brefs_def c using x [of y] by (auto simp: t_def split: option.splits)
  qed
  have sl: "slks t = slks s" by (simp add: t_def)
  show "blocked t = blocked s"
    by (unfold fun_eq_iff blocked_def c sl) simp
  show "holds t j c = holds s j c" for j c
    using g [of "bufs s i"] by (auto simp: holds_def t_def owns_slk_def)
qed


section \<open>The interface of the buffer cache\<close>

text \<open>
  The abstract state of a cache: the content of every block as clients see it, how often it
  is referenced, whether it is locked, what is on the disk and what has been written there.
  Each operation is a function on it.
\<close>

record bview =
  content :: "nat \<Rightarrow> bytes"
  refs :: "nat \<Rightarrow> nat"
  taken :: "nat \<Rightarrow> bool"
  on_disk :: "nat \<Rightarrow> bytes"
  writes :: "(nat \<times> bytes) list"

definition a_read :: "nat \<Rightarrow> bview \<Rightarrow> bview" where
  "a_read b v = v\<lparr>refs := (refs v)(b := refs v b + 1), taken := (taken v)(b := True)\<rparr>"

definition a_release :: "nat \<Rightarrow> bview \<Rightarrow> bview" where
  "a_release b v = v\<lparr>refs := (refs v)(b := refs v b - 1), taken := (taken v)(b := False)\<rparr>"

definition a_write :: "nat \<Rightarrow> bview \<Rightarrow> bview" where
  "a_write b v = v\<lparr>on_disk := (on_disk v)(b := content v b), writes := writes v @ [(b, content v b)]\<rparr>"

definition a_set :: "nat \<Rightarrow> bytes \<Rightarrow> bview \<Rightarrow> bview" where
  "a_set b d v = v\<lparr>content := (content v)(b := d)\<rparr>"

definition a_pin :: "nat \<Rightarrow> bview \<Rightarrow> bview" where
  "a_pin b v = v\<lparr>refs := (refs v)(b := refs v b + 1)\<rparr>"

definition a_unpin :: "nat \<Rightarrow> bview \<Rightarrow> bview" where
  "a_unpin b v = v\<lparr>refs := (refs v)(b := refs v b - 1)\<rparr>"

lemmas a_defs = a_read_def a_release_def a_write_def a_set_def a_pin_def a_unpin_def

definition can_read :: "bview \<Rightarrow> nat \<Rightarrow> bool" where
  "can_read v b \<longleftrightarrow> \<not> taken v b \<and> (card {x. 0 < refs v x} < NBUF \<or> 0 < refs v b) \<and> refs v b < 2 ^ 32 - 1"

definition can_release :: "bview \<Rightarrow> nat \<Rightarrow> bool" where
  "can_release v b \<longleftrightarrow> refs v b < 2 ^ 32 \<and> (refs v b = 1 \<longrightarrow> content v b = on_disk v b)"

locale block_cache =
  fixes rd :: "nat \<Rightarrow> (nat, 's) kern"
    and wr rel pin unpin :: "nat \<Rightarrow> (unit, 's) kern"
    and getd :: "nat \<Rightarrow> (bytes, 's) kern"
    and setd :: "nat \<Rightarrow> (bytes \<Rightarrow> bytes) \<Rightarrow> (unit, 's) kern"
    and view :: "'s \<Rightarrow> bview"
    and mine :: "'s \<Rightarrow> nat \<Rightarrow> nat \<Rightarrow> bool"
    and ok :: "'s \<Rightarrow> bool"
    and rest :: "'s \<Rightarrow> 'r"
  assumes rd_law: "ok s \<Longrightarrow> can_read (view s) b \<Longrightarrow>
      \<exists>i t. rd b s = Ok i t \<and> ok t \<and> mine t i b \<and> view t = a_read b (view s) \<and> rest t = rest s \<and>
            (\<forall>j c. mine s j c \<longrightarrow> mine t j c)"
    and rel_law: "ok s \<Longrightarrow> mine s i b \<Longrightarrow> can_release (view s) b \<Longrightarrow>
      \<exists>t. rel i s = Ok () t \<and> ok t \<and> view t = a_release b (view s) \<and> rest t = rest s \<and>
          (\<forall>j c. mine s j c \<longrightarrow> c \<noteq> b \<longrightarrow> mine t j c)"
    and wr_law: "ok s \<Longrightarrow> mine s i b \<Longrightarrow>
      \<exists>t. wr i s = Ok () t \<and> ok t \<and> view t = a_write b (view s) \<and> rest t = rest s \<and>
          (\<forall>j c. mine t j c = mine s j c)"
    and setd_law: "ok s \<Longrightarrow> mine s i b \<Longrightarrow>
      \<exists>t. setd i f s = Ok () t \<and> ok t \<and> view t = a_set b (f (content (view s) b)) (view s) \<and> rest t = rest s \<and>
          (\<forall>j c. mine t j c = mine s j c)"
    and pin_law: "ok s \<Longrightarrow> mine s i b \<Longrightarrow> refs (view s) b < 2 ^ 32 - 1 \<Longrightarrow>
      \<exists>t. pin i s = Ok () t \<and> ok t \<and> view t = a_pin b (view s) \<and> rest t = rest s \<and>
          (\<forall>j c. mine t j c = mine s j c)"
    and unpin_law: "ok s \<Longrightarrow> mine s i b \<Longrightarrow> 1 < refs (view s) b \<Longrightarrow> refs (view s) b < 2 ^ 32 \<Longrightarrow>
      \<exists>t. unpin i s = Ok () t \<and> ok t \<and> view t = a_unpin b (view s) \<and> rest t = rest s \<and>
          (\<forall>j c. mine t j c = mine s j c)"
    and getd_law: "ok s \<Longrightarrow> mine s i b \<Longrightarrow> getd i s = Ok (content (view s) b) s"
    and mine_view: "ok s \<Longrightarrow> mine s i b \<Longrightarrow> taken (view s) b \<and> 0 < refs (view s) b"
begin

lemmas cache_laws = rd_law rel_law wr_law setd_law pin_law unpin_law getd_law mine_view

text \<open>Reading a block and letting it go again changes nothing a client can see.\<close>

lemma peek_law:
  assumes "ok s" "can_read (view s) b" "refs (view s) b = 0 \<Longrightarrow> content (view s) b = on_disk (view s) b"
  shows "\<exists>t. bind (rd b) (\<lambda>i. bind (getd i) (\<lambda>d. andthen (rel i) (ret (f d)))) s = Ok (f (content (view s) b)) t \<and>
    ok t \<and> view t = view s \<and> rest t = rest s"
proof -
  from rd_law [OF assms(1,2)] obtain i t where t: "rd b s = Ok i t" "ok t" "mine t i b"
    "view t = a_read b (view s)" "rest t = rest s" by blast
  have g: "getd i t = Ok (content (view s) b) t"
    using getd_law [OF t(2,3)] t(4) by (simp add: a_read_def)
  have "can_release (view t) b"
    using assms(2,3) t(4) by (auto simp: can_release_def can_read_def a_read_def)
  from rel_law [OF t(2,3) this] obtain u where u: "rel i t = Ok () u" "ok u"
    "view u = a_release b (view t)" "rest u = rest t" by blast
  have "view u = view s"
    using u(3) t(4) assms(2) by (auto simp: a_defs can_read_def fun_upd_idem)
  with t g u show ?thesis by (simp add: exec_simps)
qed

text \<open>
  The common core of \<open>write_log\<close> and \<open>install_trans\<close>: read block \<open>a\<close>, read block \<open>b\<close>, copy the
  data of one buffer into the other and write it to the disk. Both blocks stay locked.
\<close>

definition opened :: "nat \<Rightarrow> nat \<Rightarrow> bview \<Rightarrow> bview" where
  "opened a b v = a_read b (a_read a v)"

lemma open_two:
  assumes "ok s" "a \<noteq> b" "can_read (view s) a" "can_read (a_read a (view s)) b"
  shows "\<exists>i j t. rd a s = Ok i (fst t) \<and> rd b (fst t) = Ok j (snd t) \<and> ok (snd t) \<and> mine (snd t) i a \<and>
    mine (snd t) j b \<and> view (snd t) = opened a b (view s) \<and> rest (snd t) = rest s"
proof -
  from rd_law [OF assms(1,3)] obtain i t where t: "rd a s = Ok i t" "ok t" "mine t i a"
    "view t = a_read a (view s)" "rest t = rest s" by blast
  from assms(4) t(4) have "can_read (view t) b" by simp
  from rd_law [OF t(2) this] obtain j u where u: "rd b t = Ok j u" "ok u" "mine u j b"
    "view u = a_read b (view t)" "rest u = rest t" "\<forall>k c. mine t k c \<longrightarrow> mine u k c" by blast
  with t show ?thesis by (intro exI [of _ i] exI [of _ j] exI [of _ "(t, u)"]) (auto simp: opened_def)
qed

lemma copy_write:
  assumes "ok s" "mine s i a" "mine s j b"
  shows "\<exists>t. bind (getd i) (\<lambda>d. andthen (setd j (\<lambda>_. d)) (wr j)) s = Ok () t \<and> ok t \<and>
    view t = a_write b (a_set b (content (view s) a) (view s)) \<and> rest t = rest s \<and>
    (\<forall>k c. mine t k c = mine s k c)"
proof -
  note g = getd_law [OF assms(1,2)]
  from setd_law [OF assms(1,3), of "\<lambda>_. content (view s) a"] obtain t where t:
    "setd j (\<lambda>_. content (view s) a) s = Ok () t" "ok t" "view t = a_set b (content (view s) a) (view s)"
    "rest t = rest s" "\<forall>k c. mine t k c = mine s k c" by blast
  with assms(3) have "mine t j b" by blast
  from wr_law [OF t(2) this] obtain u where "wr j t = Ok () u" "ok u" "view u = a_write b (view t)"
    "rest u = rest t" "\<forall>k c. mine u k c = mine t k c" by blast
  with g t show ?thesis by (simp add: exec_simps)
qed

lemma close_two:
  assumes "ok s" "mine s i a" "mine s j b" "a \<noteq> b" "can_release (view s) a" "can_release (view s) b"
  shows "\<exists>t. andthen (rel i) (rel j) s = Ok () t \<and> ok t \<and> view t = a_release b (a_release a (view s)) \<and>
    rest t = rest s"
proof -
  from rel_law [OF assms(1,2,5)] obtain t where t: "rel i s = Ok () t" "ok t" "view t = a_release a (view s)"
    "rest t = rest s" "\<forall>k c. mine s k c \<longrightarrow> c \<noteq> a \<longrightarrow> mine t k c" by blast
  with assms(3,4) have j: "mine t j b" by blast
  have "can_release (view t) b" using assms(4,6) t(3) by (simp add: can_release_def a_release_def)
  from rel_law [OF t(2) j this] t show ?thesis by (auto simp: exec_simps)
qed

end

definition bview_of :: "'z bio_st_scheme \<Rightarrow> bview" where
  "bview_of s = \<lparr>content = blk s, refs = brefs s, taken = blocked s, on_disk = disk s, writes = dwrites s\<rparr>"

text \<open>The parts of the kernel state the buffer cache does not touch: not the run states of the
  processes, which \<open>wakeup\<close> changes.\<close>

definition rest_of :: "'z bio_st_scheme \<Rightarrow>
    (nat option \<times> (nat \<Rightarrow> proc) \<times> (nat \<Rightarrow> sleeplock) \<times> bytes \<times> nat \<times> layout \<times> 'z)" where
  "rest_of s = (curp s, (\<lambda>p. (procs s p)\<lparr>state := UNUSED\<rparr>), (\<lambda>i. slks s (Inode_slock i)), mem s, freelist s,
     lay s, bio_st.more s)"

lemma rest_of_wake [simp]: "rest_of (wake_upto n c s) = rest_of s"
  by (auto simp: rest_of_def fun_eq_iff wake_upto_def wake_procs_def woken_def)

lemma rest_of_upd [simp]:
  "rest_of (s\<lparr>bufs := B\<rparr>) = rest_of s" "rest_of (s\<lparr>disk := D\<rparr>) = rest_of s" "rest_of (s\<lparr>dwrites := W\<rparr>) = rest_of s"
  "rest_of (s\<lparr>slks := (slks s)(Buf_slock i := k)\<rparr>) = rest_of s"
  by (simp_all add: rest_of_def)

lemma rest_of_grabbed [simp]: "rest_of (grabbed s i d b) = rest_of s"
  unfolding grabbed_def by (simp add: rest_of_def)

lemma rest_of_released [simp]: "rest_of (released s i) = rest_of s"
  unfolding released_def rest_of_wake by (simp add: rest_of_def)

interpretation bcache: block_cache "bread ROOTDEV" bwrite brelse bpin bunpin "\<lambda>i. getb i bdata" set_data
  bview_of holds bio_ok rest_of
proof
  fix s :: "'a bio_st_scheme" and b
  assume ok: "bio_ok s" and c: "can_read (bview_of s) b"
  from c have "\<not> blocked s b" "card {x. 0 < brefs s x} < NBUF \<or> 0 < brefs s b" "brefs s b < 2 ^ 32 - 1"
    by (simp_all add: can_read_def bview_of_def)
  from bread_law [OF ok this] obtain i where i: "bread ROOTDEV b s = Ok i (grabbed s i ROOTDEV b)"
    "bio_ok (grabbed s i ROOTDEV b)" "holds (grabbed s i ROOTDEV b) i b" "\<forall>c. \<not> holds s i c"
    "blk (grabbed s i ROOTDEV b) = blk s" "brefs (grabbed s i ROOTDEV b) = (brefs s)(b := brefs s b + 1)"
    "blocked (grabbed s i ROOTDEV b) = (blocked s)(b := True)" by blast
  have "holds (grabbed s i ROOTDEV b) j c" if "holds s j c" for j c
    by (rule grabbed_holds [OF that]) (use i(4) that in auto)
  with i show "\<exists>i t. bread ROOTDEV b s = Ok i t \<and> bio_ok t \<and> holds t i b \<and> bview_of t = a_read b (bview_of s) \<and>
      rest_of t = rest_of s \<and> (\<forall>j c. holds s j c \<longrightarrow> holds t j c)"
    by (intro exI [of _ i] exI [of _ "grabbed s i ROOTDEV b"]) (simp add: bview_of_def a_read_def)
next
  fix s :: "'a bio_st_scheme" and i b
  assume ok: "bio_ok s" and h: "holds s i b" and c: "can_release (bview_of s) b"
  from c have "brefs s b < 2 ^ 32" "brefs s b = 1 \<Longrightarrow> blk s b = disk s b"
    by (simp_all add: can_release_def bview_of_def)
  note r = brelse_law [OF ok h this]
  have "holds (released s i) j c" if "holds s j c" "c \<noteq> b" for j c
    by (rule released_holds [OF that(1)]) (use that h in \<open>auto simp: holds_def\<close>)
  with r show "\<exists>t. brelse i s = Ok () t \<and> bio_ok t \<and> bview_of t = a_release b (bview_of s) \<and> rest_of t = rest_of s \<and>
      (\<forall>j c. holds s j c \<longrightarrow> c \<noteq> b \<longrightarrow> holds t j c)"
    by (intro exI [of _ "released s i"]) (simp add: bview_of_def a_release_def)
next
  fix s :: "'a bio_st_scheme" and i b
  assume ok: "bio_ok s" and h: "holds s i b"
  from bwrite_law [OF ok h] show "\<exists>t. bwrite i s = Ok () t \<and> bio_ok t \<and> bview_of t = a_write b (bview_of s) \<and>
      rest_of t = rest_of s \<and> (\<forall>j c. holds t j c = holds s j c)"
    by (intro exI [of _ "written s b"]) (auto simp: bview_of_def a_write_def written_def)
  note v = holds_view [OF ok h]
  show "getb i bdata s = Ok (content (bview_of s) b) s" using v by (simp add: getb_run bview_of_def)
  show "taken (bview_of s) b \<and> 0 < refs (bview_of s) b" using v by (simp add: bview_of_def)
  show "\<exists>t. set_data i f s = Ok () t \<and> bio_ok t \<and> bview_of t = a_set b (f (content (bview_of s) b)) (bview_of s) \<and>
      rest_of t = rest_of s \<and> (\<forall>j c. holds t j c = holds s j c)" for f
    using upd_buf_law [OF ok h, of "\<lambda>c. c\<lparr>bdata := f (bdata c)\<rparr>"] v
    by (simp add: set_data_def upd_buf_run bview_of_def a_set_def fun_upd_idem)
  show "\<exists>t. bpin i s = Ok () t \<and> bio_ok t \<and> bview_of t = a_pin b (bview_of s) \<and> rest_of t = rest_of s \<and>
      (\<forall>j c. holds t j c = holds s j c)" if "refs (bview_of s) b < 2 ^ 32 - 1"
    using upd_buf_law [OF ok h, of "\<lambda>c. c\<lparr>refcnt := refcnt c + 1\<rparr>"] v that bpin_run [OF bio_okD(1) [OF ok], of i]
    by (simp add: bview_of_def a_pin_def fun_upd_idem)
  show "\<exists>t. bunpin i s = Ok () t \<and> bio_ok t \<and> bview_of t = a_unpin b (bview_of s) \<and> rest_of t = rest_of s \<and>
      (\<forall>j c. holds t j c = holds s j c)" if "1 < refs (bview_of s) b" "refs (bview_of s) b < 2 ^ 32"
    using upd_buf_law [OF ok h, of "\<lambda>c. c\<lparr>refcnt := refcnt c - 1\<rparr>"] v that bunpin_run [OF bio_okD(1) [OF ok], of i]
    by (simp add: bview_of_def a_unpin_def fun_upd_idem)
qed


section \<open>Initialisation\<close>

lemma binit_link_run:
  "binit_link b s =
     Ok () (s\<lparr>bufs := push_buf (bufs s) b, slks := (slks s)(Buf_slock b := \<lparr>slocked = False, spid = 0\<rparr>)\<rparr>)"
  by (cases "slks s (Buf_slock b)")
     (simp add: binit_link_def exec_simps initsleeplock_def push_buf_def Let_def fun_upd_same del: fun_upd_apply)

fun binit_bufs :: "nat \<Rightarrow> (nat \<Rightarrow> buf) \<Rightarrow> nat \<Rightarrow> buf" where
  "binit_bufs 0 B = B(HEAD := (B HEAD)\<lparr>bprev := HEAD, bnext := HEAD\<rparr>)"
| "binit_bufs (Suc k) B = push_buf (binit_bufs k B) k"

definition binit_slks :: "nat \<Rightarrow> (slock \<Rightarrow> sleeplock) \<Rightarrow> slock \<Rightarrow> sleeplock" where
  "binit_slks k S l = (case l of Buf_slock i \<Rightarrow> if i < k then \<lparr>slocked = False, spid = 0\<rparr> else S l | _ \<Rightarrow> S l)"

lemma binit_slks_Suc:
  "(binit_slks k S)(Buf_slock k := \<lparr>slocked = False, spid = 0\<rparr>) = binit_slks (Suc k) S"
  by (auto simp: binit_slks_def fun_eq_iff less_Suc_eq split: slock.splits)

lemma binit_run: "binit s = Ok () (s\<lparr>bufs := binit_bufs NBUF (bufs s), slks := binit_slks NBUF (slks s)\<rparr>)"
proof -
  let ?s = "s\<lparr>bufs := binit_bufs 0 (bufs s)\<rparr>"
  have "mfor [0..<k] binit_link ?s = Ok () (s\<lparr>bufs := binit_bufs k (bufs s), slks := binit_slks k (slks s)\<rparr>)" for k
  proof (induction k)
    case 0
    have "binit_slks 0 (slks s) = slks s" by (auto simp: binit_slks_def fun_eq_iff split: slock.splits)
    then show ?case by (simp add: ret_run)
  next
    case (Suc k)
    then show ?case
      by (simp add: mfor_append bind_run_Ok ret_run binit_link_run binit_slks_Suc)
  qed
  from this [of NBUF] show ?thesis
    by (simp add: binit_def exec_simps)
qed

lemma binit_ring:
  assumes "k \<le> NBUF"
  shows "dseg (nexts (binit_bufs k B)) (prevs (binit_bufs k B)) HEAD (rev [0..<k]) HEAD"
  using assms
proof (induction k)
  case 0
  show ?case by (simp add: nexts_def prevs_def)
next
  case (Suc k)
  then have k: "k \<noteq> HEAD" and d: "dseg (nexts (binit_bufs k B)) (prevs (binit_bufs k B)) HEAD (rev [0..<k]) HEAD" by auto
  have e: "rev [0..<Suc k] = k # rev [0..<k]" by simp
  show ?case
    unfolding e binit_bufs.simps push_links [OF k]
    by (rule dseg_push [OF d]) (use Suc.prems in auto)
qed

lemma binit_same: "same_bufs (binit_bufs k B) B"
proof (induction k)
  case 0
  show ?case by (auto simp: same_bufs_def erase_eq)
next
  case (Suc k)
  show ?case
    unfolding binit_bufs.simps push_buf_def Let_def by (intro same_bufs_step Suc)
qed

section \<open>Properties\<close>

text \<open>
  C10: \<open>binit\<close>, called by \<open>main\<close> on the zeroed cache before any process exists, returns and establishes the
  invariant of the cache: the ring contains every buffer exactly once (the last initialised first), nothing is cached or locked,
  every block reads as on the disk. The first process that runs, holding no spin lock, finds the cache ready for use.
\<close>

theorem binit_establishes:
  assumes "\<forall>i < NBUF. \<not> valid (bufs s i) \<and> bdev (bufs s i) = 0 \<and> refcnt (bufs s i) = 0"
  shows "\<exists>t. binit s = Ok () t \<and> curp t = curp s \<and> held t = held s \<and> bc_ok t \<and> ring (bufs t) (rev [0..<NBUF]) \<and> blk t = disk s \<and>
    (\<forall>i < NBUF. \<not> slocked (slks t (Buf_slock i))) \<and>
    (\<forall>p. held s = (\<lambda>_. False) \<and> depth s = 0 \<longrightarrow> bio_ok (t\<lparr>curp := Some p\<rparr>))"
proof -
  let ?t = "s\<lparr>bufs := binit_bufs NBUF (bufs s), slks := binit_slks NBUF (slks s)\<rparr>"
  note d = same_bufsD [OF binit_same [of NBUF "bufs s"]]
  have r: "ring (bufs ?t) (rev [0..<NBUF])"
    using binit_ring [of NBUF "bufs s"] by (auto simp: ring_def)
  have bc: "bc_ok ?t"
    unfolding bc_ok_def
  proof (intro conjI)
    show "\<exists>xs. ring (bufs ?t) xs" using r by blast
    show "unique_ok (bufs ?t)" "clean_ok (bufs ?t) (disk ?t)" "dev_ok (bufs ?t)"
      using assms by (simp_all add: unique_ok_def clean_ok_def dev_ok_def d)
    show "locks_ok ?t" by (simp add: locks_ok_def binit_slks_def)
  qed
  moreover have "bio_ok (?t\<lparr>curp := Some p\<rparr>)" if "held s = (\<lambda>_. False)" "depth s = 0" for p
    using bc that by (simp add: bio_ok_def bc_ok_def locks_ok_def quiet_def)
  moreover have "\<forall>i < NBUF. \<not> slocked (slks ?t (Buf_slock i))" by (simp add: binit_slks_def)
  moreover have "cached (bufs ?t) ROOTDEV b = None" for b
    using assms by (auto simp: cached_None d)
  then have "blk ?t = disk s" by (auto simp: blk_def bcontent_def fun_eq_iff)
  ultimately show ?thesis using r binit_run by (intro exI [of _ ?t]) simp
qed

definition buf0 :: buf where
  "buf0 = \<lparr>valid = False, bdev = 0, blockno = 0, refcnt = 0, bprev = 0, bnext = 0, bdata = (\<lambda>_. 0)\<rparr>"

text \<open>The kernel in \<open>main\<close> before \<open>binit\<close>: no process, zeroed buffers.\<close>

definition bio_raw :: bio_st where
  "bio_raw = \<lparr>held = (\<lambda>_. False), depth = 0, procs = (\<lambda>_. proc0),
     curp = None, nextpid = 1, initproc = None, ticks = 0, slks = (\<lambda>_. \<lparr>slocked = False, spid = 0\<rparr>),
     mem = (\<lambda>_. 0), freelist = 0, lay = \<lparr>kend = 0x80021d60, etext = 0x80008000, trampoline = 0x80007000,
       forkret_va = 0x80001a00\<rparr>, bufs = (\<lambda>_. buf0), disk = (\<lambda>b _. word_of_nat b), dwrites = []\<rparr>"

lemma bio_raw_ok: "\<forall>i < NBUF. \<not> valid (bufs bio_raw i) \<and> bdev (bufs bio_raw i) = 0 \<and> refcnt (bufs bio_raw i) = 0"
  "held bio_raw = (\<lambda>_. False) \<and> depth bio_raw = 0" "curp bio_raw = None"
  by (simp_all add: bio_raw_def buf0_def)

theorem binit_establishes_witness:
  "\<exists>t. binit bio_raw = Ok () t \<and> curp t = None \<and> bc_ok t \<and> ring (bufs t) (rev [0..<NBUF]) \<and> bio_ok (t\<lparr>curp := Some 0\<rparr>)"
  using binit_establishes [OF bio_raw_ok(1)] bio_raw_ok(2,3) by auto

lemma binit_fresh:
  fixes s :: "'z bio_st_scheme"
  assumes q: "quiet s" and b: "bufs s = binit_bufs NBUF (\<lambda>_. buf0)" and l: "\<forall>i. \<not> slocked (slks s (Buf_slock i))"
  shows "bio_ok s" "bview_of s = \<lparr>content = disk s, refs = (\<lambda>_. 0), taken = (\<lambda>_. False), on_disk = disk s, writes = dwrites s\<rparr>"
proof -
  let ?B = "binit_bufs NBUF (\<lambda>_. buf0)"
  note d = same_bufsD [OF binit_same [of NBUF "\<lambda>_. buf0"]]
  have r: "ring ?B (rev [0..<NBUF])" using binit_ring [of NBUF "\<lambda>_. buf0"] by (auto simp: ring_def)
  show "bio_ok s"
    unfolding bio_ok_def bc_ok_def b
  proof (intro conjI)
    show "\<exists>xs. ring ?B xs" using r by blast
    show "unique_ok ?B" "clean_ok ?B (disk s)" "dev_ok ?B"
      by (simp_all add: unique_ok_def clean_ok_def dev_ok_def d) (simp_all add: buf0_def)
    show "locks_ok s" using l by (simp add: locks_ok_def)
  qed (rule q)
  have "bdev (?B i) = 0" for i unfolding d(2) by (simp add: buf0_def)
  then have "cached ?B ROOTDEV x = None" for x by (auto simp: cached_None)
  then show "bview_of s = \<lparr>content = disk s, refs = (\<lambda>_. 0), taken = (\<lambda>_. False), on_disk = disk s, writes = dwrites s\<rparr>"
    using l by (simp add: bview_of_def fun_eq_iff blk_def bcontent_def brefs_def blocked_def b)
qed

text \<open>The kernel after \<open>binit\<close>, with the first process running, on a given disk.\<close>

definition bio_start :: "(nat \<Rightarrow> bytes) \<Rightarrow> 'z \<Rightarrow> 'z bio_st_scheme" where
  "bio_start D m = \<lparr>held = (\<lambda>_. False), depth = 0, procs = (\<lambda>_. proc0)(0 := proc0\<lparr>state := RUNNING, pid := 1\<rparr>),
     curp = Some 0, nextpid = 2, initproc = Some 0, ticks = 0, slks = (\<lambda>_. \<lparr>slocked = False, spid = 0\<rparr>),
     mem = (\<lambda>_. 0), freelist = 0, lay = \<lparr>kend = 0x80021d60, etext = 0x80008000, trampoline = 0x80007000,
       forkret_va = 0x80001a00\<rparr>, bufs = binit_bufs NBUF (\<lambda>_. buf0), disk = D, dwrites = [], \<dots> = m\<rparr>"

lemma bio_start_ok: "bio_ok (bio_start D m)"
  "bview_of (bio_start D m) = \<lparr>content = D, refs = (\<lambda>_. 0), taken = (\<lambda>_. False), on_disk = D, writes = []\<rparr>"
  using binit_fresh [of "bio_start D m"] by (simp_all add: bio_start_def quiet_def)

definition bio_boot :: bio_st where
  "bio_boot = bio_start (\<lambda>b _. word_of_nat b) ()"

lemma bio_boot_ok: "bio_ok bio_boot" "bview_of bio_boot = \<lparr>content = (\<lambda>b _. word_of_nat b), refs = (\<lambda>_. 0),
    taken = (\<lambda>_. False), on_disk = (\<lambda>b _. word_of_nat b), writes = []\<rparr>"
  by (simp_all add: bio_boot_def bio_start_ok)

lemma bio_boot_bufs: "bufs bio_boot = binit_bufs NBUF (\<lambda>_. buf0)" "slks bio_boot = (\<lambda>_. \<lparr>slocked = False, spid = 0\<rparr>)"
  by (simp_all add: bio_boot_def bio_start_def)

text \<open>
  C8: the buffer cache implements its abstract state. From every state satisfying the
  invariant, \<open>bread\<close> of an unlocked block returns (provided a buffer is free or the block is
  referenced), its buffer holds what clients last saw of the block, and the invariant holds
  again; \<open>bwrite\<close> and \<open>brelse\<close> of that buffer return, and the abstract state changes exactly as
  \<open>a_read\<close>, \<open>a_write\<close> and \<open>a_release\<close> say. In particular no block is ever cached twice, eviction
  loses no data, and no other kernel state changes.
\<close>

theorem bcache_refines_blocks:
  assumes "bio_ok s" and "can_read (bview_of s) b"
  shows "\<exists>i t. bread ROOTDEV b s = Ok i t \<and> bio_ok t \<and> bview_of t = a_read b (bview_of s) \<and>
    bdata (bufs t i) = blk s b \<and> blockno (bufs t i) = b \<and> rest_of t = rest_of s \<and>
    (\<exists>u. bwrite i t = Ok () u \<and> bio_ok u \<and> bview_of u = a_write b (bview_of t) \<and>
      (\<exists>v. brelse i u = Ok () v \<and> bio_ok v \<and> bview_of v = a_release b (bview_of u) \<and> rest_of v = rest_of s))"
proof -
  from bcache.rd_law [OF assms] obtain i t where t: "bread ROOTDEV b s = Ok i t" "bio_ok t" "holds t i b"
    "bview_of t = a_read b (bview_of s)" "rest_of t = rest_of s" by blast
  from bcache.wr_law [OF t(2,3)] obtain u where u: "bwrite i t = Ok () u" "bio_ok u"
    "bview_of u = a_write b (bview_of t)" "rest_of u = rest_of t" "holds u i b" using t(3) by blast
  have "can_release (bview_of u) b"
    using assms(2) t(4) u(3) by (simp add: can_release_def can_read_def a_write_def a_read_def)
  from bcache.rel_law [OF u(2,5) this] obtain v where v: "brelse i u = Ok () v" "bio_ok v"
    "bview_of v = a_release b (bview_of u)" "rest_of v = rest_of u" by blast
  have "bdata (bufs t i) = blk t b" "blockno (bufs t i) = b" using holds_view [OF t(2,3)] by simp_all
  moreover have "blk t = blk s" using t(4) by (simp add: bview_of_def a_read_def)
  ultimately show ?thesis using t u v by metis
qed

theorem bcache_refines_blocks_witness:
  "\<exists>i t. bread ROOTDEV 7 bio_boot = Ok i t \<and> bio_ok t \<and> bdata (bufs t i) 0 = 7"
proof -
  have "can_read (bview_of bio_boot) 7" by (simp add: can_read_def bio_boot_ok(2) NBUF_def)
  from bcache_refines_blocks [OF bio_boot_ok(1) this]
  obtain i t where "bread ROOTDEV 7 bio_boot = Ok i t" "bio_ok t" "bdata (bufs t i) = blk bio_boot 7" by blast
  moreover have "blk bio_boot 7 0 = 7" using bio_boot_ok(2) by (simp add: bview_of_def)
  ultimately show ?thesis by auto
qed

text \<open>
  C9: replacement is least recently used. With the ring in the order \<open>xs\<close>, \<open>bread\<close> of an uncached
  block recycles the last unreferenced buffer of \<open>xs\<close> and keeps the order; \<open>brelse\<close> of the last
  reference moves the buffer to the front. When no buffer is unreferenced, \<open>bread\<close> panics.
\<close>

theorem bcache_lru:
  assumes "bio_ok s" and "ring (bufs s) xs" and "cached (bufs s) ROOTDEV b = None"
  shows "(case filter (\<lambda>i. refcnt (bufs s i) = 0) xs of
            [] \<Rightarrow> bread ROOTDEV b s = Panic ''bget: no buffers''
          | ys \<Rightarrow> \<exists>t. bread ROOTDEV b s = Ok (last ys) t \<and> ring (bufs t) xs)
       \<and> (\<forall>i. holds s i c \<and> brefs s c = 1 \<longrightarrow> (\<exists>t. brelse i s = Ok () t \<and> ring (bufs t) (i # remove1 i xs)))"
proof (rule conjI)
  note o = bio_okD [OF assms(1)]
  show "case filter (\<lambda>i. refcnt (bufs s i) = 0) xs of
            [] \<Rightarrow> bread ROOTDEV b s = Panic ''bget: no buffers''
          | ys \<Rightarrow> \<exists>t. bread ROOTDEV b s = Ok (last ys) t \<and> ring (bufs t) xs"
  proof (cases "filter (\<lambda>i. refcnt (bufs s i) = 0) xs")
    case Nil
    have "bget ROOTDEV b s = Panic ''bget: no buffers''"
      by (rule bget_full [OF o(1) assms(2) o(2) _ assms(3)]) (use Nil in \<open>auto simp: filter_empty_conv\<close>)
    with Nil show ?thesis by (simp add: bread_def exec_simps)
  next
    case (Cons y ys)
    have f: "List.find (\<lambda>i. refcnt (bufs s i) = 0) (rev xs) = Some (last (y # ys))"
      unfolding Cons [symmetric] by (rule find_rev_last) (simp add: Cons)
    then have p: "bpick (bufs s) xs ROOTDEV b = Some (last (y # ys))" by (simp add: bpick_def assms(3))
    have z: "refcnt (bufs s (last (y # ys))) = 0" using bpick_cases [OF assms(2) p] assms(3) by simp
    have "bread ROOTDEV b s = Ok (last (y # ys)) (grabbed s (last (y # ys)) ROOTDEV b)"
      by (rule bread_run [OF o(1) assms(2) o(2) _ p]) (use z bpick_less [OF assms(2) p] o(5) in \<open>auto simp: locks_ok_def\<close>)
    with assms(2) Cons show ?thesis by (simp add: grabbed_def ring_data)
  qed
  show "\<forall>i. holds s i c \<and> brefs s c = 1 \<longrightarrow> (\<exists>t. brelse i s = Ok () t \<and> ring (bufs t) (i # remove1 i xs))"
  proof (intro allI impI, elim conjE)
    fix i assume h: "holds s i c" "brefs s c = 1"
    have "brelse i s = Ok () (released s i)"
      by (rule brelse_run [OF o(1)]) (use h holds_view [OF assms(1) h(1)] in \<open>auto simp: holds_def\<close>)
    with released_ring [OF assms(2), of i] h holds_view(2) [OF assms(1) h(1)]
    show "\<exists>t. brelse i s = Ok () t \<and> ring (bufs t) (i # remove1 i xs)"
      by (auto simp: holds_def released_def)
  qed
qed

theorem bcache_lru_witness: "\<exists>t. bread ROOTDEV 7 bio_boot = Ok 0 t \<and> ring (bufs t) (rev [0..<NBUF])"
proof -
  note d = same_bufsD [OF binit_same [of NBUF "\<lambda>_. buf0"]]
  have r: "ring (bufs bio_boot) (rev [0..<NBUF])"
    using binit_ring [of NBUF "\<lambda>_. buf0"] by (auto simp: ring_def bio_boot_bufs)
  have "bdev (bufs bio_boot i) = 0" for i by (simp add: bio_boot_bufs d(2)) (simp add: buf0_def)
  then have c: "cached (bufs bio_boot) ROOTDEV 7 = None" by (auto simp: cached_None)
  have f: "filter (\<lambda>i. refcnt (bufs bio_boot i) = 0) (rev [0..<NBUF]) = rev [0..<NBUF]"
    by (simp add: bio_boot_bufs d(4)) (simp add: buf0_def)
  have n: "rev [0..<NBUF] = 29 # rev [0..<29]" by (simp add: NBUF_def upt_rec)
  have "last (rev [0..<NBUF]) = 0" by (simp add: last_rev NBUF_def)
  with bcache_lru [OF bio_boot_ok(1) r c] show ?thesis unfolding f by (simp add: n)
qed

end
