(* ===== verification/Log.thy ===== *)
theory Log
  imports Bio
begin

text \<open>
  The write-ahead log (\<open>log.c\<close>). The operations run on the buffer cache; what they do is then
  stated on its abstract state. The main result is crash safety: whichever prefix of the
  disk writes of a commit has happened when the machine stops, recovery at the next boot
  leaves either none or all of the transaction's blocks. The reservation protocol of
  \<open>begin_op\<close> and \<open>end_op\<close> is an interleaving of any number of file system operations.
\<close>

section \<open>The log\<close>

definition MAXOPBLOCKS :: int where "MAXOPBLOCKS = 10"
definition LOGSIZE :: int where "LOGSIZE = MAXOPBLOCKS * 3"

text \<open>The fields of \<open>struct log\<close>; \<open>lhn\<close> and \<open>lhblock\<close> are \<open>log.lh\<close>.\<close>

record log =
  lstart :: nat
  lsize :: int
  outstanding :: int
  committing :: bool
  ldev :: nat
  lhn :: int
  lhblock :: "nat \<Rightarrow> nat"

record superblock =
  magic :: nat
  fssize :: nat
  nblocks :: nat
  ninodes :: nat
  nlog :: nat
  logstart :: nat
  inodestart :: nat
  bmapstart :: nat

record log_st = bio_st +
  lg :: log

definition upd_log :: "(log \<Rightarrow> log) \<Rightarrow> (unit, 'z log_st_scheme) kern" where
  "upd_log f = upd (\<lambda>s. s\<lparr>lg := f (lg s)\<rparr>)"

definition getl :: "(log \<Rightarrow> 'a) \<Rightarrow> ('a, 'z log_st_scheme) kern" where
  "getl f = gets (\<lambda>s. f (lg s))"

text \<open>The header block: \<open>n\<close>, then the block numbers, four bytes each.\<close>

definition head_n :: "bytes \<Rightarrow> int" where
  "head_n d = int32 (le_get d 0 4)"

definition head_block :: "bytes \<Rightarrow> nat \<Rightarrow> nat" where
  "head_block d i = le_get d (4 + 4 * i) 4"

definition put_head :: "int \<Rightarrow> (nat \<Rightarrow> nat) \<Rightarrow> bytes \<Rightarrow> bytes" where
  "put_head n bl d = fold (\<lambda>i d. le_put d (4 + 4 * i) 4 (bl i)) [0..<nat n] (le_put d 0 4 (nat32 n))"

text \<open>A header with more than \<open>LOGSIZE\<close> blocks would overrun the array \<open>lh.block[LOGSIZE]\<close>.\<close>

definition read_head :: "(unit, 'z log_st_scheme) kern" where
  "read_head =
     bind (getl ldev) (\<lambda>dev. bind (getl lstart) (\<lambda>st.
     bind (bread dev st) (\<lambda>buf.
     bind (getb buf bdata) (\<lambda>d.
     andthen (upd_log (\<lambda>l. l\<lparr>lhn := head_n d\<rparr>)) (
     bind (getl lhn) (\<lambda>n.
     if n > LOGSIZE then diverge else
     andthen (mfor [0..<nat n] (\<lambda>i. upd_log (\<lambda>l. l\<lparr>lhblock := (lhblock l)(i := head_block d i)\<rparr>))) (
     brelse buf)))))))"

definition write_head :: "(unit, 'z log_st_scheme) kern" where
  "write_head =
     bind (getl ldev) (\<lambda>dev. bind (getl lstart) (\<lambda>st.
     bind (bread dev st) (\<lambda>buf.
     bind (getl lhn) (\<lambda>n. bind (getl lhblock) (\<lambda>bl.
     andthen (set_data buf (put_head n bl)) (
     andthen (bwrite buf) (
     brelse buf)))))))"

text \<open>One iteration of \<open>install_trans\<close>; \<open>memmove\<close> of a whole block is an assignment of its data.\<close>

definition install_one :: "bool \<Rightarrow> nat \<Rightarrow> (unit, 'z log_st_scheme) kern" where
  "install_one recovering tail =
     bind (getl ldev) (\<lambda>dev. bind (getl lstart) (\<lambda>st.
     bind (bread dev (st + tail + 1)) (\<lambda>lbuf.
     bind (getl (\<lambda>l. lhblock l tail)) (\<lambda>b.
     bind (bread dev b) (\<lambda>dbuf.
     andthen (bind (getb lbuf bdata) (\<lambda>d. andthen (set_data dbuf (\<lambda>_. d)) (bwrite dbuf))) (
     andthen (if \<not> recovering then bunpin dbuf else ret ()) (
     andthen (brelse lbuf) (
     brelse dbuf))))))))"

definition install_trans :: "bool \<Rightarrow> (unit, 'z log_st_scheme) kern" where
  "install_trans recovering = bind (getl lhn) (\<lambda>n. mfor [0..<nat n] (install_one recovering))"

definition recover_from_log :: "(unit, 'z log_st_scheme) kern" where
  "recover_from_log =
     andthen read_head (
     andthen (install_trans True) (
     andthen (upd_log (\<lambda>l. l\<lparr>lhn := 0\<rparr>)) (
     write_head)))"

text \<open>\<open>sizeof(struct logheader)\<close> is 124, so the first test of \<open>initlog\<close> is false.\<close>

definition initlog :: "nat \<Rightarrow> superblock \<Rightarrow> (unit, 'z log_st_scheme) kern" where
  "initlog dev sb =
     (if 4 + 4 * nat LOGSIZE \<ge> BSIZE then panic ''initlog: too big logheader'' else
      andthen (upd_log (\<lambda>l. l\<lparr>lstart := logstart sb\<rparr>)) (
      andthen (upd_log (\<lambda>l. l\<lparr>lsize := int32 (nlog sb)\<rparr>)) (
      andthen (upd_log (\<lambda>l. l\<lparr>ldev := dev\<rparr>)) (
      recover_from_log))))"

definition begin_op :: "(unit, 'z log_st_scheme) kern" where
  "begin_op =
     andthen (k_acquire Log_lock) (
     bind (getl id) (\<lambda>l.
     if committing l then sleep_on Chan_log Log_lock
     else if lhn l + (outstanding l + 1) * MAXOPBLOCKS > LOGSIZE then sleep_on Chan_log Log_lock
     else andthen (upd_log (\<lambda>l. l\<lparr>outstanding := outstanding l + 1\<rparr>)) (
          k_release Log_lock)))"

definition write_one :: "nat \<Rightarrow> (unit, 'z log_st_scheme) kern" where
  "write_one tail =
     bind (getl ldev) (\<lambda>dev. bind (getl lstart) (\<lambda>st.
     bind (bread dev (st + tail + 1)) (\<lambda>to.
     bind (getl (\<lambda>l. lhblock l tail)) (\<lambda>b.
     bind (bread dev b) (\<lambda>from.
     andthen (bind (getb from bdata) (\<lambda>d. andthen (set_data to (\<lambda>_. d)) (bwrite to))) (
     andthen (brelse from) (
     brelse to)))))))"

definition write_log :: "(unit, 'z log_st_scheme) kern" where
  "write_log = bind (getl lhn) (\<lambda>n. mfor [0..<nat n] write_one)"

definition commit :: "(unit, 'z log_st_scheme) kern" where
  "commit = bind (getl lhn) (\<lambda>n.
     if n > 0 then
       andthen write_log (
       andthen write_head (
       andthen (install_trans False) (
       andthen (upd_log (\<lambda>l. l\<lparr>lhn := 0\<rparr>)) (
       write_head))))
     else ret ())"

definition end_op :: "(unit, 'z log_st_scheme) kern" where
  "end_op =
     andthen (k_acquire Log_lock) (
     andthen (upd_log (\<lambda>l. l\<lparr>outstanding := outstanding l - 1\<rparr>)) (
     bind (getl id) (\<lambda>l.
     if committing l then panic ''log.committing'' else
     bind (if outstanding l = 0 then
             andthen (upd_log (\<lambda>l. l\<lparr>committing := True\<rparr>)) (ret True)
           else andthen (wakeup Chan_log) (ret False)) (\<lambda>do_commit.
     andthen (k_release Log_lock) (
     if do_commit then
       andthen commit (
       andthen (k_acquire Log_lock) (
       andthen (upd_log (\<lambda>l. l\<lparr>committing := False\<rparr>)) (
       andthen (wakeup Chan_log) (
       k_release Log_lock))))
     else ret ())))))"

text \<open>The loop of \<open>log_write\<close> stops at the first slot with this block, or at \<open>lh.n\<close>.\<close>

definition log_slot :: "log \<Rightarrow> nat \<Rightarrow> nat" where
  "log_slot l b = length (takeWhile (\<lambda>i. lhblock l i \<noteq> b) [0..<nat (lhn l)])"

definition log_write :: "nat \<Rightarrow> (unit, 'z log_st_scheme) kern" where
  "log_write buf =
     andthen (k_acquire Log_lock) (
     bind (getl id) (\<lambda>l.
     if lhn l \<ge> LOGSIZE \<or> lhn l \<ge> lsize l - 1 then panic ''too big a transaction'' else
     if outstanding l < 1 then panic ''log_write outside of trans'' else
     bind (getb buf blockno) (\<lambda>b.
     bind (getl (\<lambda>l. log_slot l b)) (\<lambda>i.
     andthen (upd_log (\<lambda>l. l\<lparr>lhblock := (lhblock l)(i := b)\<rparr>)) (
     andthen (if int i = lhn l then andthen (bpin buf) (upd_log (\<lambda>l. l\<lparr>lhn := lhn l + 1\<rparr>)) else ret ()) (
     k_release Log_lock))))))"

lemma upd_log_run [exec_simps]: "upd_log f s = Ok () (s\<lparr>lg := f (lg s)\<rparr>)"
  by (simp add: upd_log_def upd_run)

lemma getl_run [exec_simps]: "getl f s = Ok (f (lg s)) s"
  by (simp add: getl_def gets_run)

section \<open>Header blocks\<close>

lemma put_head_n:
  assumes "0 \<le> n" "n \<le> 254"
  shows "head_n (put_head n bl d) = n"
proof -
  have "le_get (fold (\<lambda>i d. le_put d (4 + 4 * i) 4 (bl i)) [0..<k] e) 0 4 = le_get e 0 4" for k e
    by (induction k) (auto simp: le_get_put_other)
  then show ?thesis
    using assms by (simp add: head_n_def put_head_def le_get_put_same)
qed

lemma put_head_block:
  assumes "i < nat n" "bl i < 2 ^ 32"
  shows "head_block (put_head n bl d) i = bl i"
proof -
  have "i < k \<Longrightarrow> le_get (fold (\<lambda>i d. le_put d (4 + 4 * i) 4 (bl i)) [0..<k] e) (4 + 4 * i) 4 = bl i" for k e
  proof (induction k)
    case (Suc k)
    then show ?case
      using assms(2) by (cases "i = k") (auto simp: le_get_put_same le_get_put_other)
  qed simp
  with assms(1) show ?thesis by (simp add: head_block_def put_head_def)
qed


section \<open>The log operations on the abstract state of the cache\<close>

definition apply_writes :: "(nat \<Rightarrow> bytes) \<Rightarrow> (nat \<times> bytes) list \<Rightarrow> nat \<Rightarrow> bytes" where
  "apply_writes D ws = fold (\<lambda>(b, d) D. D(b := d)) ws D"

lemma apply_writes_simps [simp]:
  "apply_writes D [] = D" "apply_writes D (w # ws) = apply_writes (D(fst w := snd w)) ws"
  "apply_writes D (ws @ ws') = apply_writes (apply_writes D ws) ws'"
  by (auto simp: apply_writes_def split: prod.splits)

lemma apply_writes_other: "b \<notin> fst ` set ws \<Longrightarrow> apply_writes D ws b = D b"
  by (induction ws arbitrary: D) auto

lemma apply_writes_at:
  assumes "distinct (map fst ws)" "(b, d) \<in> set ws"
  shows "apply_writes D ws b = d"
  using assms
proof (induction ws arbitrary: D)
  case (Cons w ws)
  show ?case
  proof (cases "w = (b, d)")
    case True
    with Cons.prems have "b \<notin> fst ` set ws" by auto
    with True show ?thesis by (simp add: apply_writes_other)
  next
    case False
    with Cons show ?thesis by auto
  qed
qed simp

text \<open>Blocks written through the cache: the cached content and the disk change alike.\<close>

definition a_writes :: "(nat \<times> bytes) list \<Rightarrow> bview \<Rightarrow> bview" where
  "a_writes ws v = v\<lparr>content := apply_writes (content v) ws, on_disk := apply_writes (on_disk v) ws,
     writes := writes v @ ws\<rparr>"

lemma a_writes_comp: "a_writes ws' (a_writes ws v) = a_writes (ws @ ws') v"
  by (simp add: a_writes_def)

lemma a_writes_sel [simp]:
  "refs (a_writes ws v) = refs v" "taken (a_writes ws v) = taken v"
  "content (a_writes ws v) = apply_writes (content v) ws"
  "on_disk (a_writes ws v) = apply_writes (on_disk v) ws" "writes (a_writes ws v) = writes v @ ws"
  by (simp_all add: a_writes_def)

lemma rest_lg: "rest_of s = rest_of t \<Longrightarrow> lg s = lg t"
  by (cases s, cases t) (auto simp: rest_of_def)

lemma mfor_view:
  assumes "bio_ok s" "I 0 (bview_of s)"
    and "\<And>i u. i < n \<Longrightarrow> bio_ok u \<Longrightarrow> I i (bview_of u) \<Longrightarrow> rest_of u = rest_of s \<Longrightarrow>
      \<exists>t. body i u = Ok () t \<and> bio_ok t \<and> I (Suc i) (bview_of t) \<and> rest_of t = rest_of u"
  shows "\<exists>t. mfor [0..<n] body s = Ok () t \<and> bio_ok t \<and> I n (bview_of t) \<and> rest_of t = rest_of s"
  using assms
proof (induction n)
  case 0
  then show ?case by (simp add: ret_run)
next
  case (Suc n)
  then obtain u where u: "mfor [0..<n] body s = Ok () u" "bio_ok u" "I n (bview_of u)" "rest_of u = rest_of s"
    by (metis less_Suc_eq)
  with Suc.prems(3) [of n u] obtain t where "body n u = Ok () t" "bio_ok t" "I (Suc n) (bview_of t)" "rest_of t = rest_of u"
    by auto
  with u show ?case by (simp add: mfor_append exec_simps)
qed

lemma write_one_view:
  fixes s :: "'z log_st_scheme"
  defines "v \<equiv> bview_of s"
  assumes ok: "bio_ok s" and dev: "ldev (lg s) = ROOTDEV"
    and a: "a = lstart (lg s) + tail + 1" and b: "b = lhblock (lg s) tail" and ab: "a \<noteq> b"
    and t: "\<not> taken v a" "\<not> taken v b" and r: "refs v a = 0" "refs v b = 1"
    and room: "card {x. 0 < refs v x} < NBUF"
  shows "\<exists>t. write_one tail s = Ok () t \<and> bio_ok t \<and> bview_of t = a_writes [(a, content v b)] v \<and> rest_of t = rest_of s"
proof -
  have "can_read v a" "can_read (a_read a v) b"
    using t r room ab by (simp_all add: can_read_def a_read_def)
  with bcache.open_two [OF ok ab] obtain i j u w where o: "bread ROOTDEV a s = Ok i u" "bread ROOTDEV b u = Ok j w"
    "bio_ok w" "holds w i a" "holds w j b" "bview_of w = bcache.opened a b v" "rest_of w = rest_of s"
    unfolding v_def by auto
  have lu: "lg u = lg s"
    using bcache.rd_law [OF ok, of a] \<open>can_read v a\<close> o(1) rest_lg unfolding v_def by fastforce
  from bcache.copy_write [OF o(3,5,4)] obtain x where x:
    "bind (getb j bdata) (\<lambda>d. andthen (set_data i (\<lambda>_. d)) (bwrite i)) w = Ok () x" "bio_ok x"
    "bview_of x = a_write a (a_set a (content (bview_of w) b) (bview_of w))" "rest_of x = rest_of w"
    "holds x i a" "holds x j b" using o(4,5) by blast
  have "can_release (bview_of x) a" "can_release (bview_of x) b"
    using x(3) o(6) r ab by (simp_all add: can_release_def a_defs bcache.opened_def)
  with bcache.close_two [OF x(2,6,5)] ab obtain y where y: "andthen (brelse j) (brelse i) x = Ok () y" "bio_ok y"
    "bview_of y = a_release a (a_release b (bview_of x))" "rest_of y = rest_of x" by blast
  have "bview_of y = a_writes [(a, content v b)] v"
    using y(3) x(3) o(6) r t ab
    by (intro bview.equality) (auto simp: a_defs a_writes_def bcache.opened_def fun_eq_iff)
  moreover have "write_one tail s = Ok () y"
    using o(1,2) x(1) y(1) lu by (simp add: write_one_def exec_simps dev a b)
  ultimately show ?thesis using y x o by auto
qed

lemma install_one_view:
  fixes s :: "'z log_st_scheme"
  defines "v \<equiv> bview_of s"
  assumes ok: "bio_ok s" and dev: "ldev (lg s) = ROOTDEV"
    and a: "a = lstart (lg s) + tail + 1" and b: "b = lhblock (lg s) tail" and ab: "a \<noteq> b"
    and t: "\<not> taken v a" "\<not> taken v b" and r: "refs v a = 0" "refs v b = (if recovering then 0 else 1)"
    and room: "card {x. 0 < refs v x} < NBUF" "recovering \<Longrightarrow> card (insert a {x. 0 < refs v x}) < NBUF"
    and c: "content v a = on_disk v a"
  shows "\<exists>t. install_one recovering tail s = Ok () t \<and> bio_ok t \<and>
    bview_of t = (a_writes [(b, content v a)] v)\<lparr>refs := (refs v)(b := 0)\<rparr> \<and> rest_of t = rest_of s"
proof -
  have "{x. 0 < refs (a_read a v) x} = insert a {x. 0 < refs v x}" using r by (auto simp: a_read_def)
  then have cr: "can_read v a" "can_read (a_read a v) b"
    using t r room ab by (auto simp: can_read_def a_read_def split: if_splits)
  with bcache.open_two [OF ok ab] obtain i j u w where o: "bread ROOTDEV a s = Ok i u" "bread ROOTDEV b u = Ok j w"
    "bio_ok w" "holds w i a" "holds w j b" "bview_of w = bcache.opened a b v" "rest_of w = rest_of s"
    unfolding v_def by auto
  have lu: "lg u = lg s"
    using bcache.rd_law [OF ok, of a] cr(1) o(1) rest_lg unfolding v_def by fastforce
  from bcache.copy_write [OF o(3,4,5)] obtain x where x:
    "bind (getb i bdata) (\<lambda>d. andthen (set_data j (\<lambda>_. d)) (bwrite j)) w = Ok () x" "bio_ok x"
    "bview_of x = a_write b (a_set b (content (bview_of w) a) (bview_of w))" "rest_of x = rest_of w"
    "holds x i a" "holds x j b" using o(4,5) by blast
  have rx: "refs (bview_of x) b = (if recovering then 1 else 2)"
    using x(3) o(6) r ab by (simp add: a_defs bcache.opened_def)
  have "\<exists>y. (if \<not> recovering then bunpin j else ret ()) x = Ok () y \<and> bio_ok y \<and>
      bview_of y = (bview_of x)\<lparr>refs := (refs (bview_of x))(b := 1)\<rparr> \<and> rest_of y = rest_of x \<and> holds y i a \<and> holds y j b"
  proof (cases recovering)
    case True
    with rx have "bview_of x = (bview_of x)\<lparr>refs := (refs (bview_of x))(b := 1)\<rparr>" by (simp add: fun_upd_idem)
    with True x show ?thesis by (auto simp: ret_run)
  next
    case False
    with bcache.unpin_law [OF x(2,6)] rx x(5,6) show ?thesis by (auto simp: a_unpin_def)
  qed
  then obtain y where y: "(if \<not> recovering then bunpin j else ret ()) x = Ok () y" "bio_ok y"
    "bview_of y = (bview_of x)\<lparr>refs := (refs (bview_of x))(b := 1)\<rparr>" "rest_of y = rest_of x" "holds y i a" "holds y j b"
    by blast
  have "can_release (bview_of y) a" "can_release (bview_of y) b"
    using y(3) x(3) o(6) r c ab by (simp_all add: can_release_def a_defs bcache.opened_def)
  with bcache.close_two [OF y(2,5,6) ab] obtain z where z: "andthen (brelse i) (brelse j) y = Ok () z" "bio_ok z"
    "bview_of z = a_release b (a_release a (bview_of y))" "rest_of z = rest_of y" by blast
  have "bview_of z = (a_writes [(b, content v a)] v)\<lparr>refs := (refs v)(b := 0)\<rparr>"
    using z(3) y(3) x(3) o(6) r t ab
    by (intro bview.equality) (auto simp: a_defs a_writes_def bcache.opened_def fun_eq_iff)
  moreover have "install_one recovering tail s = Ok () z"
    using o(1,2) x(1) y(1) z(1) lu by (simp add: install_one_def exec_simps dev a b)
  ultimately show ?thesis using z y x o by auto
qed


lemma lg_frame [simp]:
  "bview_of (s\<lparr>lg := l\<rparr>) = bview_of s" "bio_ok (s\<lparr>lg := l\<rparr>) = bio_ok s" "holds (s\<lparr>lg := l\<rparr>) i b = holds s i b"
proof -
  have "blk (s\<lparr>lg := l\<rparr>) = blk s" by (rule blk_cong) simp_all
  moreover have "brefs (s\<lparr>lg := l\<rparr>) = brefs s" by (rule brefs_cong) simp
  moreover have "blocked (s\<lparr>lg := l\<rparr>) = blocked s" by (rule blocked_cong) simp_all
  ultimately show "bview_of (s\<lparr>lg := l\<rparr>) = bview_of s" by (simp add: bview_of_def)
  show "bio_ok (s\<lparr>lg := l\<rparr>) = bio_ok s" by (simp add: bio_ok_def bc_ok_def locks_ok_def quiet_def)
  show "holds (s\<lparr>lg := l\<rparr>) i b = holds s i b" by (simp add: holds_def owns_slk_def)
qed

text \<open>Everything but the buffer cache and the log.\<close>

definition others_of :: "'z log_st_scheme \<Rightarrow>
    (nat option \<times> (nat \<Rightarrow> proc) \<times> (nat \<Rightarrow> sleeplock) \<times> bytes \<times> nat \<times> layout \<times> 'z)" where
  "others_of s = (curp s, (\<lambda>p. (procs s p)\<lparr>state := UNUSED\<rparr>), (\<lambda>i. slks s (Inode_slock i)), mem s, freelist s,
     lay s, log_st.more s)"

lemma rest_others: "rest_of s = rest_of t \<Longrightarrow> others_of s = others_of t"
  by (cases s, cases t) (auto simp: rest_of_def others_of_def)

lemma others_lg [simp]: "others_of (s\<lparr>lg := l\<rparr>) = others_of s"
  by (simp add: others_of_def)

lemma mfor_blocks:
  "mfor [0..<n] (\<lambda>i. upd_log (\<lambda>l. l\<lparr>lhblock := (lhblock l)(i := g i)\<rparr>)) s =
   Ok () (s\<lparr>lg := (lg s)\<lparr>lhblock := (\<lambda>i. if i < n then g i else lhblock (lg s) i)\<rparr>\<rparr>)"
proof (induction n)
  case 0
  show ?case by (simp add: ret_run)
next
  case (Suc n)
  have "(\<lambda>a. if a = n then g n else if a < n then g a else lhblock (lg s) a) =
      (\<lambda>i. if i < Suc n then g i else lhblock (lg s) i)"
    by (auto simp: fun_eq_iff)
  with Suc show ?case by (simp add: mfor_append exec_simps cong: if_cong)
qed

lemma read_head_view:
  fixes s :: "'z log_st_scheme"
  defines "v \<equiv> bview_of s" and "st \<equiv> lstart (lg s)" and "d \<equiv> content (bview_of s) (lstart (lg s))"
  assumes ok: "bio_ok s" and dev: "ldev (lg s) = ROOTDEV" and c: "can_read v st" "refs v st = 0" "content v st = on_disk v st"
    and n: "head_n d \<le> LOGSIZE"
  shows "\<exists>t. read_head s = Ok () t \<and> bio_ok t \<and> bview_of t = v \<and> others_of t = others_of s \<and>
    lg t = (lg s)\<lparr>lhn := head_n d, lhblock := (\<lambda>i. if i < nat (head_n d) then head_block d i else lhblock (lg s) i)\<rparr>"
proof -
  from bcache.rd_law [OF ok, of st] c(1) obtain i u where u: "bread ROOTDEV st s = Ok i u" "bio_ok u" "holds u i st"
    "bview_of u = a_read st v" "rest_of u = rest_of s" unfolding v_def by blast
  let ?l = "(lg s)\<lparr>lhn := head_n d, lhblock := (\<lambda>i. if i < nat (head_n d) then head_block d i else lhblock (lg s) i)\<rparr>"
  have lu: "lg u = lg s" by (rule rest_lg [OF u(5)])
  have g: "getb i bdata u = Ok d u"
    using bcache.getd_law [OF u(2,3)] u(4) by (simp add: a_read_def d_def v_def st_def)
  let ?w = "u\<lparr>lg := ?l\<rparr>"
  have "can_release (bview_of ?w) st"
    using u(4) c by (simp add: can_release_def a_read_def)
  with bcache.rel_law [of ?w i st] u(2,3) obtain t where t: "brelse i ?w = Ok () t" "bio_ok t"
    "bview_of t = a_release st (bview_of ?w)" "rest_of t = rest_of ?w" by auto
  have "bview_of t = v"
    using t(3) u(4) c by (intro bview.equality) (auto simp: a_defs fun_eq_iff can_read_def)
  moreover have "read_head s = Ok () t"
    using u(1) g t(1) n by (simp add: read_head_def exec_simps dev st_def [symmetric] lu mfor_blocks not_less cong: if_cong)
  moreover have "lg t = ?l" using rest_lg [OF t(4)] by simp
  moreover have "others_of t = others_of s" using rest_others [OF t(4)] rest_others [OF u(5)] by simp
  ultimately show ?thesis using t(2) by blast
qed

lemma write_head_view:
  fixes s :: "'z log_st_scheme"
  defines "v \<equiv> bview_of s" and "st \<equiv> lstart (lg s)"
  assumes ok: "bio_ok s" and dev: "ldev (lg s) = ROOTDEV" and c: "can_read v st" "refs v st = 0"
  shows "\<exists>t. write_head s = Ok () t \<and> bio_ok t \<and> rest_of t = rest_of s \<and>
    bview_of t = a_writes [(st, put_head (lhn (lg s)) (lhblock (lg s)) (content v st))] v"
proof -
  from bcache.rd_law [OF ok, of st] c(1) obtain i u where u: "bread ROOTDEV st s = Ok i u" "bio_ok u" "holds u i st"
    "bview_of u = a_read st v" "rest_of u = rest_of s" unfolding v_def by blast
  have lu: "lg u = lg s" by (rule rest_lg [OF u(5)])
  let ?p = "put_head (lhn (lg s)) (lhblock (lg s))"
  from bcache.setd_law [OF u(2,3), of ?p] obtain w where w: "set_data i ?p u = Ok () w" "bio_ok w"
    "bview_of w = a_set st (?p (content (bview_of u) st)) (bview_of u)" "rest_of w = rest_of u" "holds w i st"
    using u(3) by blast
  from bcache.wr_law [OF w(2,5)] obtain x where x: "bwrite i w = Ok () x" "bio_ok x"
    "bview_of x = a_write st (bview_of w)" "rest_of x = rest_of w" "holds x i st" using w(5) by blast
  have "can_release (bview_of x) st"
    using x(3) w(3) u(4) c by (simp add: can_release_def a_defs)
  from bcache.rel_law [OF x(2,5) this] obtain y where y: "brelse i x = Ok () y" "bio_ok y"
    "bview_of y = a_release st (bview_of x)" "rest_of y = rest_of x" by blast
  have "bview_of y = a_writes [(st, ?p (content v st))] v"
    using y(3) x(3) w(3) u(4) c
    by (intro bview.equality) (auto simp: a_defs a_writes_def fun_eq_iff can_read_def)
  moreover have "write_head s = Ok () y"
    using u(1) w(1) x(1) y(1) by (simp add: write_head_def exec_simps dev st_def [symmetric] lu)
  ultimately show ?thesis using u w x y by simp
qed

text \<open>
  A transaction \<open>bl 0, \<dots>, bl (n - 1)\<close> against a log at block \<open>st\<close>: the blocks are different
  from each other and from the blocks of the log.
\<close>

definition blocks_ok :: "nat \<Rightarrow> nat \<Rightarrow> (nat \<Rightarrow> nat) \<Rightarrow> bool" where
  "blocks_ok st n bl \<longleftrightarrow> inj_on bl {..<n} \<and> (\<forall>t < n. bl t < st \<or> st + n < bl t) \<and> (\<forall>t < n. bl t < 2 ^ 32) \<and> n < 30"

definition log_writes :: "nat \<Rightarrow> nat \<Rightarrow> (nat \<Rightarrow> bytes) \<Rightarrow> (nat \<times> bytes) list" where
  "log_writes st n d = map (\<lambda>t. (st + t + 1, d t)) [0..<n]"

definition home_writes :: "nat \<Rightarrow> (nat \<Rightarrow> nat) \<Rightarrow> (nat \<Rightarrow> bytes) \<Rightarrow> (nat \<times> bytes) list" where
  "home_writes n bl d = map (\<lambda>t. (bl t, d t)) [0..<n]"

lemma log_writes_Suc: "log_writes st (Suc n) d = log_writes st n d @ [(st + n + 1, d n)]"
  by (simp add: log_writes_def)

lemma home_writes_Suc: "home_writes (Suc n) bl d = home_writes n bl d @ [(bl n, d n)]"
  by (simp add: home_writes_def)

lemma log_writes_dom: "fst ` set (log_writes st n d) = {st + 1..<st + 1 + n}"
proof -
  have "fst ` set (log_writes st n d) = (\<lambda>t. st + t + 1) ` {0..<n}" by (simp add: log_writes_def image_image)
  also have "\<dots> = {st + 1..<st + 1 + n}" by (auto intro!: image_eqI [of x _ "x - (st + 1)" for x])
  finally show ?thesis .
qed

lemma home_writes_dom: "fst ` set (home_writes n bl d) = bl ` {..<n}"
  by (simp add: home_writes_def image_image atLeast0LessThan)

lemma log_writes_at: "t < n \<Longrightarrow> apply_writes D (log_writes st n d) (st + t + 1) = d t"
  by (rule apply_writes_at) (auto simp: log_writes_def distinct_map inj_on_def comp_def)

lemma home_writes_at: "inj_on bl {..<n} \<Longrightarrow> t < n \<Longrightarrow> apply_writes D (home_writes n bl d) (bl t) = d t"
  by (rule apply_writes_at) (auto simp: home_writes_def distinct_map comp_def atLeast0LessThan)

text \<open>No buffer in use except those pinned by the transaction.\<close>

definition only_pinned :: "nat \<Rightarrow> (nat \<Rightarrow> nat) \<Rightarrow> bview \<Rightarrow> bool" where
  "only_pinned n bl v \<longleftrightarrow> (\<forall>b. \<not> taken v b) \<and> (\<forall>b. refs v b = (if b \<in> bl ` {..<n} then 1 else 0))"

lemma only_pinned_card:
  "only_pinned n bl v \<Longrightarrow> card {x. 0 < refs v x} \<le> n"
proof -
  assume "only_pinned n bl v"
  then have "{x. 0 < refs v x} = bl ` {..<n}" by (auto simp: only_pinned_def)
  then show ?thesis using card_image_le [of "{..<n}" bl] by simp
qed

lemma write_log_view:
  fixes s :: "'z log_st_scheme"
  defines "v \<equiv> bview_of s" and "st \<equiv> lstart (lg s)" and "bl \<equiv> lhblock (lg s)" and "n \<equiv> nat (lhn (lg s))"
  assumes ok: "bio_ok s" and dev: "ldev (lg s) = ROOTDEV" and b: "blocks_ok st n bl" and p: "only_pinned n bl v"
  shows "\<exists>t. write_log s = Ok () t \<and> bio_ok t \<and> rest_of t = rest_of s \<and>
    bview_of t = a_writes (log_writes st n (\<lambda>t. content v (bl t))) v"
proof -
  let ?W = "\<lambda>k. log_writes st k (\<lambda>t. content v (bl t))"
  have "\<exists>t. mfor [0..<n] write_one s = Ok () t \<and> bio_ok t \<and> bview_of t = a_writes (?W n) v \<and> rest_of t = rest_of s"
  proof (rule mfor_view [OF ok])
    show "bview_of s = a_writes (?W 0) v" by (simp add: v_def log_writes_def a_writes_def)
    fix i and u :: "'z log_st_scheme"
    assume i: "i < n" and u: "bio_ok u" "bview_of u = a_writes (?W i) v" "rest_of u = rest_of s"
    have lu: "lg u = lg s" by (rule rest_lg [OF u(3)])
    let ?a = "st + i + 1"
    have ab: "?a \<noteq> bl i" and nb: "bl i \<notin> {st + 1..<st + 1 + i}" using b i by (auto simp: blocks_ok_def)
    have c: "content (bview_of u) (bl i) = content v (bl i)"
      using nb unfolding u(2) by (simp add: apply_writes_other log_writes_dom)
    have "?a \<notin> bl ` {..<n}" using b i by (fastforce simp: blocks_ok_def)
    then have ra: "refs (bview_of u) ?a = 0"
      using p u(2) by (simp add: only_pinned_def)
    have "\<exists>t. write_one i u = Ok () t \<and> bio_ok t \<and>
        bview_of t = a_writes [(?a, content (bview_of u) (bl i))] (bview_of u) \<and> rest_of t = rest_of u"
      by (rule write_one_view [OF u(1)])
         (use ab ra p i u(2) only_pinned_card [OF p] b in \<open>auto simp: lu dev st_def bl_def only_pinned_def blocks_ok_def NBUF_def\<close>)
    then show "\<exists>t. write_one i u = Ok () t \<and> bio_ok t \<and> bview_of t = a_writes (?W (Suc i)) v \<and> rest_of t = rest_of u"
      unfolding c unfolding u(2) by (simp add: a_writes_comp log_writes_Suc)
  qed
  then show ?thesis by (auto simp: write_log_def exec_simps n_def)
qed

lemma install_trans_view:
  fixes s :: "'z log_st_scheme"
  defines "v \<equiv> bview_of s" and "st \<equiv> lstart (lg s)" and "bl \<equiv> lhblock (lg s)" and "n \<equiv> nat (lhn (lg s))"
  assumes ok: "bio_ok s" and dev: "ldev (lg s) = ROOTDEV" and b: "blocks_ok st n bl"
    and p: "only_pinned (if recovering then 0 else n) bl v"
    and c: "\<forall>t < n. content v (st + t + 1) = on_disk v (st + t + 1)"
  shows "\<exists>t. install_trans recovering s = Ok () t \<and> bio_ok t \<and> rest_of t = rest_of s \<and>
    bview_of t = (a_writes (home_writes n bl (\<lambda>t. content v (st + t + 1))) v)\<lparr>refs := (\<lambda>_. 0)\<rparr>"
proof -
  let ?W = "\<lambda>k. home_writes k bl (\<lambda>t. content v (st + t + 1))"
  let ?R = "\<lambda>k x. if x \<in> bl ` {..<k} then 0 else refs v x"
  let ?V = "\<lambda>k. (a_writes (?W k) v)\<lparr>refs := ?R k\<rparr>"
  have "\<exists>t. mfor [0..<n] (install_one recovering) s = Ok () t \<and> bio_ok t \<and> bview_of t = ?V n \<and> rest_of t = rest_of s"
  proof (rule mfor_view [OF ok])
    show "bview_of s = ?V 0" by (simp add: v_def home_writes_def a_writes_def)
    fix i and u :: "'z log_st_scheme"
    assume i: "i < n" and u: "bio_ok u" "bview_of u = ?V i" "rest_of u = rest_of s"
    have lu: "lg u = lg s" by (rule rest_lg [OF u(3)])
    let ?a = "st + i + 1"
    have ni: "bl i \<notin> bl ` {..<i}"
    proof
      assume "bl i \<in> bl ` {..<i}"
      then obtain x where "x < i" "bl i = bl x" by auto
      with b i have "i = x" by (auto simp: blocks_ok_def dest: inj_onD)
      with \<open>x < i\<close> show False by simp
    qed
    have ab: "?a \<noteq> bl i" and na: "?a \<notin> bl ` {..<n}" using b i by (fastforce simp: blocks_ok_def)+
    then have na': "?a \<notin> bl ` {..<i}" using i by auto
    have ca: "content (bview_of u) ?a = content v ?a" "on_disk (bview_of u) ?a = on_disk v ?a"
      using na' unfolding u(2) by (simp_all add: apply_writes_other home_writes_dom)
    have sub: "{x. 0 < ?R i x} \<subseteq> bl ` {..<if recovering then 0 else n}"
      using p by (auto simp: only_pinned_def split: if_splits)
    have "card (bl ` {..<if recovering then 0 else n}) \<le> (if recovering then 0 else n)"
      using card_image_le [of "{..<if recovering then 0 else n}" bl] by simp
    then have "card {x. 0 < ?R i x} \<le> (if recovering then 0 else n)"
      using card_mono [OF _ sub] by simp
    also have "\<dots> < NBUF" using b by (simp add: NBUF_def blocks_ok_def)
    finally have cd: "card {x. 0 < ?R i x} < NBUF" .
    have rec: "recovering \<Longrightarrow> {x. 0 < ?R i x} = {}" using sub by auto
    have "\<exists>t. install_one recovering i u = Ok () t \<and> bio_ok t \<and> bview_of t =
        (a_writes [(bl i, content (bview_of u) ?a)] (bview_of u))\<lparr>refs := (refs (bview_of u))(bl i := 0)\<rparr> \<and> rest_of t = rest_of u"
    proof (rule install_one_view [OF u(1)])
      show "refs (bview_of u) ?a = 0" using p na by (auto simp: u(2) only_pinned_def)
      show "refs (bview_of u) (bl i) = (if recovering then 0 else 1)" using p ni i by (auto simp: u(2) only_pinned_def)
      show "card {x. 0 < refs (bview_of u) x} < NBUF" using cd unfolding u(2) by simp
      show "recovering \<Longrightarrow> card (insert ?a {x. 0 < refs (bview_of u) x}) < NBUF" using rec unfolding u(2) by (simp add: NBUF_def)
      show "content (bview_of u) ?a = on_disk (bview_of u) ?a" using ca c i by simp
      show "\<not> taken (bview_of u) ?a" "\<not> taken (bview_of u) (bl i)" using p by (simp_all add: u(2) only_pinned_def)
    qed (use ab in \<open>simp_all add: lu dev st_def bl_def\<close>)
    moreover have "(?R i)(bl i := 0) = ?R (Suc i)" by (auto simp: fun_eq_iff less_Suc_eq)
    then have "(a_writes [(bl i, content (bview_of u) ?a)] (bview_of u))\<lparr>refs := (refs (bview_of u))(bl i := 0)\<rparr> = ?V (Suc i)"
      unfolding ca unfolding u(2) by (simp add: a_writes_def home_writes_Suc)
    ultimately show "\<exists>t. install_one recovering i u = Ok () t \<and> bio_ok t \<and> bview_of t = ?V (Suc i) \<and> rest_of t = rest_of u"
      by simp
  qed
  moreover have "?R n = (\<lambda>_. 0)" using p by (auto simp: only_pinned_def fun_eq_iff)
  ultimately show ?thesis by (auto simp: install_trans_def exec_simps n_def)
qed


text \<open>The disk writes of a commit, in order: the log, the header, the home blocks, the empty header.\<close>

definition commit_writes :: "nat \<Rightarrow> nat \<Rightarrow> (nat \<Rightarrow> nat) \<Rightarrow> (nat \<Rightarrow> bytes) \<Rightarrow> bytes \<Rightarrow> (nat \<times> bytes) list" where
  "commit_writes st n bl new h =
     log_writes st n (\<lambda>t. new (bl t)) @ [(st, put_head (int n) bl h)] @
     home_writes n bl (\<lambda>t. new (bl t)) @ [(st, put_head 0 bl (put_head (int n) bl h))]"

lemma can_read_idle: "refs v = (\<lambda>_. 0) \<Longrightarrow> \<not> taken v b \<Longrightarrow> can_read v b"
  by (simp add: can_read_def NBUF_def)

lemma commit_view:
  fixes s :: "'z log_st_scheme"
  defines "v \<equiv> bview_of s" and "st \<equiv> lstart (lg s)" and "bl \<equiv> lhblock (lg s)" and "n \<equiv> nat (lhn (lg s))"
  assumes ok: "bio_ok s" and dev: "ldev (lg s) = ROOTDEV" and b: "blocks_ok st n bl" and p: "only_pinned n bl v"
    and pos: "0 < lhn (lg s)" and c: "\<forall>b. b \<notin> bl ` {..<n} \<longrightarrow> content v b = on_disk v b"
  shows "\<exists>t. commit s = Ok () t \<and> bio_ok t \<and> lg t = (lg s)\<lparr>lhn := 0\<rparr> \<and> others_of t = others_of s \<and>
    bview_of t = (a_writes (commit_writes st n bl (content v) (content v st)) v)\<lparr>refs := (\<lambda>_. 0)\<rparr>"
proof -
  let ?h = "content v st"
  let ?W = "log_writes st n (\<lambda>t. content v (bl t))" and ?H = "(st, put_head (int n) bl ?h)"
  let ?I = "home_writes n bl (\<lambda>t. content v (bl t))"
  have n: "lhn (lg s) = int n" using pos by (simp add: n_def)
  have stn: "st \<notin> bl ` {..<n}" "st \<notin> {st + 1..<st + 1 + n}" using b by (fastforce simp: blocks_ok_def)+
  from write_log_view [OF ok dev] b p obtain s1 where s1: "write_log s = Ok () s1" "bio_ok s1" "rest_of s1 = rest_of s"
    "bview_of s1 = a_writes ?W v" by (auto simp: st_def n_def bl_def v_def)
  have l1: "lg s1 = lg s" by (rule rest_lg [OF s1(3)])
  have h1: "content (bview_of s1) st = ?h"
    using stn unfolding s1(4) by (simp add: apply_writes_other log_writes_dom)
  have r1: "refs (bview_of s1) st = 0" "can_read (bview_of s1) st"
    using p stn only_pinned_card [OF p] b by (auto simp: s1(4) only_pinned_def can_read_def NBUF_def blocks_ok_def)
  from write_head_view [OF s1(2)] r1 obtain s2 where s2: "write_head s1 = Ok () s2" "bio_ok s2" "rest_of s2 = rest_of s1"
    "bview_of s2 = a_writes (?W @ [?H]) v"
    unfolding l1 using h1 dev by (auto simp: st_def [symmetric] bl_def n a_writes_comp s1(4))
  have l2: "lg s2 = lg s" using rest_lg [OF s2(3)] l1 by simp
  have log2: "content (bview_of s2) (st + t + 1) = content v (bl t) \<and> on_disk (bview_of s2) (st + t + 1) = content v (bl t)"
    if "t < n" for t
    using log_writes_at [OF that, of _ st] unfolding s2(4) by simp
  have eq: "home_writes n bl (\<lambda>t. content (bview_of s2) (st + t + 1)) = ?I"
    using log2 by (simp add: home_writes_def)
  have p2: "only_pinned n bl (bview_of s2)" using p by (simp add: s2(4) only_pinned_def)
  from install_trans_view [of s2 False] obtain s3 where s3: "install_trans False s2 = Ok () s3" "bio_ok s3" "rest_of s3 = rest_of s2"
    "bview_of s3 = (a_writes (?W @ [?H] @ ?I) v)\<lparr>refs := (\<lambda>_. 0)\<rparr>"
    using s2(2) dev b p2 log2 eq unfolding l2 by (auto simp: s2(4) a_writes_comp st_def bl_def n_def)
  have l3: "lg s3 = lg s" using rest_lg [OF s3(3)] l2 by simp
  let ?s4 = "s3\<lparr>lg := (lg s)\<lparr>lhn := 0\<rparr>\<rparr>"
  have h3: "content (bview_of s3) st = put_head (int n) bl ?h"
    using stn unfolding s3(4) by (simp add: apply_writes_other home_writes_dom)
  have "can_read (bview_of s3) st" "refs (bview_of s3) st = 0"
    using p by (auto simp: s3(4) only_pinned_def intro!: can_read_idle)
  with write_head_view [of ?s4] s3(2) dev obtain s5 where s5: "write_head ?s4 = Ok () s5" "bio_ok s5" "rest_of s5 = rest_of ?s4"
    "bview_of s5 = a_writes [(st, put_head 0 bl (content (bview_of s3) st))] (bview_of s3)"
    by (auto simp: st_def [symmetric] bl_def [symmetric])
  have "bview_of s5 = (a_writes (commit_writes st n bl (content v) ?h) v)\<lparr>refs := (\<lambda>_. 0)\<rparr>"
    unfolding s5(4) h3 by (simp add: s3(4) a_writes_def commit_writes_def)
  moreover have "commit s = Ok () s5"
    using pos s1(1) s2(1) s3(1) s5(1) l3 by (simp add: commit_def exec_simps)
  moreover have "lg s5 = (lg s)\<lparr>lhn := 0\<rparr>" using rest_lg [OF s5(3)] by simp
  moreover have "others_of s5 = others_of s"
    using s5(3) s3(3) s2(3) s1(3) by (metis rest_others others_lg)
  ultimately show ?thesis using s5(2) by blast
qed

text \<open>What recovery writes, given the disk it finds.\<close>

definition recover_writes :: "nat \<Rightarrow> (nat \<Rightarrow> bytes) \<Rightarrow> (nat \<times> bytes) list" where
  "recover_writes st D = home_writes (nat (head_n (D st))) (head_block (D st)) (\<lambda>t. D (st + t + 1)) @ [(st, put_head 0 undefined (D st))]"

lemma put_head_0: "put_head 0 bl d = put_head 0 bl' d"
  by (simp add: put_head_def)

definition fresh :: "(nat \<Rightarrow> bytes) \<Rightarrow> bview \<Rightarrow> bool" where
  "fresh D v \<longleftrightarrow> refs v = (\<lambda>_. 0) \<and> taken v = (\<lambda>_. False) \<and> content v = D \<and> on_disk v = D"

lemma recover_view:
  fixes s :: "'z log_st_scheme"
  defines "st \<equiv> lstart (lg s)"
  assumes ok: "bio_ok s" and dev: "ldev (lg s) = ROOTDEV" and f: "fresh D (bview_of s)"
    and b: "blocks_ok st (nat (head_n (D st))) (head_block (D st))"
  shows "\<exists>t. recover_from_log s = Ok () t \<and> bio_ok t \<and> bview_of t = a_writes (recover_writes st D) (bview_of s) \<and>
    others_of t = others_of s \<and> (\<exists>bl. lg t = (lg s)\<lparr>lhn := 0, lhblock := bl\<rparr>)"
proof -
  let ?n = "nat (head_n (D st))" and ?b = "head_block (D st)"
  have c: "can_read (bview_of s) st" "refs (bview_of s) st = 0" "content (bview_of s) = D" "on_disk (bview_of s) = D"
    using f by (auto simp: fresh_def intro!: can_read_idle)
  let ?bl = "\<lambda>i. if i < ?n then ?b i else lhblock (lg s) i"
  have "?n < 30" using b by (simp add: blocks_ok_def)
  then have "head_n (D st) \<le> LOGSIZE" unfolding LOGSIZE_def MAXOPBLOCKS_def by linarith
  with read_head_view [OF ok dev, folded st_def, OF c(1,2)] obtain s1 where s1: "read_head s = Ok () s1" "bio_ok s1" "bview_of s1 = bview_of s"
    "others_of s1 = others_of s" "lg s1 = (lg s)\<lparr>lhn := head_n (D st), lhblock := ?bl\<rparr>" unfolding c(3,4) by auto
  have b1: "blocks_ok st ?n ?bl" using b by (auto simp: blocks_ok_def inj_on_def)
  have h1: "home_writes ?n ?bl (\<lambda>t. D (st + t + 1)) = home_writes ?n ?b (\<lambda>t. D (st + t + 1))"
    by (simp add: home_writes_def)
  let ?I = "home_writes ?n ?b (\<lambda>t. D (st + t + 1))"
  have "\<exists>t. install_trans True s1 = Ok () t \<and> bio_ok t \<and> rest_of t = rest_of s1 \<and>
    bview_of t = (a_writes (home_writes ?n ?bl (\<lambda>t. content (bview_of s1) (st + t + 1))) (bview_of s1))\<lparr>refs := (\<lambda>_. 0)\<rparr>"
    using install_trans_view [of s1 True] s1(2) dev b1 f c unfolding s1(5)
    by (simp add: st_def [symmetric] s1(3) only_pinned_def fresh_def)
  then obtain s2 where s2: "install_trans True s1 = Ok () s2" "bio_ok s2" "rest_of s2 = rest_of s1"
    "bview_of s2 = a_writes ?I (bview_of s)"
    using f c(3) h1 by (auto simp: s1(3) fresh_def a_writes_def)
  have l2: "lg s2 = lg s1" by (rule rest_lg [OF s2(3)])
  let ?s3 = "s2\<lparr>lg := (lg s1)\<lparr>lhn := 0\<rparr>\<rparr>"
  have "st \<notin> ?b ` {..<?n}" using b by (fastforce simp: blocks_ok_def)
  then have h2: "content (bview_of s2) st = D st"
    unfolding s2(4) by (simp add: apply_writes_other home_writes_dom c(3))
  have "can_read (bview_of s2) st" "refs (bview_of s2) st = 0"
    using f by (auto simp: s2(4) fresh_def intro!: can_read_idle)
  with write_head_view [of ?s3] s2(2) dev s1(5) obtain s4 where s4: "write_head ?s3 = Ok () s4" "bio_ok s4" "rest_of s4 = rest_of ?s3"
    "bview_of s4 = a_writes [(st, put_head 0 ?bl (content (bview_of s2) st))] (bview_of s2)"
    by (auto simp: st_def [symmetric])
  have "bview_of s4 = a_writes (recover_writes st D) (bview_of s)"
    unfolding s4(4) h2 by (simp add: s2(4) a_writes_comp recover_writes_def put_head_0 [of ?bl _ undefined])
  moreover have "recover_from_log s = Ok () s4"
    using s1(1) s2(1) s4(1) l2 by (simp add: recover_from_log_def exec_simps)
  moreover have "lg s4 = (lg s)\<lparr>lhn := 0, lhblock := ?bl\<rparr>" using rest_lg [OF s4(3)] s1(5) by simp
  moreover have "others_of s4 = others_of s"
    using s4(3) s2(3) s1(4) by (metis rest_others others_lg)
  ultimately show ?thesis using s4(2) by blast
qed


section \<open>Recording blocks: \<open>log_write\<close>, \<open>begin_op\<close>, \<open>end_op\<close>\<close>

lemma log_slot_found:
  assumes "b \<in> lhblock l ` {..<nat (lhn l)}"
  shows "log_slot l b < nat (lhn l)" "lhblock l (log_slot l b) = b"
proof -
  let ?P = "\<lambda>i. lhblock l i \<noteq> b"
  have "dropWhile ?P [0..<nat (lhn l)] \<noteq> []" using assms by auto
  moreover have "length (takeWhile ?P [0..<nat (lhn l)]) + length (dropWhile ?P [0..<nat (lhn l)]) = length [0..<nat (lhn l)]"
    by (simp only: length_append [symmetric] takeWhile_dropWhile_id)
  ultimately have le: "length (takeWhile ?P [0..<nat (lhn l)]) < length [0..<nat (lhn l)]"
    by (metis length_greater_0_conv less_add_same_cancel1)
  then show "log_slot l b < nat (lhn l)" by (simp add: log_slot_def)
  from nth_length_takeWhile [OF le] le show "lhblock l (log_slot l b) = b" by (simp add: log_slot_def)
qed

lemma log_slot_new:
  assumes "b \<notin> lhblock l ` {..<nat (lhn l)}"
  shows "log_slot l b = nat (lhn l)"
proof -
  have "takeWhile (\<lambda>i. lhblock l i \<noteq> b) [0..<nat (lhn l)] = [0..<nat (lhn l)]"
    unfolding takeWhile_eq_all_conv using assms by (auto simp: image_iff)
  then show ?thesis unfolding log_slot_def by (metis length_upt diff_zero)
qed

text \<open>Log absorption: a block already recorded in this transaction is not recorded twice.\<close>

definition log_add :: "nat \<Rightarrow> log \<Rightarrow> log" where
  "log_add b l = (if b \<in> lhblock l ` {..<nat (lhn l)} then l
     else l\<lparr>lhn := lhn l + 1, lhblock := (lhblock l)(nat (lhn l) := b)\<rparr>)"

definition log_room :: "log \<Rightarrow> bool" where
  "log_room l \<longleftrightarrow> 0 \<le> lhn l \<and> lhn l < LOGSIZE \<and> lhn l < lsize l - 1 \<and> 1 \<le> outstanding l"

lemma log_write_view:
  fixes s :: "'z log_st_scheme"
  defines "v \<equiv> bview_of s"
  assumes ok: "bio_ok s" and h: "holds s i b" and room: "log_room (lg s)" and r: "refs v b < 2 ^ 32 - 1"
  shows "\<exists>t. log_write i s = Ok () t \<and> bio_ok t \<and> lg t = log_add b (lg s) \<and> others_of t = others_of s \<and>
    bview_of t = (if b \<in> lhblock (lg s) ` {..<nat (lhn (lg s))} then v else a_pin b v) \<and> (\<forall>j c. holds t j c = holds s j c)"
proof -
  have q: "quiet s" by (rule bio_okD(1) [OF ok])
  have bn: "blockno (bufs s i) = b" using h by (simp add: holds_def)
  have g: "\<not> (lhn (lg s) \<ge> LOGSIZE \<or> lhn (lg s) \<ge> lsize (lg s) - 1)" "\<not> outstanding (lg s) < 1"
    using room by (auto simp: log_room_def)
  show ?thesis
  proof (cases "b \<in> lhblock (lg s) ` {..<nat (lhn (lg s))}")
    case True
    note sl = log_slot_found [OF True]
    then have ni: "int (log_slot (lg s) b) \<noteq> lhn (lg s)" by auto
    have "log_write i s = Ok () s"
      using q g sl ni by (simp add: log_write_def exec_simps bn fun_upd_idem)
    with True ok show ?thesis by (auto simp: log_add_def v_def)
  next
    case False
    note sl = log_slot_new [OF False]
    from bcache.pin_law [OF ok h] r obtain u where u: "bpin i s = Ok () u" "bio_ok u" "bview_of u = a_pin b v"
      "rest_of u = rest_of s" "\<forall>j c. holds u j c = holds s j c" by (auto simp: v_def)
    have rc: "refcnt (bufs s i) < 2 ^ 32 - 1"
      using r holds_view [OF ok h] by (simp add: v_def bview_of_def)
    have ue: "u = s\<lparr>bufs := (bufs s)(i := (bufs s i)\<lparr>refcnt := refcnt (bufs s i) + 1\<rparr>)\<rparr>"
      using u(1) bpin_run [OF q rc] by simp
    have "log_write i s = Ok () (u\<lparr>lg := log_add b (lg s)\<rparr>)"
      using q g False sl rc room unfolding ue
      by (simp add: log_write_def bpin_def exec_simps bn log_add_def log_room_def)
    with u False rest_others [OF u(4)] show ?thesis by simp
  qed
qed

lemma begin_op_run:
  "quiet s \<Longrightarrow> \<not> committing (lg s) \<Longrightarrow> lhn (lg s) + (outstanding (lg s) + 1) * MAXOPBLOCKS \<le> LOGSIZE \<Longrightarrow>
   begin_op s = Ok () (s\<lparr>lg := (lg s)\<lparr>outstanding := outstanding (lg s) + 1\<rparr>\<rparr>)"
  by (simp add: begin_op_def exec_simps)

lemma wake_upto_fields [simp]:
  "lg (wake_upto n c s) = lg s" "bufs (wake_upto n c s) = bufs s" "disk (wake_upto n c s) = disk s"
  "dwrites (wake_upto n c s) = dwrites s" "slks (wake_upto n c s) = slks s" "mem (wake_upto n c s) = mem s"
  "freelist (wake_upto n c s) = freelist s" "lay (wake_upto n c s) = lay s" "log_st.more (wake_upto n c s) = log_st.more s"
  by (simp_all add: wake_upto_def)

lemma wake_upto_frame [simp]:
  "bview_of (wake_upto n c s) = bview_of s" "bio_ok (wake_upto n c s) = bio_ok s"
  "others_of (wake_upto n c s) = others_of s"
proof -
  have "blk (wake_upto n c s) = blk s" by (rule blk_cong) simp_all
  moreover have "brefs (wake_upto n c s) = brefs s" by (rule brefs_cong) simp
  moreover have "blocked (wake_upto n c s) = blocked s" by (rule blocked_cong) simp_all
  ultimately show "bview_of (wake_upto n c s) = bview_of s" by (simp add: bview_of_def)
  show "bio_ok (wake_upto n c s) = bio_ok s" by (simp add: bio_ok_def bc_ok_def locks_ok_def quiet_def)
  have "(procs (wake_upto n c s) p)\<lparr>state := UNUSED\<rparr> = (procs s p)\<lparr>state := UNUSED\<rparr>" for p
    by (simp add: wake_upto_def wake_procs_def woken_def)
  then show "others_of (wake_upto n c s) = others_of s" by (simp add: others_of_def)
qed

lemma wake_held:
  "wake_upto n c (s\<lparr>held := h, depth := d\<rparr>) = (wake_upto n c s)\<lparr>held := h, depth := d\<rparr>"
  "wake_upto n c (s\<lparr>held := h, depth := d\<rparr>\<lparr>lg := l\<rparr>) = (wake_upto n c (s\<lparr>lg := l\<rparr>))\<lparr>held := h, depth := d\<rparr>"
  by (simp_all add: wake_upto_def)

lemma end_op_more:
  assumes q: "quiet s" and nc: "\<not> committing (lg s)" and o: "outstanding (lg s) \<noteq> 1"
  shows "end_op s = Ok () (wake_upto NPROC Chan_log (s\<lparr>lg := (lg s)\<lparr>outstanding := outstanding (lg s) - 1\<rparr>\<rparr>))"
  using assms by (simp add: end_op_def exec_simps plocks_free_def wake_held)

lemma end_op_last:
  assumes q: "quiet s" and nc: "\<not> committing (lg s)" and o: "outstanding (lg s) = 1"
    and c: "commit (s\<lparr>lg := (lg s)\<lparr>outstanding := 0, committing := True\<rparr>\<rparr>) = Ok () t" "quiet t"
  shows "end_op s = Ok () (wake_upto NPROC Chan_log (t\<lparr>lg := (lg t)\<lparr>committing := False\<rparr>\<rparr>))"
  using assms by (simp add: end_op_def exec_simps plocks_free_def wake_held)


section \<open>Crash safety\<close>

definition empty_log :: "nat \<Rightarrow> (nat \<Rightarrow> bytes) \<Rightarrow> bool" where
  "empty_log st D \<longleftrightarrow> head_n (D st) = 0"

definition full_log :: "nat \<Rightarrow> nat \<Rightarrow> (nat \<Rightarrow> nat) \<Rightarrow> (nat \<Rightarrow> bytes) \<Rightarrow> (nat \<Rightarrow> bytes) \<Rightarrow> bool" where
  "full_log st n bl new D \<longleftrightarrow> head_n (D st) = int n \<and>
     (\<forall>t < n. head_block (D st) t = bl t \<and> D (st + t + 1) = new (bl t))"

text \<open>Equal outside the blocks the log itself uses.\<close>

definition same_files :: "nat \<Rightarrow> nat \<Rightarrow> (nat \<Rightarrow> bytes) \<Rightarrow> (nat \<Rightarrow> bytes) \<Rightarrow> bool" where
  "same_files st n D E \<longleftrightarrow> (\<forall>b. b < st \<or> st + n < b \<longrightarrow> D b = E b)"

definition tx_disk :: "nat \<Rightarrow> (nat \<Rightarrow> nat) \<Rightarrow> (nat \<Rightarrow> bytes) \<Rightarrow> (nat \<Rightarrow> bytes) \<Rightarrow> nat \<Rightarrow> bytes" where
  "tx_disk n bl new D b = (if b \<in> bl ` {..<n} then new b else D b)"

definition crash_ok :: "nat \<Rightarrow> nat \<Rightarrow> (nat \<Rightarrow> nat) \<Rightarrow> (nat \<Rightarrow> bytes) \<Rightarrow> (nat \<Rightarrow> bytes) \<Rightarrow> bool \<Rightarrow> (nat \<Rightarrow> bytes) \<Rightarrow> bool" where
  "crash_ok st n bl new D0 com D \<longleftrightarrow>
     (if com then
        empty_log st D \<and> same_files st n D (tx_disk n bl new D0) \<or>
        full_log st n bl new D \<and> same_files st n (tx_disk n bl new D) (tx_disk n bl new D0)
      else empty_log st D \<and> same_files st n D D0)"

lemma apply_prefix_other: "b \<notin> fst ` set ws \<Longrightarrow> apply_writes D (take k ws) b = D b"
  by (rule apply_writes_other) (auto dest!: in_set_takeD)

lemma tx_disk_idem: "tx_disk n bl new (tx_disk n bl new D) = tx_disk n bl new D"
  by (simp add: tx_disk_def fun_eq_iff)

lemma home_writes_tx:
  assumes "inj_on bl {..<n}"
  shows "apply_writes D (home_writes n bl (\<lambda>t. new (bl t))) = tx_disk n bl new D"
proof (rule ext)
  fix b
  show "apply_writes D (home_writes n bl (\<lambda>t. new (bl t))) b = tx_disk n bl new D b"
    using home_writes_at [OF assms] apply_writes_other [of b "home_writes n bl (\<lambda>t. new (bl t))" D]
    by (auto simp: tx_disk_def home_writes_dom)
qed

text \<open>Whatever part of the installation of a full log has happened.\<close>

lemma install_prefix:
  assumes b: "blocks_ok st n bl" and f: "full_log st n bl new D" "same_files st n (tx_disk n bl new D) (tx_disk n bl new D0)"
    and e: "head_n e = 0"
  shows "crash_ok st n bl new D0 True (apply_writes D (take j (home_writes n bl (\<lambda>t. new (bl t)) @ [(st, e)])))"
proof -
  let ?I = "home_writes n bl (\<lambda>t. new (bl t))"
  have inj: "inj_on bl {..<n}" and out: "\<And>t. t < n \<Longrightarrow> bl t < st \<or> st + n < bl t" using b by (auto simp: blocks_ok_def)
  have len: "length ?I = n" by (simp add: home_writes_def)
  show ?thesis
  proof (cases "j \<le> n")
    case True
    let ?E = "apply_writes D (take j ?I)"
    have off: "?E x = D x" if "x \<notin> bl ` {..<n}" for x
      by (rule apply_prefix_other) (use that in \<open>simp add: home_writes_dom\<close>)
    have no: "st + t \<notin> bl ` {..<n}" if "t \<le> n" for t using out that by fastforce
    have "?E st = D st" using off [of st] no [of 0] by simp
    moreover have "?E (st + t + 1) = D (st + t + 1)" if "t < n" for t
      using off [of "st + t + 1"] no [of "t + 1"] that by simp
    ultimately have "full_log st n bl new ?E" using f(1) by (simp add: full_log_def)
    moreover have "tx_disk n bl new ?E = tx_disk n bl new D" using off by (auto simp: tx_disk_def fun_eq_iff)
    ultimately show ?thesis using f(2) True len by (simp add: crash_ok_def)
  next
    case False
    then have "apply_writes D (take j (?I @ [(st, e)])) = (tx_disk n bl new D)(st := e)"
      using len home_writes_tx [OF inj] by simp
    with f(2) e show ?thesis by (simp add: crash_ok_def empty_log_def same_files_def)
  qed
qed

lemma commit_prefix:
  assumes b: "blocks_ok st n bl" and e: "empty_log st D"
  shows "crash_ok st n bl new D (n < k) (apply_writes D (take k (commit_writes st n bl new h)))"
proof -
  let ?W = "log_writes st n (\<lambda>t. new (bl t))" and ?H = "(st, put_head (int n) bl h)"
  have len: "length ?W = n" by (simp add: log_writes_def)
  show ?thesis
  proof (cases "n < k")
    case False
    let ?E = "apply_writes D (take k ?W)"
    have "?E x = D x" if "x \<notin> {st + 1..<st + 1 + n}" for x
      by (rule apply_prefix_other) (use that in \<open>simp only: log_writes_dom not_False_eq_True\<close>)
    then have "crash_ok st n bl new D False ?E" using e by (auto simp: crash_ok_def empty_log_def same_files_def)
    with False len show ?thesis by (simp add: commit_writes_def)
  next
    case True
    let ?D = "apply_writes D (?W @ [?H])" and ?e = "put_head 0 bl (put_head (int n) bl h)"
    have n: "n < 30" and bb: "\<And>t. t < n \<Longrightarrow> bl t < 2 ^ 32" using b by (auto simp: blocks_ok_def)
    have "full_log st n bl new ?D"
      using log_writes_at [of _ n D st "\<lambda>t. new (bl t)"] put_head_n [of "int n" bl h] put_head_block [of _ "int n" bl h] n bb
      by (simp add: full_log_def)
    moreover have "same_files st n (tx_disk n bl new ?D) (tx_disk n bl new D)"
      using apply_writes_other [of _ ?W D] by (auto simp: same_files_def tx_disk_def log_writes_dom)
    ultimately have "crash_ok st n bl new D True
        (apply_writes ?D (take (k - (n + 1)) (home_writes n bl (\<lambda>t. new (bl t)) @ [(st, ?e)])))"
      using put_head_n [of 0 bl] by (intro install_prefix [OF b]) auto
    moreover have "take k (commit_writes st n bl new h) = ?W @ [?H] @ take (k - (n + 1)) (home_writes n bl (\<lambda>t. new (bl t)) @ [(st, ?e)])"
      using True len by (simp add: commit_writes_def take_Cons')
    ultimately show ?thesis using True by simp
  qed
qed

lemma recover_prefix:
  assumes b: "blocks_ok st n bl" and c: "crash_ok st n bl new D0 com D"
  shows "crash_ok st n bl new D0 com (apply_writes D (take j (recover_writes st D))) \<and>
    same_files st n (apply_writes D (recover_writes st D)) (if com then tx_disk n bl new D0 else D0) \<and>
    blocks_ok st (nat (head_n (D st))) (head_block (D st)) \<and> empty_log st (apply_writes D (recover_writes st D))"
proof -
  have e0: "head_n (put_head 0 undefined d) = 0" for d by (rule put_head_n) simp_all
  have inj: "inj_on bl {..<n}" using b by (simp add: blocks_ok_def)
  consider (empty) "empty_log st D" "same_files st n D (if com then tx_disk n bl new D0 else D0)"
    | (full) com "full_log st n bl new D" "same_files st n (tx_disk n bl new D) (tx_disk n bl new D0)"
    using c by (auto simp: crash_ok_def split: if_splits)
  then show ?thesis
  proof cases
    case empty
    then have "recover_writes st D = [(st, put_head 0 undefined (D st))]"
      by (simp add: recover_writes_def empty_log_def home_writes_def)
    then show ?thesis
      using empty e0 [of "D st"] c by (cases j) (auto simp: crash_ok_def empty_log_def same_files_def blocks_ok_def)
  next
    case full
    have "home_writes n (head_block (D st)) (\<lambda>t. D (st + t + 1)) = home_writes n bl (\<lambda>t. new (bl t))"
      using full(2) by (simp add: home_writes_def full_log_def)
    then have r: "recover_writes st D = home_writes n bl (\<lambda>t. new (bl t)) @ [(st, put_head 0 undefined (D st))]"
      using full(2) by (simp add: recover_writes_def full_log_def)
    have "apply_writes D (recover_writes st D) = (tx_disk n bl new D)(st := put_head 0 undefined (D st))"
      unfolding r by (simp add: home_writes_tx [OF inj])
    moreover have "blocks_ok st (nat (head_n (D st))) (head_block (D st))"
      using b full(2) by (simp add: blocks_ok_def full_log_def inj_on_def)
    moreover have "crash_ok st n bl new D0 com (apply_writes D (take j (recover_writes st D)))"
      unfolding r using install_prefix [OF b full(2,3) e0] full(1) by simp
    ultimately show ?thesis
      using full e0 [of "D st"] by (simp add: same_files_def empty_log_def)
  qed
qed


text \<open>A kernel that has just booted on disk \<open>D\<close>: nothing cached.\<close>

definition booted :: "(nat \<Rightarrow> bytes) \<Rightarrow> log_st \<Rightarrow> bool" where
  "booted D r \<longleftrightarrow> bio_ok r \<and> fresh D (bview_of r)"

text \<open>
  The disks a machine can be left with when the writes \<open>ws\<close> have reached disk \<open>D\<close> and it then
  reboots, each time losing power after some of the writes of the recovery.
\<close>

inductive after_crash :: "superblock \<Rightarrow> (nat \<Rightarrow> bytes) \<Rightarrow> (nat \<times> bytes) list \<Rightarrow> (nat \<Rightarrow> bytes) \<Rightarrow> bool"
  for sb D ws where
  stop: "after_crash sb D ws (apply_writes D ws)"
| again: "after_crash sb D ws E \<Longrightarrow> booted E r \<Longrightarrow> initlog ROOTDEV sb r = Ok () t \<Longrightarrow>
    writes (bview_of t) = writes (bview_of r) @ us \<Longrightarrow> after_crash sb D ws (apply_writes E (take j us))"

text \<open>A transaction ready to commit: its blocks are pinned, everything else is on the disk, the log is empty.\<close>

definition tx_ready :: "'z log_st_scheme \<Rightarrow> bool" where
  "tx_ready s \<longleftrightarrow> (let l = lg s; n = nat (lhn l); bl = lhblock l; v = bview_of s in
     bio_ok s \<and> ldev l = ROOTDEV \<and> 0 < lhn l \<and> blocks_ok (lstart l) n bl \<and> only_pinned n bl v \<and>
     (\<forall>b. b \<notin> bl ` {..<n} \<longrightarrow> content v b = on_disk v b) \<and> empty_log (lstart l) (on_disk v))"

lemma initlog_recovers:
  fixes r :: log_st
  assumes b: "blocks_ok (logstart sb) n bl" and c: "crash_ok (logstart sb) n bl new D0 com D" and r: "booted D r"
  shows "\<exists>t. initlog ROOTDEV sb r = Ok () t \<and> bio_ok t \<and> empty_log (logstart sb) (on_disk (bview_of t)) \<and>
    writes (bview_of t) = writes (bview_of r) @ recover_writes (logstart sb) D \<and>
    same_files (logstart sb) n (on_disk (bview_of t)) (if com then tx_disk n bl new D0 else D0)"
proof -
  let ?l = "(lg r)\<lparr>lstart := logstart sb, lsize := int32 (nlog sb), ldev := ROOTDEV\<rparr>"
  let ?r = "r\<lparr>lg := ?l\<rparr>"
  note p = recover_prefix [OF b c]
  have f: "fresh D (bview_of ?r)" "bio_ok ?r" using r by (simp_all add: booted_def)
  from recover_view [OF f(2) _ f(1)] p obtain t where t: "recover_from_log ?r = Ok () t" "bio_ok t"
    "bview_of t = a_writes (recover_writes (logstart sb) D) (bview_of ?r)" by auto
  have "initlog ROOTDEV sb r = Ok () t"
    using t(1) by (simp add: initlog_def LOGSIZE_def MAXOPBLOCKS_def BSIZE_def exec_simps)
  with t(2,3) p f(1) show ?thesis by (auto simp: fresh_def)
qed

lemma after_crash_ok:
  assumes "after_crash sb D (take k (commit_writes (logstart sb) n bl new h)) E"
    and b: "blocks_ok (logstart sb) n bl" and e: "empty_log (logstart sb) D"
  shows "crash_ok (logstart sb) n bl new D (n < k) E"
  using assms(1)
proof induction
  case stop
  show ?case by (rule commit_prefix [OF b e])
next
  case (again E r t us j)
  from initlog_recovers [OF b again.IH again.hyps(2)] again.hyps(3,4)
  have "us = recover_writes (logstart sb) E" by auto
  with recover_prefix [OF b again.IH] show ?case by blast
qed

text \<open>
  C11: commit is atomic with respect to crashes. For a transaction of \<open>n\<close> blocks ready to commit,
  \<open>commit\<close> returns with an empty log and every block of the transaction on the disk. If instead the machine
  stops after the first \<open>k\<close> of the disk writes \<open>commit\<close> makes, and any number of times again
  part-way through the recovery at reboot, then the next \<open>initlog\<close> that runs to its end leaves an empty
  log, and outside the log area either the old contents of every block (\<open>k \<le> n\<close>: the header
  was not yet written) or every block of the transaction in its new version.
\<close>

theorem commit_crash_safe:
  fixes s :: "'z log_st_scheme"
  defines "n \<equiv> nat (lhn (lg s))" and "bl \<equiv> lhblock (lg s)" and "new \<equiv> content (bview_of s)" and "old \<equiv> on_disk (bview_of s)"
  assumes ready: "tx_ready s" and sb: "logstart sb = lstart (lg s)"
  shows "\<exists>t ws. commit s = Ok () t \<and> bio_ok t \<and> lhn (lg t) = 0 \<and> empty_log (logstart sb) (on_disk (bview_of t)) \<and>
    same_files (logstart sb) n (on_disk (bview_of t)) (tx_disk n bl new old) \<and>
    writes (bview_of t) = writes (bview_of s) @ ws \<and> length ws = 2 * n + 2 \<and>
    (\<forall>k E r. after_crash sb old (take k ws) E \<and> booted E r \<longrightarrow>
      (\<exists>u. initlog ROOTDEV sb r = Ok () u \<and> bio_ok u \<and> empty_log (logstart sb) (on_disk (bview_of u)) \<and>
        same_files (logstart sb) n (on_disk (bview_of u)) (if k \<le> n then old else tx_disk n bl new old)))"
proof -
  have r: "bio_ok s" "ldev (lg s) = ROOTDEV" "0 < lhn (lg s)" "blocks_ok (logstart sb) n bl" "only_pinned n bl (bview_of s)"
    "\<forall>b. b \<notin> bl ` {..<n} \<longrightarrow> content (bview_of s) b = on_disk (bview_of s) b" "empty_log (logstart sb) old"
    using ready by (simp_all add: tx_ready_def Let_def n_def bl_def old_def sb)
  let ?ws = "commit_writes (logstart sb) n bl new (new (logstart sb))"
  from commit_view [OF r(1,2)] r obtain t where t: "commit s = Ok () t" "bio_ok t" "lg t = (lg s)\<lparr>lhn := 0\<rparr>"
    "bview_of t = (a_writes ?ws (bview_of s))\<lparr>refs := (\<lambda>_. 0)\<rparr>"
    by (auto simp: n_def bl_def sb new_def)
  have len: "length ?ws = 2 * n + 2" by (simp add: commit_writes_def log_writes_def home_writes_def)
  have "crash_ok (logstart sb) n bl new old True (apply_writes old ?ws)"
    using commit_prefix [OF r(4,7), of new "length ?ws" "new (logstart sb)"] len by simp
  moreover have "head_n (apply_writes old ?ws (logstart sb)) = 0"
    using put_head_n [of 0 bl] by (simp add: commit_writes_def)
  ultimately have "empty_log (logstart sb) (on_disk (bview_of t))" "same_files (logstart sb) n (on_disk (bview_of t)) (tx_disk n bl new old)"
    using r(3) unfolding t(4) by (auto simp: crash_ok_def empty_log_def full_log_def n_def old_def)
  moreover have rec: "\<exists>u. initlog ROOTDEV sb r = Ok () u \<and> bio_ok u \<and> empty_log (logstart sb) (on_disk (bview_of u)) \<and>
        same_files (logstart sb) n (on_disk (bview_of u)) (if k \<le> n then old else tx_disk n bl new old)"
    if "after_crash sb old (take k ?ws) E" "booted E r" for k E r
    using initlog_recovers [OF r(4) after_crash_ok [OF that(1) r(4,7)] that(2)] by (auto simp: not_le split: if_splits)
  moreover have "lhn (lg t) = 0" "writes (bview_of t) = writes (bview_of s) @ ?ws" by (simp_all add: t(3,4))
  ultimately show ?thesis using t(1,2) len by blast
qed

definition log0 :: "int \<Rightarrow> log" where
  "log0 n = \<lparr>lstart = 2, lsize = n, outstanding = 0, committing = False, ldev = ROOTDEV, lhn = 0, lhblock = (\<lambda>_. 0)\<rparr>"

definition log_boot :: log_st where
  "log_boot = bio_start (\<lambda>_ _. 0) \<lparr>lg = log0 31\<rparr>"

text \<open>Block 50 read, filled with sevens, recorded and released inside an operation.\<close>

definition log_demo_run :: "(unit, log_st) kern" where
  "log_demo_run = andthen begin_op (bind (bread ROOTDEV 50) (\<lambda>i.
     andthen (set_data i (\<lambda>_ _. 7)) (andthen (log_write i) (brelse i))))"

definition log_demo :: log_st where
  "log_demo = (case log_demo_run log_boot of Ok _ t \<Rightarrow> t | _ \<Rightarrow> log_boot)"

lemma log_demo_ready:
  "tx_ready log_demo" "nat (lhn (lg log_demo)) = 1" "lhblock (lg log_demo) 0 = 50" "lstart (lg log_demo) = 2"
  "content (bview_of log_demo) 50 = (\<lambda>_. 7)" "on_disk (bview_of log_demo) = (\<lambda>_ _. 0)" "log_demo_run log_boot = Ok () log_demo"
proof -
  let ?l1 = "(log0 31)\<lparr>outstanding := 1\<rparr>"
  let ?s1 = "log_boot\<lparr>lg := ?l1\<rparr>"
  have ok0: "bio_ok log_boot" "bview_of log_boot = \<lparr>content = (\<lambda>_ _. 0), refs = (\<lambda>_. 0), taken = (\<lambda>_. False),
      on_disk = (\<lambda>_ _. 0), writes = []\<rparr>"
    by (simp_all add: log_boot_def bio_start_ok)
  have lb: "lg log_boot = log0 31" by (simp add: log_boot_def bio_start_def)
  have b: "begin_op log_boot = Ok () ?s1"
    using begin_op_run [OF bio_okD(1) [OF ok0(1)]] by (simp add: lb) (simp add: log0_def MAXOPBLOCKS_def LOGSIZE_def)
  have "can_read (bview_of ?s1) 50" by (simp add: ok0(2) can_read_def NBUF_def)
  from bcache.rd_law [OF _ this] ok0(1) obtain i u where u: "bread ROOTDEV 50 ?s1 = Ok i u" "bio_ok u" "holds u i 50"
    "bview_of u = a_read 50 (bview_of log_boot)" "rest_of u = rest_of ?s1" by auto
  from bcache.setd_law [OF u(2,3), of "\<lambda>_ _. 7"] u(3) obtain w where w: "set_data i (\<lambda>_ _. 7) u = Ok () w" "bio_ok w"
    "bview_of w = a_set 50 (\<lambda>_. 7) (bview_of u)" "rest_of w = rest_of u" "holds w i 50" by auto
  have lw: "lg w = ?l1" using rest_lg [OF w(4)] rest_lg [OF u(5)] by simp
  have "log_room (lg w)" by (simp add: lw log_room_def log0_def LOGSIZE_def MAXOPBLOCKS_def)
  from log_write_view [OF w(2,5) this] obtain x where x: "log_write i w = Ok () x" "bio_ok x" "lg x = log_add 50 ?l1"
    "bview_of x = a_pin 50 (bview_of w)" "holds x i 50"
    using w(5) by (auto simp: lw w(3) u(4) ok0(2) a_defs log0_def)
  have "can_release (bview_of x) 50" by (simp add: x(4) w(3) u(4) ok0(2) a_defs can_release_def)
  from bcache.rel_law [OF x(2,5) this] obtain y where y: "brelse i x = Ok () y" "bio_ok y"
    "bview_of y = a_release 50 (bview_of x)" "rest_of y = rest_of x" by blast
  have run: "log_demo_run log_boot = Ok () y"
    using b u(1) w(1) x(1) y(1) by (simp add: log_demo_run_def exec_simps)
  then have d: "log_demo = y" by (simp add: log_demo_def)
  have l: "lg y = \<lparr>lstart = 2, lsize = 31, outstanding = 1, committing = False, ldev = ROOTDEV, lhn = 1, lhblock = (\<lambda>_. 0)(0 := 50)\<rparr>"
    using rest_lg [OF y(4)] x(3) by (simp add: log_add_def log0_def)
  have v: "bview_of y = \<lparr>content = (\<lambda>_ _. 0)(50 := (\<lambda>_. 7)), refs = (\<lambda>_. 0)(50 := 1), taken = (\<lambda>_. False),
      on_disk = (\<lambda>_ _. 0), writes = []\<rparr>"
    using y(3) by (simp add: x(4) w(3) u(4) ok0(2) a_defs fun_eq_iff)
  have "le_get (\<lambda>_. 0) 0 4 = 0" by (simp add: le_get_def numeral_eq_Suc)
  then show "tx_ready log_demo"
    using y(2) by (auto simp: d tx_ready_def l v blocks_ok_def only_pinned_def empty_log_def head_n_def inj_on_def)
  show "nat (lhn (lg log_demo)) = 1" "lhblock (lg log_demo) 0 = 50" "lstart (lg log_demo) = 2"
    "content (bview_of log_demo) 50 = (\<lambda>_. 7)" "on_disk (bview_of log_demo) = (\<lambda>_ _. 0)" "log_demo_run log_boot = Ok () log_demo"
    using run by (simp_all add: d l v)
qed

theorem commit_crash_safe_witness:
  "\<exists>t. commit log_demo = Ok () t \<and> on_disk (bview_of t) 50 = (\<lambda>_. 7)"
proof -
  let ?sb = "\<lparr>magic = 0, fssize = 2000, nblocks = 0, ninodes = 200, nlog = 31, logstart = 2, inodestart = 33, bmapstart = 46\<rparr>"
  have "logstart ?sb = lstart (lg log_demo)" by (simp add: log_demo_ready(4))
  from commit_crash_safe [OF log_demo_ready(1) this] obtain t where "commit log_demo = Ok () t"
    "same_files 2 1 (on_disk (bview_of t)) (tx_disk 1 (lhblock (lg log_demo)) (content (bview_of log_demo)) (on_disk (bview_of log_demo)))"
    unfolding log_demo_ready(2) by auto
  then show ?thesis using log_demo_ready(3,5) by (intro exI [of _ t]) (simp add: same_files_def tx_disk_def)
qed


section \<open>Reservation\<close>

text \<open>
  The critical sections under \<open>log.lock\<close>, in any order, by any number of processes. \<open>ops i\<close> is the
  number of blocks process \<open>i\<close> has recorded in its current operation; an operation records at
  most \<open>MAXOPBLOCKS\<close>. A process that must wait in \<open>begin_op\<close> takes no step.
\<close>

type_synonym log_conf = "log \<times> (nat \<Rightarrow> nat option)"

inductive log_step :: "log_conf \<Rightarrow> log_conf \<Rightarrow> bool" where
  start: "ops i = None \<Longrightarrow> \<not> committing l \<Longrightarrow> lhn l + (outstanding l + 1) * MAXOPBLOCKS \<le> LOGSIZE \<Longrightarrow>
    log_step (l, ops) (l\<lparr>outstanding := outstanding l + 1\<rparr>, ops(i := Some 0))"
| absorb: "ops i = Some k \<Longrightarrow> log_room l \<Longrightarrow> b \<in> lhblock l ` {..<nat (lhn l)} \<Longrightarrow> log_step (l, ops) (log_add b l, ops)"
| add: "ops i = Some k \<Longrightarrow> int k < MAXOPBLOCKS \<Longrightarrow> log_room l \<Longrightarrow> b \<notin> lhblock l ` {..<nat (lhn l)} \<Longrightarrow>
    log_step (l, ops) (log_add b l, ops(i := Some (k + 1)))"
| finish: "ops i = Some k \<Longrightarrow> outstanding l \<noteq> 1 \<Longrightarrow> log_step (l, ops) (l\<lparr>outstanding := outstanding l - 1\<rparr>, ops(i := None))"
| last: "ops i = Some k \<Longrightarrow> outstanding l = 1 \<Longrightarrow>
    log_step (l, ops) (l\<lparr>outstanding := 0, committing := True\<rparr>, ops(i := None))"
| committed: "committing l \<Longrightarrow> log_step (l, ops) (l\<lparr>lhn := 0, committing := False\<rparr>, ops)"

definition unused :: "(nat \<Rightarrow> nat option) \<Rightarrow> int" where
  "unused ops = (\<Sum>i\<in>dom ops. MAXOPBLOCKS - int (the (ops i)))"

definition log_inv :: "int \<Rightarrow> log_conf \<Rightarrow> bool" where
  "log_inv n c \<longleftrightarrow> (case c of (l, ops) \<Rightarrow>
     lsize l = n \<and> finite (dom ops) \<and> outstanding l = int (card (dom ops)) \<and> (\<forall>i k. ops i = Some k \<longrightarrow> int k \<le> MAXOPBLOCKS) \<and>
     0 \<le> lhn l \<and> lhn l + unused ops \<le> LOGSIZE \<and> (committing l \<longrightarrow> dom ops = {}))"

lemma unused_upd:
  assumes "finite (dom ops)"
  shows "ops i = None \<Longrightarrow> unused (ops(i := Some k)) = unused ops + (MAXOPBLOCKS - int k)"
    and "ops i = Some j \<Longrightarrow> unused (ops(i := Some k)) = unused ops + int j - int k"
    and "ops i = Some j \<Longrightarrow> unused (ops(i := None)) = unused ops - (MAXOPBLOCKS - int j)"
proof -
  let ?f = "\<lambda>o' i. MAXOPBLOCKS - int (the (o' i))"
  have same: "sum (?f (ops(i := x))) (dom ops - {i}) = sum (?f ops) (dom ops - {i})" for x
    by (rule sum.cong) auto
  have rm: "ops i = Some j \<Longrightarrow> sum (?f ops) (dom ops - {i}) = unused ops - (MAXOPBLOCKS - int j)"
    using assms by (subst sum_diff1) (auto simp: unused_def)
  show "ops i = None \<Longrightarrow> unused (ops(i := Some k)) = unused ops + (MAXOPBLOCKS - int k)"
    using same [of "Some k"] assms by (simp add: unused_def domIff)
  show "ops i = Some j \<Longrightarrow> unused (ops(i := Some k)) = unused ops + int j - int k"
    using same [of "Some k"] rm assms by (simp add: unused_def sum.insert_remove)
  show "ops i = Some j \<Longrightarrow> unused (ops(i := None)) = unused ops - (MAXOPBLOCKS - int j)"
    using same [of None] rm by (simp add: unused_def)
qed

lemma unused_bounds:
  assumes "finite (dom ops)" "\<forall>i k. ops i = Some k \<longrightarrow> int k \<le> MAXOPBLOCKS"
  shows "unused ops \<le> int (card (dom ops)) * MAXOPBLOCKS" "ops i = Some k \<Longrightarrow> MAXOPBLOCKS - int k \<le> unused ops"
proof -
  have "unused ops \<le> (\<Sum>i\<in>dom ops. MAXOPBLOCKS)" unfolding unused_def by (rule sum_mono) auto
  then show "unused ops \<le> int (card (dom ops)) * MAXOPBLOCKS" by simp
  assume k: "ops i = Some k"
  have "MAXOPBLOCKS - int (the (ops i)) \<le> unused ops"
    unfolding unused_def by (rule member_le_sum) (use assms k in auto)
  with k show "MAXOPBLOCKS - int k \<le> unused ops" by simp
qed

lemma log_inv_step: "log_step c c' \<Longrightarrow> log_inv n c \<Longrightarrow> log_inv n c'"
proof (induction rule: log_step.induct)
  case (start ops i l)
  then have f: "finite (dom ops)" and u: "unused ops \<le> outstanding l * MAXOPBLOCKS"
    using unused_bounds(1) [of ops] by (auto simp: log_inv_def)
  have "i \<notin> dom ops" using start by auto
  then have "card (dom (ops(i := Some 0))) = Suc (card (dom ops))" using f by simp
  then show ?case
    using start u unused_upd(1) [OF f, of i 0] f by (auto simp: log_inv_def MAXOPBLOCKS_def split: if_splits)
next
  case (absorb ops i k l b)
  then show ?case by (simp add: log_add_def)
next
  case (add ops i k l b)
  then have f: "finite (dom ops)" and d: "insert i (dom ops) = dom ops" by (auto simp: log_inv_def)
  then have "unused (ops(i := Some (k + 1))) = unused ops + int k - int (k + 1)"
    using unused_upd(2) add by blast
  then show ?case using add f d by (auto simp: log_inv_def log_add_def split: if_splits)
next
  case (finish ops i k l)
  then have f: "finite (dom ops)" and i: "i \<in> dom ops" by (auto simp: log_inv_def)
  have "unused (ops(i := None)) \<le> unused ops" using unused_upd(3) [OF f finish(1)] finish by (auto simp: log_inv_def)
  moreover have "int (card (dom ops - {i})) = int (card (dom ops)) - 1"
    using f i card_gt_0_iff [of "dom ops"] by (auto simp: card_Diff_singleton of_nat_diff)
  ultimately show ?case using finish i by (auto simp: log_inv_def split: if_splits)
next
  case (last ops i k l)
  then have f: "finite (dom ops)" and i: "i \<in> dom ops" and c: "card (dom ops) = 1" by (auto simp: log_inv_def)
  then have "dom ops = {i}" by (metis card_1_singletonE singletonD)
  then have e: "dom (ops(i := None)) = {}" by simp
  then have "unused (ops(i := None)) = 0" unfolding unused_def by (simp only: sum.empty)
  moreover have k: "int k \<le> MAXOPBLOCKS" and u: "MAXOPBLOCKS - int k \<le> unused ops"
    using unused_bounds(2) [OF f, of i k] last by (auto simp: log_inv_def)
  have "0 \<le> unused ops" using k u by linarith
  moreover have "ops(i := None) = (\<lambda>_. None)" using e by (simp only: dom_eq_empty_conv)
  ultimately show ?case using last by (auto simp: log_inv_def split: if_splits)
next
  case (committed l ops)
  then have "unused ops = 0" by (simp add: log_inv_def unused_def)
  with committed show ?case by (simp add: log_inv_def LOGSIZE_def MAXOPBLOCKS_def)
qed

lemma log_reach_inv:
  assumes "log_step\<^sup>*\<^sup>* (log0 n, \<lambda>_. None) c"
  shows "log_inv n c"
  using assms
proof induction
  case base
  show ?case by (simp add: log_inv_def log0_def unused_def LOGSIZE_def MAXOPBLOCKS_def)
qed (rule log_inv_step)

text \<open>
  C12: the reservation of \<open>begin_op\<close> is sufficient when the log area has more than \<open>LOGSIZE\<close> blocks.
  However the operations of any number of processes interleave, a process that is in an operation
  and has recorded fewer than \<open>MAXOPBLOCKS\<close> blocks can record another one: \<open>log_write\<close>
  returns, without the panic "too big a transaction", and adds the block exactly once.
\<close>

theorem reservation_sufficient:
  assumes "log_step\<^sup>*\<^sup>* (log0 n, \<lambda>_. None) (lg s, ops)" and "LOGSIZE < n"
    and "ops i = Some k" and "int k < MAXOPBLOCKS"
    and "bio_ok s" and "holds s buf b" and "refs (bview_of s) b < 2 ^ 32 - 1"
  shows "\<exists>t. log_write buf s = Ok () t \<and> bio_ok t \<and> lg t = log_add b (lg s)"
proof -
  have inv: "log_inv n (lg s, ops)" by (rule log_reach_inv [OF assms(1)])
  then have "lhn (lg s) + (MAXOPBLOCKS - int k) \<le> LOGSIZE"
    using unused_bounds(2) [of ops i k] assms(3) by (auto simp: log_inv_def)
  moreover have "0 < card (dom ops)" using inv assms(3) by (auto simp: log_inv_def card_gt_0_iff)
  ultimately have "log_room (lg s)" using inv assms(2,4) by (auto simp: log_inv_def log_room_def)
  from log_write_view [OF assms(5,6) this assms(7)] show ?thesis by blast
qed

lemma log_demo_reach: "log_step\<^sup>*\<^sup>* (log0 31, \<lambda>_. None) ((log0 31)\<lparr>outstanding := 1\<rparr>, [0 \<mapsto> 0])"
  using log_step.start [of "\<lambda>_. None" 0 "log0 31"] by (auto simp: log0_def MAXOPBLOCKS_def LOGSIZE_def)

theorem reservation_sufficient_witness:
  "\<exists>i u t. bread ROOTDEV 50 (log_boot\<lparr>lg := (log0 31)\<lparr>outstanding := 1\<rparr>\<rparr>) = Ok i u \<and> log_write i u = Ok () t \<and>
    lg t = (log0 31)\<lparr>outstanding := 1, lhn := 1, lhblock := (\<lambda>_. 0)(0 := 50)\<rparr>"
proof -
  let ?s = "log_boot\<lparr>lg := (log0 31)\<lparr>outstanding := 1\<rparr>\<rparr>"
  have ok: "bio_ok ?s" and v: "bview_of ?s = \<lparr>content = (\<lambda>_ _. 0), refs = (\<lambda>_. 0), taken = (\<lambda>_. False),
      on_disk = (\<lambda>_ _. 0), writes = []\<rparr>"
    by (simp_all add: log_boot_def bio_start_ok)
  have "can_read (bview_of ?s) 50" unfolding v by (simp add: can_read_def NBUF_def)
  from bcache.rd_law [OF ok this] obtain i u where u: "bread ROOTDEV 50 ?s = Ok i u" "bio_ok u" "holds u i 50"
    "bview_of u = a_read 50 (bview_of ?s)" "rest_of u = rest_of ?s" by blast
  have l: "lg u = (log0 31)\<lparr>outstanding := 1\<rparr>" using rest_lg [OF u(5)] by simp
  have "\<exists>t. log_write i u = Ok () t \<and> bio_ok t \<and> lg t = log_add 50 (lg u)"
    by (rule reservation_sufficient [where n = 31 and ops = "[0 \<mapsto> 0]" and i = 0 and k = 0])
       (use log_demo_reach u in \<open>simp_all add: l LOGSIZE_def MAXOPBLOCKS_def v [simplified] a_defs\<close>)
  moreover have "log_add 50 (lg u) = (log0 31)\<lparr>outstanding := 1, lhn := 1, lhblock := (\<lambda>_. 0)(0 := 50)\<rparr>"
    by (simp add: l log_add_def log0_def)
  ultimately show ?thesis using u(1) by auto
qed

definition full_blocks :: "nat \<Rightarrow> log" where
  "full_blocks k = (log0 LOGSIZE)\<lparr>outstanding := 3, lhn := int k, lhblock := (\<lambda>i. if i < k then 100 + i else 0)\<rparr>"

definition full_ops :: "nat \<Rightarrow> nat \<Rightarrow> nat option" where
  "full_ops k i = (if i < 3 then Some (min 10 (k - 10 * i)) else None)"

lemma full_step:
  assumes "k < 29"
  shows "log_step (full_blocks k, full_ops k) (full_blocks (Suc k), full_ops (Suc k))"
proof -
  let ?i = "k div 10"
  have i: "full_ops k ?i = Some (k mod 10)" using assms by (auto simp: full_ops_def min_def) presburger+
  have n: "100 + k \<notin> lhblock (full_blocks k) ` {..<nat (lhn (full_blocks k))}" by (auto simp: full_blocks_def)
  have "log_add (100 + k) (full_blocks k) = full_blocks (Suc k)"
    using n by (auto simp: log_add_def full_blocks_def fun_eq_iff less_Suc_eq)
  moreover have "(full_ops k)(?i := Some (k mod 10 + 1)) = full_ops (Suc k)"
    using assms by (auto simp: full_ops_def fun_eq_iff min_def) presburger+
  moreover have "log_room (full_blocks k)" using assms by (simp add: log_room_def full_blocks_def log0_def LOGSIZE_def MAXOPBLOCKS_def)
  ultimately show ?thesis
    using log_step.add [of "full_ops k" ?i "k mod 10" "full_blocks k" "100 + k"] i n by (simp add: MAXOPBLOCKS_def)
qed

lemma full_reach: "k \<le> 29 \<Longrightarrow> log_step\<^sup>*\<^sup>* (log0 LOGSIZE, \<lambda>_. None) (full_blocks k, full_ops k)"
proof (induction k)
  case 0
  have s1: "log_step (log0 LOGSIZE, \<lambda>_. None) ((log0 LOGSIZE)\<lparr>outstanding := 1\<rparr>, [0 \<mapsto> 0])"
    using log_step.start [of "\<lambda>_. None" 0 "log0 LOGSIZE"] by (simp add: log0_def MAXOPBLOCKS_def LOGSIZE_def)
  have s2: "log_step ((log0 LOGSIZE)\<lparr>outstanding := 1\<rparr>, [0 \<mapsto> 0]) ((log0 LOGSIZE)\<lparr>outstanding := 2\<rparr>, [0 \<mapsto> 0, 1 \<mapsto> 0])"
    using log_step.start [of "[0 \<mapsto> 0]" 1 "(log0 LOGSIZE)\<lparr>outstanding := 1\<rparr>"] by (simp add: log0_def MAXOPBLOCKS_def LOGSIZE_def)
  have s3: "log_step ((log0 LOGSIZE)\<lparr>outstanding := 2\<rparr>, [0 \<mapsto> 0, 1 \<mapsto> 0]) ((log0 LOGSIZE)\<lparr>outstanding := 3\<rparr>, [0 \<mapsto> 0, 1 \<mapsto> 0, 2 \<mapsto> 0])"
    using log_step.start [of "[0 \<mapsto> 0, 1 \<mapsto> 0]" 2 "(log0 LOGSIZE)\<lparr>outstanding := 2\<rparr>"] by (simp add: log0_def MAXOPBLOCKS_def LOGSIZE_def)
  have "[0 \<mapsto> 0, 1 \<mapsto> 0, 2 \<mapsto> 0] = full_ops 0" by (auto simp: full_ops_def fun_eq_iff)
  moreover have "(log0 LOGSIZE)\<lparr>outstanding := 3\<rparr> = full_blocks 0" by (simp add: full_blocks_def log0_def)
  ultimately show ?case using s1 s2 s3 by (metis converse_rtranclp_into_rtranclp rtranclp.rtrancl_refl)
next
  case (Suc k)
  then show ?case using full_step [of k] by (meson Suc_leD Suc_le_lessD rtranclp.rtrancl_into_rtrancl)
qed

text \<open>
  C13: with a log area of \<open>LOGSIZE\<close> blocks, the size \<open>mkfs\<close> gives it, the reservation is one block short:
  three concurrent operations that \<open>begin_op\<close> all admits can record 29 blocks, and then
  the one that has recorded only nine panics in \<open>log_write\<close> when it records its tenth.
\<close>

theorem reservation_one_short:
  "\<exists>l ops. log_step\<^sup>*\<^sup>* (log0 LOGSIZE, \<lambda>_. None) (l, ops) \<and> ops 2 = Some 9 \<and> 9 < MAXOPBLOCKS \<and>
    log_write buf (log_boot\<lparr>lg := l\<rparr>) = Panic ''too big a transaction''"
proof -
  have "\<not> held log_boot Log_lock" by (simp add: log_boot_def bio_start_def)
  moreover have "lsize (full_blocks 29) - 1 \<le> lhn (full_blocks 29)"
    by (simp add: full_blocks_def log0_def LOGSIZE_def MAXOPBLOCKS_def)
  ultimately have "log_write buf (log_boot\<lparr>lg := full_blocks 29\<rparr>) = Panic ''too big a transaction''"
    by (simp add: log_write_def exec_simps)
  moreover have "full_ops 29 2 = Some 9" by (simp add: full_ops_def)
  ultimately show ?thesis using full_reach [of 29] by (auto simp: MAXOPBLOCKS_def)
qed

end
