(* ===== verification/Vm.thy ===== *)
theory Vm
  imports Kalloc
begin

text \<open>
  Page tables (\<open>vm.c\<close>): three-level trees of 512-entry tables that live in pages of the
  byte-addressed physical memory, exactly as the hardware walks them. Virtual addresses, sizes
  and page-table entries are 64-bit words, so every addition wraps as it does in C. The lemmas
  show that the trees implement a finite map from virtual pages to entries.
\<close>

unbundle bit_operations_syntax

section \<open>Addresses and entries\<close>

definition PGSZ :: u64 where "PGSZ = 4096"
definition MAXVA :: u64 where "MAXVA = 2 ^ 38"
definition TRAMPOLINE :: u64 where "TRAMPOLINE = MAXVA - PGSZ"
definition TRAPFRAME :: u64 where "TRAPFRAME = TRAMPOLINE - PGSZ"

definition KSTACK :: "nat \<Rightarrow> u64" where
  "KSTACK p = TRAMPOLINE - (word_of_nat p + 1) * 2 * PGSZ"

definition PTE_V :: u64 where "PTE_V = 1"
definition PTE_R :: u64 where "PTE_R = 2"
definition PTE_W :: u64 where "PTE_W = 4"
definition PTE_X :: u64 where "PTE_X = 8"
definition PTE_U :: u64 where "PTE_U = 16"

definition PGUP :: "u64 \<Rightarrow> u64" where
  "PGUP a = (a + PGSZ - 1) AND NOT (PGSZ - 1)"

definition PGDOWN :: "u64 \<Rightarrow> u64" where
  "PGDOWN a = a AND NOT (PGSZ - 1)"

definition PA2PTE :: "u64 \<Rightarrow> u64" where
  "PA2PTE pa = push_bit 10 (drop_bit 12 pa)"

definition PTE2PA :: "u64 \<Rightarrow> u64" where
  "PTE2PA pte = push_bit 12 (drop_bit 10 pte)"

definition PTE_FLAGS :: "u64 \<Rightarrow> u64" where
  "PTE_FLAGS pte = pte AND 0x3FF"

definition PX :: "nat \<Rightarrow> u64 \<Rightarrow> u64" where
  "PX level va = drop_bit (12 + 9 * level) va AND 0x1FF"

definition load64 :: "u64 \<Rightarrow> (u64, 'z mem_st_scheme) kern" where
  "load64 a = gets (\<lambda>s. word_of_nat (le_get (mem s) (unat a) 8))"

definition store64 :: "u64 \<Rightarrow> u64 \<Rightarrow> (unit, 'z mem_st_scheme) kern" where
  "store64 a v = store_mem (\<lambda>m. le_put m (unat a) 8 (unat v))"

definition zero_page :: "u64 \<Rightarrow> (unit, 'z mem_st_scheme) kern" where
  "zero_page a = store_mem (\<lambda>m. memset m (unat a) 0 PGSIZE)"

definition kalloc64 :: "(u64, 'z mem_st_scheme) kern" where
  "kalloc64 = bind kalloc (\<lambda>a. ret (word_of_nat a))"

definition kfree64 :: "u64 \<Rightarrow> (unit, 'z mem_st_scheme) kern" where
  "kfree64 a = kfree (unat a)"

section \<open>Walking and mapping\<close>

text \<open>
  \<open>walk_from level pt va alloc\<close> is the loop of \<open>walk\<close> entered at \<open>level\<close>; a pointer to a page-table
  entry is its physical address, 0 the null pointer.
\<close>

fun walk_from :: "nat \<Rightarrow> u64 \<Rightarrow> u64 \<Rightarrow> bool \<Rightarrow> (u64, 'z mem_st_scheme) kern" where
  "walk_from 0 pt va alloc = ret (pt + 8 * PX 0 va)"
| "walk_from (Suc l) pt va alloc =
     bind (load64 (pt + 8 * PX (Suc l) va)) (\<lambda>e.
     if e AND PTE_V \<noteq> 0 then walk_from l (PTE2PA e) va alloc
     else if \<not> alloc then ret 0
     else bind kalloc64 (\<lambda>q.
       if q = 0 then ret 0
       else andthen (zero_page q) (
            andthen (store64 (pt + 8 * PX (Suc l) va) (PA2PTE q OR PTE_V)) (
            walk_from l q va alloc))))"

definition walk :: "u64 \<Rightarrow> u64 \<Rightarrow> bool \<Rightarrow> (u64, 'z mem_st_scheme) kern" where
  "walk pt va alloc = (if va \<ge> MAXVA then panic ''walk'' else walk_from 2 pt va alloc)"

definition walkaddr :: "u64 \<Rightarrow> u64 \<Rightarrow> (u64, 'z mem_st_scheme) kern" where
  "walkaddr pt va =
     (if va \<ge> MAXVA then ret 0 else
      bind (walk pt va False) (\<lambda>pte.
      if pte = 0 then ret 0 else
      bind (load64 pte) (\<lambda>e.
      if e AND PTE_V = 0 then ret 0 else
      if e AND PTE_U = 0 then ret 0 else
      ret (PTE2PA e))))"

text \<open>The loop of \<open>mappages\<close>; \<open>k\<close> bounds its iterations, \<open>size / PGSIZE\<close> of them at most.\<close>

fun mappages_loop :: "nat \<Rightarrow> u64 \<Rightarrow> u64 \<Rightarrow> u64 \<Rightarrow> u64 \<Rightarrow> u64 \<Rightarrow> (int, 'z mem_st_scheme) kern" where
  "mappages_loop 0 pt a lst pa perm = diverge"
| "mappages_loop (Suc k) pt a lst pa perm =
     bind (walk pt a True) (\<lambda>pte.
     if pte = 0 then ret (-1) else
     bind (load64 pte) (\<lambda>e.
     if e AND PTE_V \<noteq> 0 then panic ''mappages: remap'' else
     andthen (store64 pte (PA2PTE pa OR perm OR PTE_V)) (
     if a = lst then ret 0
     else mappages_loop k pt (a + PGSZ) lst (pa + PGSZ) perm)))"

definition mappages :: "u64 \<Rightarrow> u64 \<Rightarrow> u64 \<Rightarrow> u64 \<Rightarrow> u64 \<Rightarrow> (int, 'z mem_st_scheme) kern" where
  "mappages pt va len pa perm =
     (if va mod PGSZ \<noteq> 0 then panic ''mappages: va not aligned'' else
      if len mod PGSZ \<noteq> 0 then panic ''mappages: size not aligned'' else
      if len = 0 then panic ''mappages: size'' else
      mappages_loop (unat (len div PGSZ)) pt va (va + len - PGSZ) pa perm)"

definition kvmmap :: "u64 \<Rightarrow> u64 \<Rightarrow> u64 \<Rightarrow> u64 \<Rightarrow> u64 \<Rightarrow> (unit, 'z mem_st_scheme) kern" where
  "kvmmap kpgtbl va pa n perm =
     bind (mappages kpgtbl va n pa perm) (\<lambda>r. if r \<noteq> 0 then panic ''kvmmap'' else ret ())"

definition UART0 :: u64 where "UART0 = 0x10000000"
definition VIRTIO0 :: u64 where "VIRTIO0 = 0x10001000"
definition PLIC :: u64 where "PLIC = 0x0c000000"

definition proc_mapstacks :: "u64 \<Rightarrow> (unit, 'z mem_st_scheme) kern" where
  "proc_mapstacks kpgtbl = mfor [0..<NPROC] (\<lambda>p.
     bind kalloc64 (\<lambda>pa.
     if pa = 0 then panic ''kalloc'' else
     kvmmap kpgtbl (KSTACK p) pa PGSZ (PTE_R OR PTE_W)))"

definition kvmmake :: "(u64, 'z mem_st_scheme) kern" where
  "kvmmake =
     bind kalloc64 (\<lambda>k.
     andthen (zero_page k) (
     bind (gets lay) (\<lambda>L.
     andthen (kvmmap k UART0 UART0 PGSZ (PTE_R OR PTE_W)) (
     andthen (kvmmap k VIRTIO0 VIRTIO0 PGSZ (PTE_R OR PTE_W)) (
     andthen (kvmmap k PLIC PLIC 0x4000000 (PTE_R OR PTE_W)) (
     andthen (kvmmap k (word_of_nat KERNBASE) (word_of_nat KERNBASE)
                (word_of_nat (etext L) - word_of_nat KERNBASE) (PTE_R OR PTE_X)) (
     andthen (kvmmap k (word_of_nat (etext L)) (word_of_nat (etext L))
                (word_of_nat PHYSTOP - word_of_nat (etext L)) (PTE_R OR PTE_W)) (
     andthen (kvmmap k TRAMPOLINE (word_of_nat (trampoline L)) PGSZ (PTE_R OR PTE_X)) (
     andthen (proc_mapstacks k) (
     ret k))))))))))"

text \<open>The loop of \<open>uvmunmap\<close>; \<open>k\<close> bounds its iterations.\<close>

fun uvmunmap_loop :: "nat \<Rightarrow> u64 \<Rightarrow> u64 \<Rightarrow> u64 \<Rightarrow> bool \<Rightarrow> (unit, 'z mem_st_scheme) kern" where
  "uvmunmap_loop k pt a lst do_free =
     (if \<not> a < lst then ret () else
      case k of 0 \<Rightarrow> diverge | Suc k' \<Rightarrow>
      bind (walk pt a False) (\<lambda>pte.
      if pte = 0 then panic ''uvmunmap: walk'' else
      bind (load64 pte) (\<lambda>e.
      if e AND PTE_V = 0 then panic ''uvmunmap: not mapped'' else
      if PTE_FLAGS e = PTE_V then panic ''uvmunmap: not a leaf'' else
      andthen (if do_free then kfree64 (PTE2PA e) else ret ()) (
      andthen (store64 pte 0) (
      uvmunmap_loop k' pt (a + PGSZ) lst do_free)))))"

definition uvmunmap :: "u64 \<Rightarrow> u64 \<Rightarrow> u64 \<Rightarrow> bool \<Rightarrow> (unit, 'z mem_st_scheme) kern" where
  "uvmunmap pt va npages do_free =
     (if va mod PGSZ \<noteq> 0 then panic ''uvmunmap: not aligned''
      else uvmunmap_loop (unat npages) pt va (va + npages * PGSZ) do_free)"

definition uvmcreate :: "(u64, 'z mem_st_scheme) kern" where
  "uvmcreate = bind kalloc64 (\<lambda>pt. if pt = 0 then ret 0 else andthen (zero_page pt) (ret pt))"

definition uvmfirst :: "u64 \<Rightarrow> byte list \<Rightarrow> (unit, 'z mem_st_scheme) kern" where
  "uvmfirst pt src =
     (if length src \<ge> PGSIZE then panic ''uvmfirst: more than a page'' else
      bind kalloc64 (\<lambda>m.
      andthen (zero_page m) (
      andthen (mappages pt 0 PGSZ m (PTE_W OR PTE_R OR PTE_X OR PTE_U)) (
      store_mem (\<lambda>b. put_bytes b (unat m) src)))))"

text \<open>In \<open>uvmdealloc\<close> the number of pages goes through a C \<open>int\<close>.\<close>

definition uvmdealloc :: "u64 \<Rightarrow> u64 \<Rightarrow> u64 \<Rightarrow> (u64, 'z mem_st_scheme) kern" where
  "uvmdealloc pt oldsz newsz =
     (if newsz \<ge> oldsz then ret oldsz else
      andthen
        (if PGUP newsz < PGUP oldsz then
           uvmunmap pt (PGUP newsz) (scast (ucast ((PGUP oldsz - PGUP newsz) div PGSZ) :: u32)) True
         else ret ()) (
      ret newsz))"

fun uvmalloc_loop :: "nat \<Rightarrow> u64 \<Rightarrow> u64 \<Rightarrow> u64 \<Rightarrow> u64 \<Rightarrow> u64 \<Rightarrow> (u64, 'z mem_st_scheme) kern" where
  "uvmalloc_loop k pt a oldsz newsz xperm =
     (if \<not> a < newsz then ret newsz else
      case k of 0 \<Rightarrow> diverge | Suc k' \<Rightarrow>
      bind kalloc64 (\<lambda>m.
      if m = 0 then andthen (uvmdealloc pt a oldsz) (ret 0) else
      andthen (zero_page m) (
      bind (mappages pt a PGSZ m (PTE_R OR PTE_U OR xperm)) (\<lambda>r.
      if r \<noteq> 0 then
        andthen (kfree64 m) (andthen (uvmdealloc pt a oldsz) (ret 0))
      else uvmalloc_loop k' pt (a + PGSZ) oldsz newsz xperm))))"

definition uvmalloc :: "u64 \<Rightarrow> u64 \<Rightarrow> u64 \<Rightarrow> u64 \<Rightarrow> (u64, 'z mem_st_scheme) kern" where
  "uvmalloc pt oldsz newsz xperm =
     (if newsz < oldsz then ret oldsz else
      uvmalloc_loop (unat (newsz div PGSZ) + 1) pt (PGUP oldsz) (PGUP oldsz) newsz xperm)"

text \<open>
  \<open>freewalk\<close> recurses along the levels of the tree; \<open>k\<close> bounds the depth. It is called on
  the root, whose subtrees have depth three.
\<close>

fun freewalk :: "nat \<Rightarrow> u64 \<Rightarrow> (unit, 'z mem_st_scheme) kern" where
  "freewalk 0 pt = diverge"
| "freewalk (Suc k) pt =
     andthen (mfor [0..<512] (\<lambda>i.
       bind (load64 (pt + 8 * word_of_nat i)) (\<lambda>pte.
       if pte AND PTE_V \<noteq> 0 \<and> pte AND (PTE_R OR PTE_W OR PTE_X) = 0 then
         andthen (freewalk k (PTE2PA pte)) (store64 (pt + 8 * word_of_nat i) 0)
       else if pte AND PTE_V \<noteq> 0 then panic ''freewalk: leaf''
       else ret ()))) (
     kfree64 pt)"

definition uvmfree :: "u64 \<Rightarrow> u64 \<Rightarrow> (unit, 'z mem_st_scheme) kern" where
  "uvmfree pt n =
     andthen (if n > 0 then uvmunmap pt 0 (PGUP n div PGSZ) True else ret ()) (
     freewalk 3 pt)"

fun uvmcopy_loop :: "nat \<Rightarrow> u64 \<Rightarrow> u64 \<Rightarrow> u64 \<Rightarrow> u64 \<Rightarrow> (int, 'z mem_st_scheme) kern" where
  "uvmcopy_loop k old new i n =
     (if \<not> i < n then ret 0 else
      case k of 0 \<Rightarrow> diverge | Suc k' \<Rightarrow>
      bind (walk old i False) (\<lambda>pte.
      if pte = 0 then panic ''uvmcopy: pte should exist'' else
      bind (load64 pte) (\<lambda>e.
      if e AND PTE_V = 0 then panic ''uvmcopy: page not present'' else
      bind kalloc64 (\<lambda>m.
      if m = 0 then andthen (uvmunmap new 0 (i div PGSZ) True) (ret (-1)) else
      andthen (store_mem (\<lambda>b. memmove b (unat m) (unat (PTE2PA e)) PGSIZE)) (
      bind (mappages new i PGSZ m (PTE_FLAGS e)) (\<lambda>r.
      if r \<noteq> 0 then
        andthen (kfree64 m) (andthen (uvmunmap new 0 (i div PGSZ) True) (ret (-1)))
      else uvmcopy_loop k' old new (i + PGSZ) n))))))"

definition uvmcopy :: "u64 \<Rightarrow> u64 \<Rightarrow> u64 \<Rightarrow> (int, 'z mem_st_scheme) kern" where
  "uvmcopy old new n = uvmcopy_loop (unat (n div PGSZ) + 1) old new 0 n"

definition uvmclear :: "u64 \<Rightarrow> u64 \<Rightarrow> (unit, 'z mem_st_scheme) kern" where
  "uvmclear pt va =
     bind (walk pt va False) (\<lambda>pte.
     if pte = 0 then panic ''uvmclear'' else
     bind (load64 pte) (\<lambda>e. store64 pte (e AND NOT PTE_U)))"

section \<open>Copying between kernel and user memory\<close>

text \<open>Bytes of the page of \<open>va\<close> from \<open>va\<close> on: \<open>PGSIZE - (va - va0)\<close> in the code.\<close>

definition page_room :: "u64 \<Rightarrow> nat" where
  "page_room va = PGSIZE - unat (va - PGDOWN va)"

lemma PGDOWN_alt: "va - PGDOWN va = va AND 0xFFF"
proof -
  have "(va AND NOT 0xFFF) + (va AND 0xFFF) = (va AND NOT 0xFFF) OR (va AND 0xFFF)"
    by (rule disjunctive_add_eq_or) (rule bit_word_eqI, simp add: bit_simps)
  also have "\<dots> = va" by (rule bit_word_eqI) (auto simp: bit_simps)
  finally have "va - (va AND NOT 0xFFF) = va AND 0xFFF" by (simp add: diff_eq_eq add.commute)
  then show ?thesis by (simp add: PGDOWN_def PGSZ_def)
qed

lemma page_room_bounds: "0 < page_room va" "page_room va \<le> PGSIZE"
proof -
  have "va AND 0xFFF \<le> 0xFFF" by (rule word_and_le1)
  then have "unat (va AND 0xFFF) \<le> 4095" by (simp add: word_le_nat_alt)
  then show "0 < page_room va" "page_room va \<le> PGSIZE" unfolding page_room_def PGDOWN_alt by (simp_all add: PGSIZE_def)
qed

text \<open>The kernel side of a copy is a list of bytes; \<open>len\<close> is its length.\<close>

function copyout :: "u64 \<Rightarrow> u64 \<Rightarrow> byte list \<Rightarrow> (int, 'z mem_st_scheme) kern" where
  "copyout pt dstva src =
     (if src = [] then ret 0 else
      if PGDOWN dstva \<ge> MAXVA then ret (-1) else
      bind (walk pt (PGDOWN dstva) False) (\<lambda>pte.
      if pte = 0 then ret (-1) else
      bind (load64 pte) (\<lambda>e.
      if e AND PTE_V = 0 \<or> e AND PTE_U = 0 \<or> e AND PTE_W = 0 then ret (-1) else
      andthen (store_mem (\<lambda>m. put_bytes m (unat (PTE2PA e + (dstva - PGDOWN dstva))) (take (page_room dstva) src))) (
      copyout pt (PGDOWN dstva + PGSZ) (drop (page_room dstva) src)))))"
  by auto
termination
  by (relation "measure (\<lambda>(pt, va, src). length src)") (auto simp: page_room_bounds)

declare copyout.simps [simp del]

text \<open>\<open>copyin\<close> returns the C result and the bytes it stored at \<open>dst\<close>, also when it fails part-way.\<close>

function copyin :: "u64 \<Rightarrow> u64 \<Rightarrow> nat \<Rightarrow> (int \<times> byte list, 'z mem_st_scheme) kern" where
  "copyin pt srcva len =
     (if len = 0 then ret (0, []) else
      bind (walkaddr pt (PGDOWN srcva)) (\<lambda>pa0.
      if pa0 = 0 then ret (-1, []) else
      bind (gets (\<lambda>s. get_bytes (mem s) (unat (pa0 + (srcva - PGDOWN srcva))) (min (page_room srcva) len))) (\<lambda>bs.
      bind (copyin pt (PGDOWN srcva + PGSZ) (len - min (page_room srcva) len)) (\<lambda>(r, rest).
      ret (r, bs @ rest)))))"
  by auto
termination
  by (relation "measure (\<lambda>(pt, va, n). n)") (auto simp: page_room_bounds min_def)

declare copyin.simps [simp del]

text \<open>The bytes of one page up to and including a NUL: the inner loop of \<open>copyinstr\<close>.\<close>

fun str_part :: "byte list \<Rightarrow> byte list \<times> bool" where
  "str_part [] = ([], False)"
| "str_part (b # bs) = (if b = 0 then ([0], True) else (case str_part bs of (xs, z) \<Rightarrow> (b # xs, z)))"

function copyinstr :: "u64 \<Rightarrow> u64 \<Rightarrow> nat \<Rightarrow> (int \<times> byte list, 'z mem_st_scheme) kern" where
  "copyinstr pt srcva maxn =
     (if maxn = 0 then ret (-1, []) else
      bind (walkaddr pt (PGDOWN srcva)) (\<lambda>pa0.
      if pa0 = 0 then ret (-1, []) else
      bind (gets (\<lambda>s. get_bytes (mem s) (unat (pa0 + (srcva - PGDOWN srcva))) (min (page_room srcva) maxn))) (\<lambda>bs.
      if snd (str_part bs) then ret (0, fst (str_part bs)) else
      bind (copyinstr pt (PGDOWN srcva + PGSZ) (maxn - min (page_room srcva) maxn)) (\<lambda>(r, rest).
      ret (r, bs @ rest)))))"
  by auto
termination
  by (relation "measure (\<lambda>(pt, va, n). n)") (auto simp: page_room_bounds min_def)

declare copyinstr.simps [simp del]


section \<open>Arithmetic of addresses and entries\<close>

definition px :: "nat \<Rightarrow> u64 \<Rightarrow> nat" where
  "px l va = unat (PX l va)"

lemma px_less: "px l va < 512"
proof -
  have "PX l va \<le> 0x1FF" unfolding PX_def by (rule word_and_le1)
  then have "unat (PX l va) \<le> 511" by (simp add: word_le_nat_alt)
  then show ?thesis by (simp add: px_def)
qed

definition pg_ok :: "nat \<Rightarrow> bool" where
  "pg_ok p \<longleftrightarrow> p mod PGSIZE = 0 \<and> 0 < p \<and> p < PHYSTOP"

lemma pg_ok_bound: "pg_ok p \<Longrightarrow> p < 2 ^ 32"
  by (simp add: pg_ok_def PHYSTOP_def KERNBASE_def)

lemma pg_ok_add: "pg_ok p \<Longrightarrow> i < 512 \<Longrightarrow> unat (word_of_nat p + 8 * word_of_nat i :: u64) = p + 8 * i"
  using pg_ok_bound [of p] by (simp add: unat_word_ariths unat_of_nat)

lemma slot_addr: "pg_ok p \<Longrightarrow> unat (word_of_nat p + 8 * PX l va) = p + 8 * px l va"
  using pg_ok_add [OF _ px_less, of p l va] by (simp add: px_def)

lemma word_nat_pg: "pg_ok p \<Longrightarrow> unat (word_of_nat p :: u64) = p"
  using pg_ok_bound [of p] by (simp add: unat_of_nat)

lemma word_bit_bound:
  fixes w :: u64
  assumes "unat w < 2 ^ k" "bit w n"
  shows "n < k"
proof (rule ccontr)
  assume "\<not> n < k"
  then have "(2 :: nat) ^ k \<le> 2 ^ n" by (intro power_increasing) auto
  with assms(1) have "unat w < 2 ^ n" by linarith
  then have "unat w div 2 ^ n = 0" by (rule div_less)
  moreover have "bit (unat w) n" using assms(2) by (simp add: bit_unsigned_iff)
  ultimately show False by (simp add: bit_iff_odd)
qed

lemma aligned_bits:
  assumes "pg_ok p" and b: "bit (word_of_nat p :: u64) n"
  shows "12 \<le> n" "n < 32"
proof -
  have "bit (unat (word_of_nat p :: u64)) n" using b by (simp add: bit_unsigned_iff)
  then have "bit p n" by (simp only: word_nat_pg [OF assms(1)])
  moreover have "p = push_bit 12 (p div 4096)" using assms by (auto simp: pg_ok_def PGSIZE_def push_bit_eq_mult)
  ultimately show "12 \<le> n" by (metis bit_push_bit_iff_nat)
  show "n < 32" using word_bit_bound [OF _ b] pg_ok_bound [OF assms(1)] by (simp only: word_nat_pg [OF assms(1)])
qed

text \<open>An entry built from a page and permission bits gives back the page and the bits.\<close>

lemma pte_fields:
  fixes f :: u64
  assumes p: "pg_ok p" and f: "f < 1024"
  defines "e \<equiv> PA2PTE (word_of_nat p) OR f OR PTE_V"
  shows "PTE2PA e = word_of_nat p" "PTE_FLAGS e = f OR PTE_V" "e AND PTE_V \<noteq> 0"
proof -
  have "unat f < 2 ^ 10" using f by (simp add: word_less_nat_alt)
  then have fb: "bit f n \<Longrightarrow> n < 10" for n by (rule word_bit_bound)
  have v: "bit (1 :: u64) n \<longleftrightarrow> n = 0" for n by (auto simp: bit_1_iff)
  have "bit (PTE2PA e) n = bit (word_of_nat p :: u64) n" if "n < 64" for n
    using that fb [of "n - 2"] aligned_bits [OF p, of n]
    by (auto simp: e_def PTE2PA_def PA2PTE_def PTE_V_def bit_simps v)
  then show "PTE2PA e = word_of_nat p" by (intro bit_word_eqI) simp
  have m: "PTE_FLAGS e = take_bit 10 e" by (simp add: PTE_FLAGS_def take_bit_eq_mask mask_eq_exp_minus_1)
  have "bit (PTE_FLAGS e) n = bit (f OR PTE_V) n" if "n < 64" for n
    unfolding m using that fb [of n] by (auto simp: e_def PA2PTE_def PTE_V_def bit_simps v)
  then show "PTE_FLAGS e = f OR PTE_V" by (intro bit_word_eqI) simp
  have "bit (e AND PTE_V) 0" by (simp add: e_def PTE_V_def bit_simps)
  then show "e AND PTE_V \<noteq> 0" by auto
qed


section \<open>Page-table trees in memory\<close>

definition same_page :: "bytes \<Rightarrow> bytes \<Rightarrow> nat \<Rightarrow> bool" where
  "same_page m m' p \<longleftrightarrow> (\<forall>i < PGSIZE. m' (p + i) = m (p + i))"

definition ent :: "bytes \<Rightarrow> nat \<Rightarrow> nat \<Rightarrow> u64" where
  "ent m p i = word_of_nat (le_get m (p + 8 * i) 8)"

definition present :: "bytes \<Rightarrow> nat \<Rightarrow> nat \<Rightarrow> bool" where
  "present m p i \<longleftrightarrow> ent m p i AND PTE_V \<noteq> 0"

definition child :: "bytes \<Rightarrow> nat \<Rightarrow> nat \<Rightarrow> nat" where
  "child m p i = unat (PTE2PA (ent m p i))"

text \<open>The pages of the tables below \<open>p\<close>, and that they form a tree without sharing.\<close>

fun pset :: "nat \<Rightarrow> bytes \<Rightarrow> nat \<Rightarrow> nat set" where
  "pset 0 m p = {p}"
| "pset (Suc l) m p = insert p (\<Union>i \<in> {i. i < 512 \<and> present m p i}. pset l m (child m p i))"

fun tree :: "nat \<Rightarrow> bytes \<Rightarrow> nat \<Rightarrow> bool" where
  "tree 0 m p = True"
| "tree (Suc l) m p =
     ((\<forall>i < 512. present m p i \<longrightarrow> tree l m (child m p i) \<and> p \<notin> pset l m (child m p i)) \<and>
      (\<forall>i < 512. \<forall>j < 512. i \<noteq> j \<and> present m p i \<and> present m p j \<longrightarrow>
         pset l m (child m p i) \<inter> pset l m (child m p j) = {}))"

text \<open>The leaf entry for a virtual address, 0 where a table is missing, and where it is stored.\<close>

fun leaf :: "nat \<Rightarrow> bytes \<Rightarrow> nat \<Rightarrow> u64 \<Rightarrow> u64" where
  "leaf 0 m p va = ent m p (px 0 va)"
| "leaf (Suc l) m p va =
     (if present m p (px (Suc l) va) then leaf l m (child m p (px (Suc l) va)) va else 0)"

fun slot :: "nat \<Rightarrow> bytes \<Rightarrow> nat \<Rightarrow> u64 \<Rightarrow> nat option" where
  "slot 0 m p va = Some (p + 8 * px 0 va)"
| "slot (Suc l) m p va =
     (if present m p (px (Suc l) va) then slot l m (child m p (px (Suc l) va)) va else None)"

lemma root_in_pset: "p \<in> pset l m p"
  by (cases l) auto

lemma same_page_ent: "same_page m m' p \<Longrightarrow> i < 512 \<Longrightarrow> ent m' p i = ent m p i"
  unfolding ent_def by (rule arg_cong [where f = word_of_nat], rule le_get_cong)
    (auto simp: same_page_def PGSIZE_def add.assoc)

lemma same_page_refl [simp]: "same_page m m p"
  by (simp add: same_page_def)

lemma same_page_trans: "same_page a b p \<Longrightarrow> same_page b c p \<Longrightarrow> same_page a c p"
  by (simp add: same_page_def)

lemma same_page_entries:
  "same_page m m' p \<Longrightarrow> i < 512 \<Longrightarrow> present m' p i = present m p i"
  "same_page m m' p \<Longrightarrow> i < 512 \<Longrightarrow> child m' p i = child m p i"
  by (simp_all add: present_def child_def same_page_ent)

lemma tree_frame:
  assumes "\<forall>q \<in> pset l m p. same_page m m' q"
  shows "pset l m' p = pset l m p \<and> tree l m' p = tree l m p \<and> leaf l m' p va = leaf l m p va \<and> slot l m' p va = slot l m p va"
  using assms
proof (induction l arbitrary: p)
  case 0
  then show ?case by (simp add: same_page_ent px_less)
next
  case (Suc l)
  have p: "same_page m m' p" using Suc.prems by simp
  note e = same_page_entries [OF p]
  have ih: "pset l m' (child m p i) = pset l m (child m p i)" "tree l m' (child m p i) = tree l m (child m p i)"
    "leaf l m' (child m p i) va = leaf l m (child m p i) va" "slot l m' (child m p i) va = slot l m (child m p i) va"
    if "i < 512" "present m p i" for i
    using Suc.IH [of "child m p i"] Suc.prems that by auto
  show ?case
    using px_less [of "Suc l" va] by (auto simp: e ih)
qed

text \<open>Replacing the subtree at index \<open>k\<close> of \<open>p\<close>, or adding one there.\<close>

lemma tree_upd:
  assumes t: "tree (Suc l) m p" and k: "k < 512"
    and e: "\<forall>i < 512. i \<noteq> k \<longrightarrow> ent m' p i = ent m p i"
    and o: "\<forall>i < 512. i \<noteq> k \<and> present m p i \<longrightarrow> (\<forall>q \<in> pset l m (child m p i). same_page m m' q)"
    and v: "present m' p k" and c: "child m' p k = c" and t': "tree l m' c"
    and d: "p \<notin> pset l m' c" "\<forall>i < 512. i \<noteq> k \<and> present m p i \<longrightarrow> pset l m' c \<inter> pset l m (child m p i) = {}"
  shows "tree (Suc l) m' p"
    and "pset (Suc l) m' p = insert p (pset l m' c \<union> (\<Union>i \<in> {i. i < 512 \<and> i \<noteq> k \<and> present m p i}. pset l m (child m p i)))"
    and "leaf (Suc l) m' p va = (if px (Suc l) va = k then leaf l m' c va else leaf (Suc l) m p va)"
    and "slot (Suc l) m' p va = (if px (Suc l) va = k then slot l m' c va else slot (Suc l) m p va)"
proof -
  have pr: "present m' p i = present m p i" "child m' p i = child m p i" if "i < 512" "i \<noteq> k" for i
    using e that by (simp_all add: present_def child_def)
  have fr: "pset l m' (child m p i) = pset l m (child m p i)" "tree l m' (child m p i) = tree l m (child m p i)"
    "leaf l m' (child m p i) va = leaf l m (child m p i) va" "slot l m' (child m p i) va = slot l m (child m p i) va"
    if "i < 512" "i \<noteq> k" "present m p i" for i va
    using tree_frame [of l m "child m p i" m' va] o that by blast+
  have cases: "{i. i < 512 \<and> present m' p i} = insert k {i. i < 512 \<and> i \<noteq> k \<and> present m p i}"
    using k v pr(1) by auto
  show "pset (Suc l) m' p = insert p (pset l m' c \<union> (\<Union>i \<in> {i. i < 512 \<and> i \<noteq> k \<and> present m p i}. pset l m (child m p i)))"
    using c pr(2) fr(1) by (simp add: cases)
  have A: "tree l m' (child m' p i) \<and> p \<notin> pset l m' (child m' p i)" if "i < 512" "present m' p i" for i
    using t t' d(1) c that pr fr by (cases "i = k") auto
  have B: "pset l m' (child m' p i) \<inter> pset l m' (child m' p j) = {}"
    if ij: "i < 512" "j < 512" "i \<noteq> j" "present m' p i" "present m' p j" for i j
  proof -
    consider "i = k" | "j = k" | "i \<noteq> k" "j \<noteq> k" by blast
    then show ?thesis
    proof cases
      case 1
      with ij have "j \<noteq> k" by simp
      then show ?thesis using 1 ij d(2) c pr [of j] fr(1) [of j] by simp
    next
      case 2
      with ij have "i \<noteq> k" by simp
      then show ?thesis using 2 ij d(2) c pr [of i] fr(1) [of i] by (simp add: Int_commute)
    next
      case 3
      then show ?thesis using ij t pr [of i] pr [of j] fr(1) [of i] fr(1) [of j] by simp
    qed
  qed
  show "tree (Suc l) m' p" using A B by simp
  show "leaf (Suc l) m' p va = (if px (Suc l) va = k then leaf l m' c va else leaf (Suc l) m p va)"
    using v c pr fr(3) px_less [of "Suc l" va] by auto
  show "slot (Suc l) m' p va = (if px (Suc l) va = k then slot l m' c va else slot (Suc l) m p va)"
    using v c pr fr(4) px_less [of "Suc l" va] by auto
qed

lemma le_get_zero:
  assumes "\<And>i. i < n \<Longrightarrow> m (a + i) = 0"
  shows "le_get m a n = 0"
proof -
  have "le_dec (map (\<lambda>i. 0) xs) = 0" for xs :: "nat list" by (induction xs) auto
  moreover have "map (\<lambda>i. m (a + i)) [0..<n] = map (\<lambda>i. 0) [0..<n]" using assms by simp
  ultimately show ?thesis by (simp only: le_get_def)
qed

lemma zero_tree:
  assumes "\<forall>i < PGSIZE. m (q + i) = 0"
  shows "tree l m q" "pset l m q = {q}" "leaf l m q va = 0"
proof -
  have e: "ent m q i = 0" if "i < 512" for i
  proof -
    have "le_get m (q + 8 * i) 8 = 0"
      by (rule le_get_zero) (use assms that in \<open>auto simp: PGSIZE_def add.assoc\<close>)
    then show ?thesis by (simp add: ent_def)
  qed
  then have n: "\<not> present m q i" if "i < 512" for i using that by (simp add: present_def)
  show "tree l m q" by (cases l) (use n in auto)
  show "pset l m q = {q}" by (cases l) (use n in auto)
  show "leaf l m q va = 0" using e [OF px_less] n [OF px_less] by (cases l) simp_all
qed


section \<open>Walking\<close>

lemma load64_run [exec_simps]: "load64 a s = Ok (word_of_nat (le_get (mem s) (unat a) 8)) s"
  by (simp add: load64_def gets_run)

lemma store_mem_run [exec_simps]: "store_mem f s = Ok () (s\<lparr>mem := f (mem s)\<rparr>)"
  by (simp add: store_mem_def upd_run)

lemma store64_run [exec_simps]: "store64 a v s = Ok () (s\<lparr>mem := le_put (mem s) (unat a) 8 (unat v)\<rparr>)"
  by (simp add: store64_def store_mem_run)

lemma zero_page_run [exec_simps]: "zero_page a s = Ok () (s\<lparr>mem := memset (mem s) (unat a) 0 PGSIZE\<rparr>)"
  by (simp add: zero_page_def store_mem_run)

text \<open>Only the memory and the free list differ.\<close>

definition memrel :: "'z mem_st_scheme \<Rightarrow> 'z mem_st_scheme \<Rightarrow> bool" where
  "memrel s t \<longleftrightarrow> t = s\<lparr>freelist := freelist t, mem := mem t\<rparr>"

lemma memrel_refl [simp]: "memrel s s"
  by (simp add: memrel_def)

lemma memrel_trans: "memrel s t \<Longrightarrow> memrel t u \<Longrightarrow> memrel s u"
  unfolding memrel_def by (cases s, cases t, cases u) simp

lemma memrel_mem [simp]: "memrel s (s\<lparr>mem := m\<rparr>)" "memrel s (s\<lparr>freelist := f, mem := m\<rparr>)" "memrel s (s\<lparr>mem := m, freelist := f\<rparr>)"
  by (simp_all add: memrel_def)

lemma memrel_lay: "memrel s t \<Longrightarrow> lay t = lay s"
  unfolding memrel_def by (cases s, cases t) simp

text \<open>The allocator does not see writes outside the free pages.\<close>

lemma kmem_frame:
  assumes ok: "kmem_ok s" and fr: "\<And>q. q \<in> free_pages s \<Longrightarrow> same_page (mem s) m q"
  shows "kmem_ok (s\<lparr>mem := m\<rparr>)" "free_pages (s\<lparr>mem := m\<rparr>) = free_pages s"
proof -
  from ok obtain xs where xs: "free_is s xs" by (auto simp: kmem_ok_def)
  have "chain m (freelist s) xs = chain (mem s) (freelist s) xs"
    by (rule chain_cong) (use fr free_is_pages [OF xs] in \<open>auto simp: same_page_def PGSIZE_def\<close>)
  then have t: "free_is (s\<lparr>mem := m\<rparr>) xs" using xs by (simp add: free_is_def)
  then show "kmem_ok (s\<lparr>mem := m\<rparr>)" using ok by (auto simp: kmem_ok_def)
  show "free_pages (s\<lparr>mem := m\<rparr>) = free_pages s" using free_is_pages [OF t] free_is_pages [OF xs] by simp
qed

lemma free_page_ok: "kmem_ok s \<Longrightarrow> q \<in> free_pages s \<Longrightarrow> page_ok (lay s) q"
  using free_is_pages by (auto simp: kmem_ok_def free_is_def)

lemma page_ok_pg: "kmem_ok s \<Longrightarrow> page_ok (lay s) q \<Longrightarrow> pg_ok q"
  using page_pos [of "lay s" q] by (auto simp: kmem_ok_def page_ok_def pg_ok_def)

lemma same_page_apart:
  assumes "p mod PGSIZE = 0" "q mod PGSIZE = 0" "p \<noteq> q" and o: "\<And>a. \<not> (p \<le> a \<and> a < p + PGSIZE) \<Longrightarrow> m' a = m a"
  shows "same_page m m' q"
  unfolding same_page_def using o pages_apart [OF assms(2,1)] assms(3) by metis

lemma kalloc64_none: "kmem_ok s \<Longrightarrow> free_pages s = {} \<Longrightarrow> kalloc64 s = Ok 0 s"
  using kalloc_opt_empty [of s] by (auto simp: kalloc64_def kalloc_opt_def bind_def ret_def split: res.splits if_splits)

lemma kalloc64_some:
  assumes ok: "kmem_ok s" and ne: "free_pages s \<noteq> {}"
  shows "\<exists>q t. kalloc64 s = Ok (word_of_nat q) t \<and> q \<in> free_pages s \<and> page_ok (lay s) q \<and> pg_ok q \<and> memrel s t \<and>
    kmem_ok t \<and> free_pages t = free_pages s - {q} \<and> (\<forall>a. \<not> (q \<le> a \<and> a < q + PGSIZE) \<longrightarrow> mem t a = mem s a)"
proof -
  let ?q = "freelist s"
  let ?t = "s\<lparr>freelist := run_next (mem s) ?q, mem := memset (mem s) ?q 5 PGSIZE\<rparr>"
  have k: "kalloc_opt s = Ok (Some ?q) ?t" "kmem_ok ?t" "?q \<in> free_pages s" "free_pages ?t = free_pages s - {?q}" "page_ok (lay ?t) ?q"
    using kalloc_opt_some [OF ok ne] by auto
  have "kalloc s = Ok ?q ?t"
    using k(1) by (auto simp: kalloc_opt_def bind_def ret_def split: res.splits if_splits)
  then have "kalloc64 s = Ok (word_of_nat ?q) ?t" by (simp add: kalloc64_def exec_simps)
  moreover have "page_ok (lay s) ?q" using k(5) by simp
  ultimately show ?thesis
    using k page_ok_pg [OF ok] by (intro exI [of _ ?q] exI [of _ ?t]) (auto simp: memset_run)
qed

lemma get_table:
  assumes ok: "kmem_ok s" and ne: "free_pages s \<noteq> {}"
  shows "\<exists>q t u. kalloc64 s = Ok (word_of_nat q) t \<and> zero_page (word_of_nat q) t = Ok () u \<and> (word_of_nat q :: u64) \<noteq> 0 \<and>
    q \<in> free_pages s \<and> page_ok (lay s) q \<and> pg_ok q \<and> memrel s u \<and> kmem_ok u \<and> free_pages u = free_pages s - {q} \<and>
    (\<forall>i < PGSIZE. mem u (q + i) = 0) \<and> (\<forall>a. \<not> (q \<le> a \<and> a < q + PGSIZE) \<longrightarrow> mem u a = mem s a)"
proof -
  from kalloc64_some [OF assms] obtain q t where t: "kalloc64 s = Ok (word_of_nat q) t" "q \<in> free_pages s" "page_ok (lay s) q" "pg_ok q"
    "memrel s t" "kmem_ok t" "free_pages t = free_pages s - {q}" "\<forall>a. \<not> (q \<le> a \<and> a < q + PGSIZE) \<longrightarrow> mem t a = mem s a" by blast
  let ?u = "t\<lparr>mem := memset (mem t) q 0 PGSIZE\<rparr>"
  have "same_page (mem t) (memset (mem t) q 0 PGSIZE) x" if "x \<in> free_pages t" for x
  proof (rule same_page_apart [of q])
    show "x mod PGSIZE = 0" using free_page_ok [OF t(6) that] by (simp add: page_ok_def)
  qed (use t that in \<open>auto simp: pg_ok_def memset_run\<close>)
  from kmem_frame [OF t(6) this] have "kmem_ok ?u" "free_pages ?u = free_pages s - {q}" using t(7) by auto
  moreover have "(word_of_nat q :: u64) \<noteq> 0" using word_nat_pg [OF t(4)] t(4) by (auto simp: pg_ok_def)
  moreover have "zero_page (word_of_nat q) t = Ok () ?u" by (simp only: zero_page_run word_nat_pg [OF t(4)])
  moreover have "memrel s ?u" by (rule memrel_trans [OF t(5)]) simp
  moreover have "\<forall>i < PGSIZE. mem ?u (q + i) = 0" by (simp add: memset_run)
  moreover have "\<forall>a. \<not> (q \<le> a \<and> a < q + PGSIZE) \<longrightarrow> mem ?u a = mem s a" using t(8) by (simp add: memset_run)
  ultimately show ?thesis using t(1-4) by blast
qed

lemma walk_from_run:
  assumes "\<forall>q \<in> pset l (mem s) p. pg_ok q"
  shows "walk_from l (word_of_nat p) va False s = Ok (case slot l (mem s) p va of None \<Rightarrow> 0 | Some a \<Rightarrow> word_of_nat a) s"
  using assms
proof (induction l arbitrary: p)
  case 0
  have "word_of_nat (unat (word_of_nat p + 8 * PX 0 va :: u64)) = (word_of_nat p + 8 * PX 0 va :: u64)" by simp
  then have "word_of_nat (p + 8 * px 0 va) = (word_of_nat p + 8 * PX 0 va :: u64)"
    using slot_addr [of p 0 va] 0 by simp
  then show ?case by (simp add: exec_simps)
next
  case (Suc l)
  let ?k = "px (Suc l) va"
  have p: "pg_ok p" using Suc.prems by simp
  have e: "word_of_nat (le_get (mem s) (unat (word_of_nat p + 8 * PX (Suc l) va :: u64)) 8) = ent (mem s) p ?k"
    unfolding slot_addr [OF p] by (simp add: ent_def)
  show ?case
  proof (cases "present (mem s) p ?k")
    case True
    then have "\<forall>q \<in> pset l (mem s) (child (mem s) p ?k). pg_ok q" using Suc.prems px_less [of "Suc l" va] by auto
    from Suc.IH [OF this] True show ?thesis
      by (simp add: exec_simps e present_def child_def)
  next
    case False
    then show ?thesis by (simp add: exec_simps e present_def)
  qed
qed


definition tab_ok :: "nat \<Rightarrow> 'z mem_st_scheme \<Rightarrow> nat \<Rightarrow> bool" where
  "tab_ok l s p \<longleftrightarrow> tree l (mem s) p \<and> (\<forall>q \<in> pset l (mem s) p. page_ok (lay s) q \<and> q \<notin> free_pages s)"

text \<open>What growing a table may do: take free pages as tables, and nothing that can be seen.\<close>

definition grown :: "nat \<Rightarrow> nat \<Rightarrow> 'z mem_st_scheme \<Rightarrow> 'z mem_st_scheme \<Rightarrow> bool" where
  "grown l p s t \<longleftrightarrow> kmem_ok t \<and> memrel s t \<and> tab_ok l t p \<and> free_pages t \<subseteq> free_pages s \<and>
     pset l (mem t) p = pset l (mem s) p \<union> (free_pages s - free_pages t) \<and>
     (\<forall>va. leaf l (mem t) p va = leaf l (mem s) p va) \<and>
     (\<forall>q. q mod PGSIZE = 0 \<and> q \<notin> pset l (mem s) p \<and> q \<notin> free_pages s \<longrightarrow> same_page (mem s) (mem t) q)"

lemma grownD:
  assumes "grown l p s t"
  shows "kmem_ok t" "memrel s t" "tree l (mem t) p" "free_pages t \<subseteq> free_pages s"
    "pset l (mem t) p = pset l (mem s) p \<union> (free_pages s - free_pages t)" "\<And>va. leaf l (mem t) p va = leaf l (mem s) p va"
    "\<And>q. q mod PGSIZE = 0 \<Longrightarrow> q \<notin> pset l (mem s) p \<Longrightarrow> q \<notin> free_pages s \<Longrightarrow> same_page (mem s) (mem t) q"
  using assms by (auto simp: grown_def tab_ok_def)

lemma tab_okD:
  assumes "tab_ok (Suc l) s p"
  shows "tree (Suc l) (mem s) p" "page_ok (lay s) p" "p \<notin> free_pages s"
    "\<And>i. i < 512 \<Longrightarrow> present (mem s) p i \<Longrightarrow> tab_ok l s (child (mem s) p i)"
    "\<And>i. i < 512 \<Longrightarrow> present (mem s) p i \<Longrightarrow> p \<notin> pset l (mem s) (child (mem s) p i)"
    "\<And>i j. i < 512 \<Longrightarrow> j < 512 \<Longrightarrow> i \<noteq> j \<Longrightarrow> present (mem s) p i \<Longrightarrow> present (mem s) p j \<Longrightarrow>
       pset l (mem s) (child (mem s) p i) \<inter> pset l (mem s) (child (mem s) p j) = {}"
    "\<And>i q. i < 512 \<Longrightarrow> present (mem s) p i \<Longrightarrow> q \<in> pset l (mem s) (child (mem s) p i) \<Longrightarrow> page_ok (lay s) q \<and> q \<notin> free_pages s"
  using assms by (auto simp: tab_ok_def)

text \<open>Growing the subtree at one index grows the tree.\<close>

lemma grown_parent:
  assumes ok: "tab_ok (Suc l) s p" and k: "k < 512" and t: "kmem_ok t" "memrel s t" "free_pages t \<subseteq> free_pages s" "tree l (mem t) c"
    and e: "\<forall>i < 512. i \<noteq> k \<longrightarrow> ent (mem t) p i = ent (mem s) p i"
    and v: "present (mem t) p k" "child (mem t) p k = c"
    and ps: "pset l (mem t) c = old \<union> (free_pages s - free_pages t)"
    and old: "old = (if present (mem s) p k then pset l (mem s) (child (mem s) p k) else {})"
    and lf: "\<And>va. px (Suc l) va = k \<Longrightarrow> leaf l (mem t) c va = leaf (Suc l) (mem s) p va"
    and fr: "\<And>q. q mod PGSIZE = 0 \<Longrightarrow> q \<notin> old \<Longrightarrow> q \<noteq> p \<Longrightarrow> q \<notin> free_pages s \<Longrightarrow> same_page (mem s) (mem t) q"
    and fp: "\<And>q. q \<in> free_pages s \<Longrightarrow> page_ok (lay s) q"
  shows "grown (Suc l) p s t" and "px (Suc l) va = k \<Longrightarrow> slot (Suc l) (mem t) p va = slot l (mem t) c va"
proof -
  note d = tab_okD [OF ok]
  have po: "p \<notin> old" using d(5) [OF k] by (auto simp: old)
  have oo: "old \<inter> pset l (mem s) (child (mem s) p i) = {}" if "i < 512" "i \<noteq> k" "present (mem s) p i" for i
    using d(6) [OF k that(1)] that by (auto simp: old)
  have o: "same_page (mem s) (mem t) q" if "i < 512" "i \<noteq> k" "present (mem s) p i" "q \<in> pset l (mem s) (child (mem s) p i)" for i q
  proof (rule fr)
    show "q mod PGSIZE = 0" using d(7) [OF that(1,3,4)] by (simp add: page_ok_def)
    show "q \<notin> old" using oo [OF that(1-3)] that(4) by blast
    show "q \<noteq> p" using d(5) [OF that(1,3)] that(4) by blast
    show "q \<notin> free_pages s" using d(7) [OF that(1,3,4)] by simp
  qed
  have p2: "p \<notin> pset l (mem t) c" using po d(3) by (simp add: ps)
  have dj: "pset l (mem t) c \<inter> pset l (mem s) (child (mem s) p i) = {}" if "i < 512" "i \<noteq> k" "present (mem s) p i" for i
  proof -
    have "q \<notin> free_pages s" if "q \<in> pset l (mem s) (child (mem s) p i)" for q
      using d(7) [OF \<open>i < 512\<close> \<open>present (mem s) p i\<close> that] by simp
    with oo [OF that] show ?thesis unfolding ps by blast
  qed
  have O: "\<forall>i < 512. i \<noteq> k \<and> present (mem s) p i \<longrightarrow> (\<forall>q \<in> pset l (mem s) (child (mem s) p i). same_page (mem s) (mem t) q)"
    using o by blast
  have DJ: "\<forall>i < 512. i \<noteq> k \<and> present (mem s) p i \<longrightarrow> pset l (mem t) c \<inter> pset l (mem s) (child (mem s) p i) = {}"
    using dj by blast
  note u = tree_upd [OF d(1) k e O v t(4) p2 DJ]
  let ?U = "\<Union>i \<in> {i. i < 512 \<and> i \<noteq> k \<and> present (mem s) p i}. pset l (mem s) (child (mem s) p i)"
  have olds: "pset (Suc l) (mem s) p = insert p (old \<union> ?U)" using k by (auto simp: old)
  have psn: "pset (Suc l) (mem t) p = pset (Suc l) (mem s) p \<union> (free_pages s - free_pages t)"
    unfolding u(2) olds ps by (simp add: Un_ac)
  have "page_ok (lay t) q \<and> q \<notin> free_pages t" if "q \<in> pset (Suc l) (mem t) p" for q
    using that ok t(3) fp [of q] unfolding psn memrel_lay [OF t(2)] tab_ok_def by blast
  then have "tab_ok (Suc l) t p" using u(1) by (simp add: tab_ok_def)
  moreover have "leaf (Suc l) (mem t) p va = leaf (Suc l) (mem s) p va" for va
    unfolding u(3) using lf by simp
  moreover have "same_page (mem s) (mem t) q" if "q mod PGSIZE = 0" "q \<notin> pset (Suc l) (mem s) p" "q \<notin> free_pages s" for q
    using fr [OF that(1)] that(2,3) unfolding olds by blast
  ultimately show "grown (Suc l) p s t" using t(1-3) psn by (simp add: grown_def del: pset.simps tree.simps leaf.simps)
  show "px (Suc l) va = k \<Longrightarrow> slot (Suc l) (mem t) p va = slot l (mem t) c va" unfolding u(4) by simp
qed


lemma ent_put:
  assumes "pg_ok p" "i < 512" "k < 512"
  shows "ent (le_put m (p + 8 * k) 8 (unat v)) p i = (if i = k then v else ent m p i)"
proof (cases "i = k")
  case True
  have "unat v < 256 ^ 8" using unsigned_less [of v, where ?'a = nat] by simp
  then show ?thesis using True by (simp add: ent_def le_get_put_same)
next
  case False
  then have "p + 8 * i + 8 \<le> p + 8 * k \<or> p + 8 * k + 8 \<le> p + 8 * i" by arith
  with False show ?thesis by (simp add: ent_def le_get_put_other)
qed

lemma put_same_page:
  assumes "p mod PGSIZE = 0" "q mod PGSIZE = 0" "p \<noteq> q" "k < 512"
  shows "same_page m (le_put m (p + 8 * k) 8 v) q"
proof (rule same_page_apart [OF assms(1,2,3)])
  fix a assume "\<not> (p \<le> a \<and> a < p + PGSIZE)"
  then show "le_put m (p + 8 * k) 8 v a = m a" using assms(4) by (intro le_put_outside) (auto simp: PGSIZE_def)
qed

lemma grown_refl: "kmem_ok s \<Longrightarrow> tab_ok l s p \<Longrightarrow> grown l p s s"
  by (simp add: grown_def)

lemma new_table:
  assumes ok: "kmem_ok s" "tab_ok (Suc l) s p" and ne: "free_pages s \<noteq> {}" and k: "k < 512"
  defines "a \<equiv> word_of_nat p + 8 * word_of_nat k"
  shows "\<exists>q t u. kalloc64 s = Ok (word_of_nat q) t \<and> (word_of_nat q :: u64) \<noteq> 0 \<and>
    andthen (zero_page (word_of_nat q)) (store64 a (PA2PTE (word_of_nat q) OR PTE_V)) t = Ok () u \<and>
    kmem_ok u \<and> memrel s u \<and> free_pages u = free_pages s - {q} \<and> q \<in> free_pages s \<and> tab_ok l u q \<and> pset l (mem u) q = {q} \<and>
    (\<forall>va. leaf l (mem u) q va = 0) \<and> present (mem u) p k \<and> child (mem u) p k = q \<and>
    (\<forall>i < 512. i \<noteq> k \<longrightarrow> ent (mem u) p i = ent (mem s) p i) \<and>
    (\<forall>x. x mod PGSIZE = 0 \<and> x \<noteq> p \<and> x \<noteq> q \<longrightarrow> same_page (mem s) (mem u) x)"
proof -
  note d = tab_okD [OF ok(2)]
  from get_table [OF ok(1) ne] obtain q t u where g: "kalloc64 s = Ok (word_of_nat q) t"
    "zero_page (word_of_nat q) t = Ok () u" "(word_of_nat q :: u64) \<noteq> 0" "q \<in> free_pages s" "page_ok (lay s) q" "pg_ok q"
    "memrel s u" "kmem_ok u" "free_pages u = free_pages s - {q}" "\<forall>i < PGSIZE. mem u (q + i) = 0"
    "\<forall>a. \<not> (q \<le> a \<and> a < q + PGSIZE) \<longrightarrow> mem u a = mem s a" by blast
  have p: "pg_ok p" using page_ok_pg [OF ok(1) d(2)] .
  have pm: "p mod PGSIZE = 0" and qm: "q mod PGSIZE = 0" using p g(6) by (simp_all add: pg_ok_def)
  have pq: "p \<noteq> q" using d(3) g(4) by auto
  let ?E = "PA2PTE (word_of_nat q) OR PTE_V"
  let ?m = "le_put (mem u) (p + 8 * k) 8 (unat ?E)"
  let ?w = "u\<lparr>mem := ?m\<rparr>"
  have ua: "unat a = p + 8 * k" unfolding a_def by (rule pg_ok_add [OF p k])
  have run: "andthen (zero_page (word_of_nat q)) (store64 a ?E) t = Ok () ?w"
    using g(2) by (simp add: exec_simps ua)
  have su: "same_page (mem s) (mem u) x" if "x mod PGSIZE = 0" "x \<noteq> q" for x
    by (rule same_page_apart [OF qm that(1)]) (use that g(11) in auto)
  have sm: "same_page (mem u) ?m x" if "x mod PGSIZE = 0" "x \<noteq> p" for x
    by (rule put_same_page [OF pm that(1) _ k]) (use that in simp)
  have kw: "kmem_ok ?w" "free_pages ?w = free_pages u"
  proof -
    have fr: "same_page (mem u) ?m x" if "x \<in> free_pages u" for x
    proof (rule sm)
      show "x mod PGSIZE = 0" using free_page_ok [OF g(8) that] by (simp add: page_ok_def)
      show "x \<noteq> p" using that g(9) d(3) by auto
    qed
    show "kmem_ok ?w" "free_pages ?w = free_pages u" using kmem_frame [OF g(8) fr] by auto
  qed
  have z: "\<forall>i < PGSIZE. ?m (q + i) = 0" using sm [OF qm] pq g(10) by (simp add: same_page_def)
  have fields: "ent ?m p k = ?E" using ent_put [OF p k k, of "mem u" ?E] by simp
  have pf: "PTE2PA ?E = word_of_nat q" "?E AND PTE_V \<noteq> 0" using pte_fields(1,3) [OF g(6), of 0] by simp_all
  have "present ?m p k" "child ?m p k = q"
    using fields pf word_nat_pg [OF g(6)] by (simp_all add: present_def child_def)
  moreover have "ent ?m p i = ent (mem s) p i" if "i < 512" "i \<noteq> k" for i
    using ent_put [OF p that(1) k, of "mem u" ?E] that same_page_ent [OF su [OF pm pq] that(1)] by simp
  moreover have "same_page (mem s) ?m x" if "x mod PGSIZE = 0" "x \<noteq> p" "x \<noteq> q" for x
    by (rule same_page_trans [OF su [OF that(1,3)] sm [OF that(1,2)]])
  moreover have "memrel s ?w" by (rule memrel_trans [OF g(7)]) simp
  moreover have "tab_ok l ?w q"
    using zero_tree [OF z] g(5,9) kw memrel_lay [OF \<open>memrel s ?w\<close>] by (simp add: tab_ok_def)
  ultimately show ?thesis
    using g run kw zero_tree [OF z] by (intro exI [of _ q] exI [of _ t] exI [of _ ?w]) simp
qed

lemma walk_alloc:
  assumes "kmem_ok s" "tab_ok l s p"
  shows "\<exists>r t. walk_from l (word_of_nat p) va True s = Ok r t \<and> grown l p s t \<and>
    (if r = 0 then free_pages t = {} else slot l (mem t) p va = Some (unat r))"
  using assms
proof (induction l arbitrary: s p)
  case 0
  then have p: "pg_ok p" using page_ok_pg by (auto simp: tab_ok_def)
  have "unat (word_of_nat p + 8 * PX 0 va :: u64) = p + 8 * px 0 va" by (rule slot_addr [OF p])
  then show ?case using 0 grown_refl p by (auto simp: exec_simps pg_ok_def)
next
  case (Suc l)
  let ?k = "px (Suc l) va"
  note d = tab_okD [OF Suc.prems(2)] and k = px_less [of "Suc l" va]
  have p: "pg_ok p" using page_ok_pg [OF Suc.prems(1) d(2)] .
  have pm: "p mod PGSIZE = 0" using p by (simp add: pg_ok_def)
  have e: "word_of_nat (le_get (mem s) (unat (word_of_nat p + 8 * PX (Suc l) va :: u64)) 8) = ent (mem s) p ?k"
    unfolding slot_addr [OF p] by (simp add: ent_def)
  have fp: "\<And>q. q \<in> free_pages s \<Longrightarrow> page_ok (lay s) q" by (rule free_page_ok [OF Suc.prems(1)])
  consider (pres) "present (mem s) p ?k" | (full) "\<not> present (mem s) p ?k" "free_pages s = {}"
    | (new) "\<not> present (mem s) p ?k" "free_pages s \<noteq> {}" by blast
  then show ?case
  proof cases
    case pres
    let ?c = "child (mem s) p ?k"
    from Suc.IH [OF Suc.prems(1) d(4) [OF k pres]] obtain r t where
      t: "walk_from l (word_of_nat ?c) va True s = Ok r t" "grown l ?c s t"
        "if r = 0 then free_pages t = {} else slot l (mem t) ?c va = Some (unat r)" by blast
    note g = grownD [OF t(2)]
    have sp: "same_page (mem s) (mem t) p" by (rule g(7) [OF pm d(5) [OF k pres] d(3)])
    have gr: "grown (Suc l) p s t" "slot (Suc l) (mem t) p va = slot l (mem t) ?c va"
      by (rule grown_parent [OF Suc.prems(2) k g(1,2,4,3), where old = "pset l (mem s) ?c"];
          use same_page_ent [OF sp] same_page_entries [OF sp k] pres g fp in \<open>simp add: pres\<close>)+
    have "walk_from (Suc l) (word_of_nat p) va True s = Ok r t"
      using t(1) pres by (simp add: exec_simps e present_def child_def)
    with gr t(3) show ?thesis by auto
  next
    case full
    then have "walk_from (Suc l) (word_of_nat p) va True s = Ok 0 s"
      using kalloc64_none [OF Suc.prems(1)] by (simp add: exec_simps e present_def)
    with full grown_refl [OF Suc.prems] show ?thesis by auto
  next
    case new
    from new_table [OF Suc.prems new(2) k] obtain q s0 u where n: "kalloc64 s = Ok (word_of_nat q) s0" "(word_of_nat q :: u64) \<noteq> 0"
      "andthen (zero_page (word_of_nat q)) (store64 (word_of_nat p + 8 * word_of_nat ?k) (PA2PTE (word_of_nat q) OR PTE_V)) s0 = Ok () u"
      "kmem_ok u" "memrel s u" "free_pages u = free_pages s - {q}" "q \<in> free_pages s" "tab_ok l u q" "pset l (mem u) q = {q}"
      "\<forall>va. leaf l (mem u) q va = 0" "present (mem u) p ?k" "child (mem u) p ?k = q"
      "\<forall>i < 512. i \<noteq> ?k \<longrightarrow> ent (mem u) p i = ent (mem s) p i"
      "\<forall>x. x mod PGSIZE = 0 \<and> x \<noteq> p \<and> x \<noteq> q \<longrightarrow> same_page (mem s) (mem u) x" by blast
    from Suc.IH [OF n(4,8)] obtain r t where
      t: "walk_from l (word_of_nat q) va True u = Ok r t" "grown l q u t"
        "if r = 0 then free_pages t = {} else slot l (mem t) q va = Some (unat r)" by blast
    note g = grownD [OF t(2)]
    have pq: "p \<noteq> q" using d(3) n(7) by auto
    have sp: "same_page (mem u) (mem t) p" by (rule g(7) [OF pm]) (use pq n(6,9) d(3) in auto)
    have ft: "free_pages t \<subseteq> free_pages s" using g(4) n(6) by auto
    have qt: "q \<notin> free_pages t" using g(4) n(6) by auto
    have gr: "grown (Suc l) p s t" "slot (Suc l) (mem t) p va = slot l (mem t) q va"
    proof -
      have a: "\<forall>i < 512. i \<noteq> ?k \<longrightarrow> ent (mem t) p i = ent (mem s) p i" using same_page_ent [OF sp] n(13) by simp
      have b: "present (mem t) p ?k" "child (mem t) p ?k = q" using same_page_entries [OF sp k] n(11,12) by auto
      have c: "pset l (mem t) q = {} \<union> (free_pages s - free_pages t)" using g(5) n(6,7,9) qt by auto
      have e: "leaf l (mem t) q va' = leaf (Suc l) (mem s) p va'" if "px (Suc l) va' = ?k" for va'
        using g(6) n(10) new(1) that by simp
      have f: "same_page (mem s) (mem t) x" if "x mod PGSIZE = 0" "x \<notin> {}" "x \<noteq> p" "x \<notin> free_pages s" for x
      proof (rule same_page_trans [of _ "mem u"])
        have "x \<noteq> q" using that(4) n(7) by auto
        then show "same_page (mem s) (mem u) x" using n(14) that(1,3) by simp
        show "same_page (mem u) (mem t) x" by (rule g(7) [OF that(1)]) (use \<open>x \<noteq> q\<close> that(4) n(6,9) in auto)
      qed
      note gp = grown_parent [OF Suc.prems(2) k g(1) memrel_trans [OF n(5) g(2)] ft g(3) a b c _ e f fp]
      show "grown (Suc l) p s t" by (rule gp(1)) (use new(1) in auto)
      show "slot (Suc l) (mem t) p va = slot l (mem t) q va" by (rule gp(2)) (use new(1) in auto)
    qed
    have a: "word_of_nat p + 8 * word_of_nat ?k = (word_of_nat p + 8 * PX (Suc l) va :: u64)" by (simp add: px_def)
    from n(3) obtain s1 where "zero_page (word_of_nat q) s0 = Ok () s1"
      "store64 (word_of_nat p + 8 * PX (Suc l) va) (PA2PTE (word_of_nat q) OR PTE_V) s1 = Ok () u"
      unfolding a andthen_Ok_iff by auto
    then have "walk_from (Suc l) (word_of_nat p) va True s = Ok r t"
      using new(1) n(1,2) t(1) by (simp add: exec_simps e present_def)
    with gr t(3) show ?thesis by auto
  qed
qed


section \<open>Page tables implement maps\<close>

definition same_idx :: "nat \<Rightarrow> u64 \<Rightarrow> u64 \<Rightarrow> bool" where
  "same_idx l va va' \<longleftrightarrow> (\<forall>j \<le> l. px j va' = px j va)"

lemma same_idx_Suc: "same_idx (Suc l) va va' \<longleftrightarrow> px (Suc l) va' = px (Suc l) va \<and> same_idx l va va'"
  by (auto simp: same_idx_def le_Suc_eq)

lemma leaf_put:
  fixes v :: u64
  assumes "tree l m p" "\<forall>q \<in> pset l m p. pg_ok q" "slot l m p va = Some a"
  defines "m' \<equiv> le_put m a 8 (unat v)"
  shows "tree l m' p \<and> pset l m' p = pset l m p \<and> (\<forall>va'. leaf l m' p va' = (if same_idx l va va' then v else leaf l m p va')) \<and>
    (\<forall>va'. slot l m' p va' = slot l m p va') \<and> (\<forall>q. q mod PGSIZE = 0 \<and> q \<notin> pset l m p \<longrightarrow> same_page m m' q)"
  using assms(1-3)
proof (induction l arbitrary: p)
  case 0
  then have a: "a = p + 8 * px 0 va" and p: "pg_ok p" by simp_all
  have "same_page m m' q" if "q mod PGSIZE = 0" "q \<noteq> p" for q
    unfolding m'_def a by (rule put_same_page) (use p that px_less in \<open>auto simp: pg_ok_def\<close>)
  then show ?case
    using ent_put [OF p px_less px_less] by (auto simp: m'_def a same_idx_def)
next
  case (Suc l)
  let ?k = "px (Suc l) va"
  let ?c = "child m p ?k"
  note k = px_less [of "Suc l" va]
  have pr: "present m p ?k" and sl: "slot l m ?c va = Some a" using Suc.prems(3) by (simp_all split: if_splits)
  have tc: "tree l m ?c" "p \<notin> pset l m ?c" "\<forall>q \<in> pset l m ?c. pg_ok q" using Suc.prems(1,2) k pr by auto
  have sub: "pset l m ?c \<subseteq> pset (Suc l) m p" using k pr by auto
  note IH = Suc.IH [OF tc(1,3) sl]
  have ps: "pset l m' ?c = pset l m ?c" "tree l m' ?c" using IH by simp_all
  have lf: "leaf l m' ?c va' = (if same_idx l va va' then v else leaf l m ?c va')" for va' using IH by simp
  have st: "slot l m' ?c va' = slot l m ?c va'" for va' using IH by simp
  have fr: "same_page m m' q" if "q mod PGSIZE = 0" "q \<notin> pset l m ?c" for q using IH that by simp
  have pm: "p mod PGSIZE = 0" using Suc.prems(2) by (simp add: pg_ok_def)
  then have sp: "same_page m m' p" using fr tc(2) by simp
  have e: "\<forall>i < 512. i \<noteq> ?k \<longrightarrow> ent m' p i = ent m p i" using same_page_ent [OF sp] by simp
  have dj: "pset l m ?c \<inter> pset l m (child m p i) = {}" if "i < 512" "i \<noteq> ?k" "present m p i" for i
    using Suc.prems(1) k pr that by simp
  have o: "\<forall>i < 512. i \<noteq> ?k \<and> present m p i \<longrightarrow> (\<forall>q \<in> pset l m (child m p i). same_page m m' q)"
  proof (intro allI impI ballI)
    fix i q assume i: "i < 512" "i \<noteq> ?k \<and> present m p i" "q \<in> pset l m (child m p i)"
    then have "q \<notin> pset l m ?c" using dj by blast
    moreover have "q mod PGSIZE = 0" using Suc.prems(2) i by (auto simp: pg_ok_def)
    ultimately show "same_page m m' q" by (intro fr)
  qed
  have v: "present m' p ?k" "child m' p ?k = ?c" using same_page_entries [OF sp k] pr by auto
  have d: "p \<notin> pset l m' ?c" "\<forall>i < 512. i \<noteq> ?k \<and> present m p i \<longrightarrow> pset l m' ?c \<inter> pset l m (child m p i) = {}"
    unfolding ps(1) using tc(2) dj by simp_all
  note u = tree_upd [OF Suc.prems(1) k e o v ps(2) d]
  have pe: "pset (Suc l) m' p = pset (Suc l) m p"
  proof -
    have "{i. i < 512 \<and> present m p i} = insert ?k {i. i < 512 \<and> i \<noteq> ?k \<and> present m p i}" using k pr by auto
    then show ?thesis unfolding u(2) ps(1) by simp
  qed
  have "leaf (Suc l) m' p va' = (if same_idx (Suc l) va va' then v else leaf (Suc l) m p va')" for va'
    unfolding u(3) same_idx_Suc lf using pr by simp
  moreover have "slot (Suc l) m' p va' = slot (Suc l) m p va'" for va'
    unfolding u(4) st using pr by simp
  moreover have "same_page m m' q" if "q mod PGSIZE = 0" "q \<notin> pset (Suc l) m p" for q
    by (rule fr [OF that(1)]) (use sub that(2) in blast)
  ultimately show ?case using u(1) pe by (simp del: tree.simps pset.simps leaf.simps slot.simps)
qed

lemma unat_and_4095: "unat (va AND 0xFFF :: u64) = unat va mod 4096"
proof -
  have "va AND 0xFFF = take_bit 12 va" by (simp add: take_bit_eq_mask mask_eq_exp_minus_1)
  then have "unat (va AND 0xFFF) = take_bit 12 (unat va)" by (simp only: unsigned_take_bit_eq)
  then show ?thesis by (simp add: take_bit_eq_mod)
qed

lemma unat_PGDOWN: "unat (PGDOWN va) = unat va div 4096 * 4096"
proof -
  have "va AND 0xFFF \<le> va" by (rule word_and_le2)
  then have "unat (va - (va AND 0xFFF)) = unat va - unat va mod 4096"
    using unat_sub [of "va AND 0xFFF" va] by (simp add: unat_and_4095)
  moreover have "PGDOWN va = va - (va AND 0xFFF)" using PGDOWN_alt [of va] by (simp add: diff_eq_eq eq_diff_eq add.commute)
  ultimately show ?thesis by (simp add: minus_mod_eq_div_mult)
qed

lemma unat_offset: "unat (va - PGDOWN va) = unat va mod 4096"
  unfolding PGDOWN_alt by (rule unat_and_4095)

lemma px_bits: "bit (PX l va) n \<longleftrightarrow> n < 9 \<and> bit va (12 + 9 * l + n)"
proof -
  have "PX l va = take_bit 9 (drop_bit (12 + 9 * l) va)"
    by (simp add: PX_def take_bit_eq_mask mask_eq_exp_minus_1)
  then show ?thesis by (simp add: bit_take_bit_iff bit_drop_bit_eq)
qed

lemma PGDOWN_bits: "bit (PGDOWN va) n \<longleftrightarrow> 12 \<le> n \<and> bit va n"
proof -
  have "PGDOWN va = va AND NOT (mask 12)" by (simp add: PGDOWN_def PGSZ_def mask_eq_exp_minus_1)
  then show ?thesis by (auto simp: bit_and_iff bit_not_iff bit_mask_iff dest: bit_imp_le_length)
qed

lemma maxva_bits: "va < MAXVA \<Longrightarrow> bit va n \<Longrightarrow> n < 38"
  using word_bit_bound [of va 38 n] by (simp add: MAXVA_def word_less_nat_alt)

text \<open>The three indices of an address below \<open>MAXVA\<close> determine its page.\<close>

lemma same_idx_page:
  assumes "va < MAXVA" "va' < MAXVA"
  shows "same_idx 2 va va' \<longleftrightarrow> PGDOWN va' = PGDOWN va"
proof
  assume s: "same_idx 2 va va'"
  show "PGDOWN va' = PGDOWN va"
  proof (rule bit_word_eqI)
    fix n
    have "bit va' n = bit va n" if n: "12 \<le> n" "n < 39"
    proof -
      let ?j = "(n - 12) div 9" and ?i = "(n - 12) mod 9"
      have "?j \<le> 2" using n by linarith
      then have "PX ?j va' = PX ?j va" using s by (simp add: same_idx_def px_def word_unat_eq_iff)
      then have "bit (PX ?j va') ?i = bit (PX ?j va) ?i" by simp
      moreover have "12 + 9 * ?j + ?i = n" using n by simp
      ultimately show ?thesis unfolding px_bits by simp
    qed
    then show "bit (PGDOWN va') n = bit (PGDOWN va) n"
      unfolding PGDOWN_bits using maxva_bits [OF assms(1), of n] maxva_bits [OF assms(2), of n] by (cases "n < 39") auto
  qed
next
  assume p: "PGDOWN va' = PGDOWN va"
  have "PX j va' = PX j va" for j
  proof (rule bit_word_eqI)
    fix n
    have "bit (PGDOWN va') (12 + 9 * j + n) = bit (PGDOWN va) (12 + 9 * j + n)" using p by simp
    then show "bit (PX j va') n = bit (PX j va) n" unfolding PGDOWN_bits px_bits by simp
  qed
  then show "same_idx 2 va va'" by (simp add: same_idx_def px_def)
qed


text \<open>The page table at \<open>p\<close> now maps as \<open>f\<close> says; only tables and free pages were touched.\<close>

definition remap :: "nat \<Rightarrow> (u64 \<Rightarrow> u64) \<Rightarrow> 'z mem_st_scheme \<Rightarrow> 'z mem_st_scheme \<Rightarrow> bool" where
  "remap p f s t \<longleftrightarrow> kmem_ok t \<and> memrel s t \<and> tab_ok 2 t p \<and> free_pages t \<subseteq> free_pages s \<and>
     pset 2 (mem t) p = pset 2 (mem s) p \<union> (free_pages s - free_pages t) \<and>
     (\<forall>x < MAXVA. leaf 2 (mem t) p x = f x) \<and>
     (\<forall>q. q mod PGSIZE = 0 \<and> q \<notin> pset 2 (mem s) p \<and> q \<notin> free_pages s \<longrightarrow> same_page (mem s) (mem t) q)"

lemma remapD:
  assumes "remap p f s t"
  shows "kmem_ok t" "memrel s t" "tab_ok 2 t p" "free_pages t \<subseteq> free_pages s"
    "pset 2 (mem t) p = pset 2 (mem s) p \<union> (free_pages s - free_pages t)" "\<And>x. x < MAXVA \<Longrightarrow> leaf 2 (mem t) p x = f x"
    "\<And>q. q mod PGSIZE = 0 \<Longrightarrow> q \<notin> pset 2 (mem s) p \<Longrightarrow> q \<notin> free_pages s \<Longrightarrow> same_page (mem s) (mem t) q"
  using assms by (simp_all add: remap_def)

lemma remap_trans:
  assumes a: "remap p f s t" and b: "remap p g t u"
  shows "remap p g s u"
proof -
  note A = remapD [OF a] and B = remapD [OF b]
  have "pset 2 (mem u) p = pset 2 (mem s) p \<union> (free_pages s - free_pages u)"
    unfolding B(5) A(5) using A(4) B(4) by blast
  moreover have "same_page (mem s) (mem u) q" if "q mod PGSIZE = 0" "q \<notin> pset 2 (mem s) p" "q \<notin> free_pages s" for q
  proof (rule same_page_trans [OF A(7) [OF that] B(7) [OF that(1)]])
    show "q \<notin> pset 2 (mem t) p" "q \<notin> free_pages t" using that A(4) unfolding A(5) by blast+
  qed
  ultimately show ?thesis
    using A(4) B memrel_trans [OF A(2) B(2)] by (simp add: remap_def)
qed

lemma grown_remap: "grown 2 p s t \<Longrightarrow> remap p (leaf 2 (mem s) p) s t"
  by (simp add: grown_def remap_def)

lemma remap_cong: "remap p f s t \<Longrightarrow> (\<And>x. x < MAXVA \<Longrightarrow> f x = g x) \<Longrightarrow> remap p g s t"
  by (simp add: remap_def)

lemma slot_leaf: "slot l m p va = Some a \<Longrightarrow> leaf l m p va = word_of_nat (le_get m a 8)"
  by (induction l arbitrary: p) (auto simp: ent_def split: if_splits)

lemma store_leaf:
  fixes v :: u64
  assumes ok: "kmem_ok s" "tab_ok 2 s p" and sl: "slot 2 (mem s) p va = Some a" and va: "va < MAXVA"
  shows "remap p (\<lambda>x. if PGDOWN x = PGDOWN va then v else leaf 2 (mem s) p x) s (s\<lparr>mem := le_put (mem s) a 8 (unat v)\<rparr>)"
proof -
  let ?m = "le_put (mem s) a 8 (unat v)"
  have pg: "\<forall>q \<in> pset 2 (mem s) p. pg_ok q" using ok page_ok_pg [OF ok(1)] by (auto simp: tab_ok_def)
  have "tree 2 (mem s) p" using ok(2) by (simp add: tab_ok_def)
  note L = leaf_put [OF this pg sl, of v]
  note L1 = L [THEN conjunct1] and L2 = L [THEN conjunct2, THEN conjunct1] and L3 = L [THEN conjunct2, THEN conjunct2, THEN conjunct1, rule_format]
    and L5 = L [THEN conjunct2, THEN conjunct2, THEN conjunct2, THEN conjunct2, rule_format, OF conjI]
  have "same_page (mem s) ?m q" if "q \<in> free_pages s" for q
  proof (rule L5)
    show "q mod PGSIZE = 0" using free_page_ok [OF ok(1) that] by (simp add: page_ok_def)
    show "q \<notin> pset 2 (mem s) p" using ok(2) that unfolding tab_ok_def by blast
  qed
  note F = kmem_frame [OF ok(1) this]
  have "leaf 2 ?m p x = (if PGDOWN x = PGDOWN va then v else leaf 2 (mem s) p x)" if "x < MAXVA" for x
    unfolding L3 same_idx_page [OF va that] ..
  moreover have "tab_ok 2 (s\<lparr>mem := ?m\<rparr>) p"
    using ok(2) L1 F(2) by (simp add: tab_ok_def L2)
  ultimately show ?thesis
    unfolding remap_def using F L2 L5 by simp
qed

text \<open>Virtual addresses that \<open>n\<close> pages from \<open>a\<close> on contain.\<close>

definition mapped :: "u64 \<Rightarrow> nat \<Rightarrow> u64 \<Rightarrow> u64 \<Rightarrow> (u64 \<Rightarrow> u64) \<Rightarrow> u64 \<Rightarrow> u64" where
  "mapped a n pa perm f x =
     (if a \<le> x \<and> unat x < unat a + n * 4096 then PA2PTE (pa + (PGDOWN x - a)) OR perm OR PTE_V else f x)"

lemma page_of:
  assumes "unat a mod 4096 = 0"
  shows "PGDOWN x = a \<longleftrightarrow> a \<le> x \<and> unat x < unat a + 4096"
proof -
  from assms obtain k where k: "unat a = 4096 * k" by auto
  have "PGDOWN x = a \<longleftrightarrow> unat x div 4096 * 4096 = unat a" unfolding word_unat_eq_iff unat_PGDOWN ..
  also have "\<dots> \<longleftrightarrow> unat x div 4096 = k" by (simp add: k)
  also have "\<dots> \<longleftrightarrow> 4096 * k \<le> unat x \<and> unat x < 4096 * k + 4096" by linarith
  finally show ?thesis by (simp add: word_le_nat_alt k)
qed

lemma PGDOWN_aligned: "unat a mod 4096 = 0 \<Longrightarrow> PGDOWN a = a"
  by (simp add: page_of)

lemma mapped_step:
  assumes al: "unat a mod 4096 = 0" and le: "unat a + 4096 \<le> 2 ^ 38"
  shows "mapped (a + PGSZ) n (pa + PGSZ) perm (\<lambda>x. if PGDOWN x = a then PA2PTE pa OR perm OR PTE_V else f x) =
    mapped a (Suc n) pa perm f"
proof
  fix x
  have ua: "unat (a + PGSZ) = unat a + 4096" using le by (simp add: PGSZ_def unat_word_ariths)
  have c: "a + PGSZ \<le> x \<longleftrightarrow> unat a + 4096 \<le> unat x" "a \<le> x \<longleftrightarrow> unat a \<le> unat x" by (simp_all add: word_le_nat_alt ua)
  show "mapped (a + PGSZ) n (pa + PGSZ) perm (\<lambda>x. if PGDOWN x = a then PA2PTE pa OR perm OR PTE_V else f x) x =
    mapped a (Suc n) pa perm f x"
    unfolding mapped_def page_of [OF al] c ua
    using page_of [OF al, of x] by (auto simp: c algebra_simps)
qed


lemma maxva_unat: "x < MAXVA \<longleftrightarrow> unat x < 2 ^ 38"
  by (simp add: MAXVA_def word_less_nat_alt)

lemma slot_nonzero: "(\<forall>q \<in> pset l m p. pg_ok q) \<Longrightarrow> slot l m p va = Some a \<Longrightarrow> 0 < a \<and> a < 2 ^ 33"
proof (induction l arbitrary: p)
  case 0
  then show ?case using px_less [of 0 va] pg_ok_bound [of p] by (auto simp: pg_ok_def)
next
  case (Suc l)
  then show ?case using px_less [of "Suc l" va] by (auto split: if_splits)
qed

lemma map_one:
  assumes ok: "kmem_ok s" "tab_ok 2 s p" and a: "a < MAXVA" and un: "leaf 2 (mem s) p a AND PTE_V = 0"
  shows "(\<exists>t. walk (word_of_nat p) a True s = Ok 0 t \<and> remap p (leaf 2 (mem s) p) s t \<and> free_pages t = {}) \<or>
    (\<exists>pte t. walk (word_of_nat p) a True s = Ok pte t \<and> pte \<noteq> 0 \<and> word_of_nat (le_get (mem t) (unat pte) 8) AND PTE_V = 0 \<and>
      (\<forall>v. remap p (\<lambda>x. if PGDOWN x = PGDOWN a then v else leaf 2 (mem s) p x) s (t\<lparr>mem := le_put (mem t) (unat pte) 8 (unat v)\<rparr>)))"
proof -
  from walk_alloc [OF ok, of a] obtain r t where w: "walk_from 2 (word_of_nat p) a True s = Ok r t" "grown 2 p s t"
    "if r = 0 then free_pages t = {} else slot 2 (mem t) p a = Some (unat r)" by blast
  have run: "walk (word_of_nat p) a True s = Ok r t" using w(1) a by (auto simp: walk_def)
  note g = grown_remap [OF w(2)]
  show ?thesis
  proof (cases "r = 0")
    case True
    then show ?thesis using run g w(3) by auto
  next
    case False
    then have sl: "slot 2 (mem t) p a = Some (unat r)" using w(3) by simp
    have "word_of_nat (le_get (mem t) (unat r) 8) AND PTE_V = 0"
      using slot_leaf [OF sl] remapD(6) [OF g a] un by simp
    moreover have "remap p (\<lambda>x. if PGDOWN x = PGDOWN a then v else leaf 2 (mem s) p x) s (t\<lparr>mem := le_put (mem t) (unat r) 8 (unat v)\<rparr>)" for v
      by (rule remap_cong [OF remap_trans [OF g store_leaf [OF remapD(1,3) [OF g] sl a]]]) (use remapD(6) [OF g] in simp)
    ultimately show ?thesis using run False by blast
  qed
qed

lemma mappages_loop_maps:
  assumes "kmem_ok s" "tab_ok 2 s p" and "unat a mod 4096 = 0" "unat a + (n + 1) * 4096 \<le> 2 ^ 38"
    and "\<forall>x. a \<le> x \<and> unat x < unat a + (n + 1) * 4096 \<longrightarrow> leaf 2 (mem s) p x AND PTE_V = 0"
  shows "\<exists>r t j. mappages_loop (Suc n) (word_of_nat p) a (a + word_of_nat n * PGSZ) pa perm s = Ok r t \<and>
    remap p (mapped a j pa perm (leaf 2 (mem s) p)) s t \<and> (r = 0 \<and> j = Suc n \<or> r = -1 \<and> j \<le> n \<and> free_pages t = {})"
  using assms
proof (induction n arbitrary: s a pa)
  case (0 s a pa)
  have a: "a < MAXVA" using 0(4) by (simp add: maxva_unat)
  have un: "leaf 2 (mem s) p a AND PTE_V = 0" using 0(5) by simp
  have m0: "mapped a 0 pa perm f = f" for f by (auto simp: mapped_def fun_eq_iff word_le_nat_alt)
  have m1: "mapped a (Suc 0) pa perm f = (\<lambda>x. if PGDOWN x = PGDOWN a then PA2PTE pa OR perm OR PTE_V else f x)" for f
  proof
    fix x
    show "mapped a (Suc 0) pa perm f x = (if PGDOWN x = PGDOWN a then PA2PTE pa OR perm OR PTE_V else f x)"
      unfolding PGDOWN_aligned [OF 0(3)] mapped_def by (cases "PGDOWN x = a") (use page_of [OF 0(3), of x] in auto)
  qed
  from map_one [OF 0(1,2) a un] show ?case
  proof (elim disjE exE conjE)
    fix t assume "walk (word_of_nat p) a True s = Ok 0 t" "remap p (leaf 2 (mem s) p) s t" "free_pages t = {}"
    then show ?case by (intro exI [of _ "-1"] exI [of _ t] exI [of _ 0]) (simp add: exec_simps m0)
  next
    fix pte t assume "walk (word_of_nat p) a True s = Ok pte t" "pte \<noteq> 0" "word_of_nat (le_get (mem t) (unat pte) 8) AND PTE_V = 0"
      and r: "\<forall>v. remap p (\<lambda>x. if PGDOWN x = PGDOWN a then v else leaf 2 (mem s) p x) s (t\<lparr>mem := le_put (mem t) (unat pte) 8 (unat v)\<rparr>)"
    then show ?case using r [rule_format, of "PA2PTE pa OR perm OR PTE_V"] unfolding m1 [symmetric]
      by (intro exI [of _ 0] exI [of _ "t\<lparr>mem := le_put (mem t) (unat pte) 8 (unat (PA2PTE pa OR perm OR PTE_V))\<rparr>"] exI [of _ "Suc 0"])
         (simp add: exec_simps)
  qed
next
  case (Suc n s a pa)
  have a: "a < MAXVA" using Suc.prems(4) by (simp add: maxva_unat)
  have un: "leaf 2 (mem s) p a AND PTE_V = 0" using Suc.prems(5) by simp
  have m0: "mapped a 0 pa perm f = f" for f by (auto simp: mapped_def fun_eq_iff word_le_nat_alt)
  have ua: "unat (a + PGSZ) = unat a + 4096" using Suc.prems(4) by (simp add: PGSZ_def unat_word_ariths)
  have le: "unat a + 4096 \<le> 2 ^ 38" using Suc.prems(4) by simp
  have nl: "a \<noteq> a + word_of_nat (Suc n) * PGSZ"
  proof
    assume "a = a + word_of_nat (Suc n) * PGSZ"
    then have "word_of_nat (Suc n * 4096) = (0 :: u64)" by (simp add: PGSZ_def algebra_simps)
    then have "unat (word_of_nat (Suc n * 4096) :: u64) = 0" by simp
    moreover have "Suc n * 4096 < 2 ^ 64" using Suc.prems(4) by simp
    ultimately show False using unat_of_nat [where ?'a = 64, of "Suc n * 4096"] by (simp del: of_nat_Suc of_nat_mult)
  qed
  from map_one [OF Suc.prems(1,2) a un] show ?case
  proof (elim disjE exE conjE)
    fix t assume "walk (word_of_nat p) a True s = Ok 0 t" "remap p (leaf 2 (mem s) p) s t" "free_pages t = {}"
    then show ?case by (intro exI [of _ "-1"] exI [of _ t] exI [of _ 0]) (simp add: exec_simps m0)
  next
    fix pte t assume w: "walk (word_of_nat p) a True s = Ok pte t" "pte \<noteq> 0" "word_of_nat (le_get (mem t) (unat pte) 8) AND PTE_V = 0"
      and r: "\<forall>v. remap p (\<lambda>x. if PGDOWN x = PGDOWN a then v else leaf 2 (mem s) p x) s (t\<lparr>mem := le_put (mem t) (unat pte) 8 (unat v)\<rparr>)"
    let ?E = "PA2PTE pa OR perm OR PTE_V"
    let ?u = "t\<lparr>mem := le_put (mem t) (unat pte) 8 (unat ?E)\<rparr>" and ?f = "\<lambda>x. if PGDOWN x = a then ?E else leaf 2 (mem s) p x"
    have r1: "remap p ?f s ?u" using r unfolding PGDOWN_aligned [OF Suc.prems(3)] by blast
    have "leaf 2 (mem ?u) p x AND PTE_V = 0" if "a + PGSZ \<le> x" "unat x < unat (a + PGSZ) + (n + 1) * 4096" for x
    proof -
      have "unat x < 2 ^ 38" "unat a + 4096 \<le> unat x" using that Suc.prems(4) ua by (simp_all add: word_le_nat_alt)
      then have "x < MAXVA" "PGDOWN x \<noteq> a" "leaf 2 (mem s) p x AND PTE_V = 0"
        using Suc.prems(5) that ua page_of [OF Suc.prems(3), of x] by (simp_all add: maxva_unat word_le_nat_alt)
      then show ?thesis using remapD(6) [OF r1] by simp
    qed
    then have "\<exists>r t j. mappages_loop (Suc n) (word_of_nat p) (a + PGSZ) (a + PGSZ + word_of_nat n * PGSZ) (pa + PGSZ) perm ?u = Ok r t \<and>
       remap p (mapped (a + PGSZ) j (pa + PGSZ) perm (leaf 2 (mem ?u) p)) ?u t \<and> (r = 0 \<and> j = Suc n \<or> r = -1 \<and> j \<le> n \<and> free_pages t = {})"
      by (intro Suc.IH) (use remapD(1,3) [OF r1] Suc.prems(3,4) ua in auto)
    then obtain rr w2 j where ih: "mappages_loop (Suc n) (word_of_nat p) (a + PGSZ) (a + PGSZ + word_of_nat n * PGSZ) (pa + PGSZ) perm ?u = Ok rr w2"
      "remap p (mapped (a + PGSZ) j (pa + PGSZ) perm (leaf 2 (mem ?u) p)) ?u w2" "rr = 0 \<and> j = Suc n \<or> rr = -1 \<and> j \<le> n \<and> free_pages w2 = {}"
      by blast
    have ae: "a + PGSZ + word_of_nat n * PGSZ = a + word_of_nat (Suc n) * PGSZ" by (simp add: algebra_simps)
    have "remap p (mapped a (Suc j) pa perm (leaf 2 (mem s) p)) s w2"
    proof (rule remap_cong [OF remap_trans [OF r1 ih(2)]])
      fix x assume "x < MAXVA"
      then have "mapped (a + PGSZ) j (pa + PGSZ) perm (leaf 2 (mem ?u) p) x = mapped (a + PGSZ) j (pa + PGSZ) perm ?f x"
        using remapD(6) [OF r1] by (simp add: mapped_def)
      then show "mapped (a + PGSZ) j (pa + PGSZ) perm (leaf 2 (mem ?u) p) x = mapped a (Suc j) pa perm (leaf 2 (mem s) p) x"
        by (simp only: mapped_step [OF Suc.prems(3) le])
    qed
    moreover have "mappages_loop (Suc (Suc n)) (word_of_nat p) a (a + word_of_nat (Suc n) * PGSZ) pa perm s = Ok rr w2"
      using w nl ih(1) unfolding ae by (subst mappages_loop.simps) (simp add: exec_simps del: mappages_loop.simps)
    ultimately show ?case using ih(3) by (intro exI [of _ rr] exI [of _ w2] exI [of _ "Suc j"]) auto
  qed
qed


lemma slot_none: "slot l m p va = None \<Longrightarrow> leaf l m p va = 0"
  by (induction l arbitrary: p) (auto split: if_splits)

lemma tab_pg: "kmem_ok s \<Longrightarrow> tab_ok l s p \<Longrightarrow> \<forall>q \<in> pset l (mem s) p. pg_ok q"
  using page_ok_pg by (auto simp: tab_ok_def)

lemma walk_run:
  assumes ok: "kmem_ok s" "tab_ok 2 s p" and va: "va < MAXVA"
  shows "\<exists>pte. walk (word_of_nat p) va False s = Ok pte s \<and> (pte = 0 \<longrightarrow> leaf 2 (mem s) p va = 0) \<and>
    (pte \<noteq> 0 \<longrightarrow> word_of_nat (le_get (mem s) (unat pte) 8) = leaf 2 (mem s) p va \<and> slot 2 (mem s) p va = Some (unat pte))"
proof (cases "slot 2 (mem s) p va")
  case None
  have "walk (word_of_nat p) va False s = Ok 0 s"
    using walk_from_run [OF tab_pg [OF ok], of va] va None by (auto simp: walk_def)
  with slot_none [OF None] show ?thesis by auto
next
  case (Some a)
  from slot_nonzero [OF tab_pg [OF ok] Some] have a: "0 < a" "a < 2 ^ 33" by auto
  then have ua: "unat (word_of_nat a :: u64) = a" by (simp add: unat_of_nat)
  have "walk (word_of_nat p) va False s = Ok (word_of_nat a) s"
    using walk_from_run [OF tab_pg [OF ok], of va] va Some by (auto simp: walk_def)
  moreover have "(word_of_nat a :: u64) \<noteq> 0" using a(1) ua by (metis less_irrefl unat_0)
  ultimately show ?thesis using slot_leaf [OF Some] ua Some by (intro exI [of _ "word_of_nat a"]) simp
qed

lemma walkaddr_run:
  assumes ok: "kmem_ok s" "tab_ok 2 s p"
  defines "e \<equiv> leaf 2 (mem s) p"
  shows "walkaddr (word_of_nat p) va s =
    Ok (if va < MAXVA \<and> e va AND PTE_V \<noteq> 0 \<and> e va AND PTE_U \<noteq> 0 then PTE2PA (e va) else 0) s"
proof (cases "va < MAXVA")
  case True
  from walk_run [OF ok True] obtain pte where w: "walk (word_of_nat p) va False s = Ok pte s" "pte = 0 \<longrightarrow> e va = 0"
    "pte \<noteq> 0 \<longrightarrow> word_of_nat (le_get (mem s) (unat pte) 8) = e va" unfolding e_def by blast
  have nv: "\<not> MAXVA \<le> va" using True by simp
  show ?thesis using w True nv by (cases "pte = 0") (simp_all add: walkaddr_def exec_simps)
qed (auto simp: walkaddr_def exec_simps)

text \<open>
  C14: \<open>mappages\<close> implements an update of the map from virtual pages to entries. On a well-formed page table
  whose range is unmapped it returns 0 with exactly the pages of the range mapped to consecutive
  physical pages with the given permissions, or -1, with a proper prefix of them mapped, when
  memory ran out. No other virtual page changes, the table stays a tree of distinct
  allocated pages, and every physical page that is neither a table nor free keeps its content.
\<close>

theorem mappages_refines_map:
  assumes "kmem_ok s" and "tab_ok 2 s p" and "va mod PGSZ = 0" and "len mod PGSZ = 0" and "len \<noteq> 0"
    and "unat va + unat len \<le> unat MAXVA"
    and "\<forall>x. va \<le> x \<and> unat x < unat va + unat len \<longrightarrow> leaf 2 (mem s) p x AND PTE_V = 0"
  shows "\<exists>r t j. mappages (word_of_nat p) va len pa perm s = Ok r t \<and>
    remap p (mapped va j pa perm (leaf 2 (mem s) p)) s t \<and>
    (r = 0 \<and> j * 4096 = unat len \<or> r = -1 \<and> j * 4096 < unat len \<and> free_pages t = {})"
proof -
  have al: "unat va mod 4096 = 0" using assms(3) by (simp add: PGSZ_def word_unat_eq_iff unat_mod)
  have "unat len mod 4096 = 0" using assms(4) by (simp add: PGSZ_def word_unat_eq_iff unat_mod)
  moreover have "0 < unat len" using assms(5) by (simp add: unat_gt_0)
  ultimately have n: "unat len = (unat len div 4096 - 1 + 1) * 4096" by fastforce
  define n where "n = unat len div 4096 - 1"
  note n = n [folded n_def]
  have le: "unat va + (n + 1) * 4096 \<le> 2 ^ 38" using assms(6) n by (simp add: MAXVA_def)
  have dv: "unat (len div PGSZ) = Suc n" by (simp add: unat_div PGSZ_def n)
  have "len = word_of_nat (unat len)" by simp
  then have lw: "va + len - PGSZ = va + word_of_nat n * PGSZ" unfolding n by (simp add: PGSZ_def algebra_simps)
  have "\<exists>r t j. mappages_loop (Suc n) (word_of_nat p) va (va + word_of_nat n * PGSZ) pa perm s = Ok r t \<and>
    remap p (mapped va j pa perm (leaf 2 (mem s) p)) s t \<and> (r = 0 \<and> j = Suc n \<or> r = -1 \<and> j \<le> n \<and> free_pages t = {})"
    by (rule mappages_loop_maps [OF assms(1,2) al le]) (use assms(7) n in simp)
  then obtain r t j where "mappages_loop (Suc n) (word_of_nat p) va (va + word_of_nat n * PGSZ) pa perm s = Ok r t"
    "remap p (mapped va j pa perm (leaf 2 (mem s) p)) s t" and j: "r = 0 \<and> j = Suc n \<or> r = -1 \<and> j \<le> n \<and> free_pages t = {}" by blast
  moreover from this have "mappages (word_of_nat p) va len pa perm s = Ok r t"
    using assms(3-5) unfolding mappages_def dv lw by simp
  moreover have "r = 0 \<and> j * 4096 = unat len \<or> r = -1 \<and> j * 4096 < unat len \<and> free_pages t = {}"
    using j unfolding n by auto
  ultimately show ?thesis by blast
qed


section \<open>User memory\<close>

text \<open>The byte at a user address: present and user-accessible pages only.\<close>

definition user_pte :: "u64 \<Rightarrow> bool" where
  "user_pte e \<longleftrightarrow> e AND PTE_V \<noteq> 0 \<and> e AND PTE_U \<noteq> 0"

definition ubyte :: "'z mem_st_scheme \<Rightarrow> nat \<Rightarrow> u64 \<Rightarrow> byte option" where
  "ubyte s p x = (if x < MAXVA \<and> user_pte (leaf 2 (mem s) p x)
     then Some (mem s (unat (PTE2PA (leaf 2 (mem s) p x)) + unat x mod 4096)) else None)"

definition uwritable :: "'z mem_st_scheme \<Rightarrow> nat \<Rightarrow> u64 \<Rightarrow> bool" where
  "uwritable s p x \<longleftrightarrow> x < MAXVA \<and> user_pte (leaf 2 (mem s) p x) \<and> leaf 2 (mem s) p x AND PTE_W \<noteq> 0"

text \<open>User pages are ordinary pages: not tables, not free, and not shared between addresses.\<close>

definition user_ok :: "'z mem_st_scheme \<Rightarrow> nat \<Rightarrow> bool" where
  "user_ok s p \<longleftrightarrow> kmem_ok s \<and> tab_ok 2 s p \<and>
     (\<forall>x < MAXVA. user_pte (leaf 2 (mem s) p x) \<longrightarrow>
        (let q = unat (PTE2PA (leaf 2 (mem s) p x)) in pg_ok q \<and> q \<notin> pset 2 (mem s) p \<and> q \<notin> free_pages s)) \<and>
     (\<forall>x < MAXVA. \<forall>y < MAXVA. user_pte (leaf 2 (mem s) p x) \<and> user_pte (leaf 2 (mem s) p y) \<and> PGDOWN x \<noteq> PGDOWN y \<longrightarrow>
        PTE2PA (leaf 2 (mem s) p x) \<noteq> PTE2PA (leaf 2 (mem s) p y))"

lemma leaf_page: "PGDOWN x = PGDOWN y \<Longrightarrow> x < MAXVA \<Longrightarrow> y < MAXVA \<Longrightarrow> leaf 2 m p x = leaf 2 m p y"
proof -
  assume a: "PGDOWN x = PGDOWN y" "x < MAXVA" "y < MAXVA"
  then have s: "same_idx 2 y x" using same_idx_page by blast
  have "leaf l m p x = leaf l m p y" if "l \<le> 2" for l
    using that s by (induction l arbitrary: p) (auto simp: same_idx_def)
  then show ?thesis by simp
qed

lemma PGDOWN_less: "PGDOWN x < MAXVA \<longleftrightarrow> x < MAXVA"
  using div_mult_mod_eq [of "unat x" 4096] mod_less_divisor [of 4096 "unat x"]
  unfolding maxva_unat unat_PGDOWN by (simp, linarith)

lemma PGDOWN_idem [simp]: "PGDOWN (PGDOWN x) = PGDOWN x"
  by (rule PGDOWN_aligned) (simp add: unat_PGDOWN)

lemma div_same: "(a :: nat) \<le> b \<Longrightarrow> b + a mod 4096 < a + 4096 \<Longrightarrow> b div 4096 = a div 4096"
proof (rule div_nat_eqI)
  assume "a \<le> b" "b + a mod 4096 < a + 4096"
  then show "4096 * (a div 4096) \<le> b" "b < 4096 * Suc (a div 4096)"
    using mult_div_mod_eq [of 4096 a] unfolding mult_Suc_right by linarith+
qed

text \<open>One page of a copy to user memory.\<close>

lemma store_user:
  assumes u: "user_ok s p" and x: "va < MAXVA" "user_pte (leaf 2 (mem s) p va)"
    and len: "length bs \<le> page_room va"
  defines "q \<equiv> unat (PTE2PA (leaf 2 (mem s) p va))"
  defines "t \<equiv> s\<lparr>mem := put_bytes (mem s) (q + unat va mod 4096) bs\<rparr>"
  shows "user_ok t p" and "leaf 2 (mem t) p y = leaf 2 (mem s) p y"
    and "ubyte t p y = (if unat va \<le> unat y \<and> unat y < unat va + length bs then Some (bs ! (unat y - unat va)) else ubyte s p y)"
proof -
  let ?m = "put_bytes (mem s) (q + unat va mod 4096) bs"
  have q: "pg_ok q" "q \<notin> pset 2 (mem s) p" "q \<notin> free_pages s"
    using u x by (auto simp: user_ok_def q_def Let_def)
  have room: "unat va mod 4096 + length bs \<le> 4096"
    using len by (simp add: page_room_def unat_offset PGSIZE_def)
  have out: "?m a = mem s a" if "\<not> (q \<le> a \<and> a < q + PGSIZE)" for a
    using that room by (auto simp: put_bytes_def PGSIZE_def)
  have sp: "same_page (mem s) ?m z" if "z mod PGSIZE = 0" "z \<noteq> q" for z
    by (rule same_page_apart [of q]) (use that q out in \<open>auto simp: pg_ok_def\<close>)
  have ok: "kmem_ok s" "tab_ok 2 s p" using u by (simp_all add: user_ok_def)
  have "same_page (mem s) ?m z" if "z \<in> free_pages s" for z
    using sp [of z] free_page_ok [OF ok(1) that] that q(3) by (auto simp: page_ok_def)
  note F = kmem_frame [OF ok(1) this]
  have tp: "\<forall>z \<in> pset 2 (mem s) p. same_page (mem s) ?m z"
  proof
    fix z assume z: "z \<in> pset 2 (mem s) p"
    show "same_page (mem s) ?m z" by (rule sp) (use tab_pg [OF ok] z q(2) in \<open>auto simp: pg_ok_def\<close>)
  qed
  note T = tree_frame [OF tp]
  have L: "leaf 2 ?m p y = leaf 2 (mem s) p y" for y using T by blast
  have P: "pset 2 ?m p = pset 2 (mem s) p" "tree 2 ?m p = tree 2 (mem s) p" using T by blast+
  show "leaf 2 (mem t) p y = leaf 2 (mem s) p y" by (simp add: t_def L)
  have "tab_ok 2 t p" using ok(2) F(2) unfolding tab_ok_def t_def by (simp add: P)
  then show "user_ok t p"
    using u F unfolding user_ok_def t_def by (simp add: L P)
  show "ubyte t p y = (if unat va \<le> unat y \<and> unat y < unat va + length bs then Some (bs ! (unat y - unat va)) else ubyte s p y)"
  proof (cases "PGDOWN y = PGDOWN va")
    case True
    have d: "unat y div 4096 * 4096 = unat va div 4096 * 4096" using True unat_PGDOWN by metis
    have yM: "y < MAXVA" using True x(1) PGDOWN_less by metis
    have le: "leaf 2 (mem s) p y = leaf 2 (mem s) p va" by (rule leaf_page [OF True yM x(1)])
    have rng: "unat va \<le> unat y \<and> unat y < unat va + length bs \<longleftrightarrow>
        unat va mod 4096 \<le> unat y mod 4096 \<and> unat y mod 4096 < unat va mod 4096 + length bs"
      and df: "unat y - unat va = unat y mod 4096 - unat va mod 4096"
      using d div_mult_mod_eq [of "unat y" 4096] div_mult_mod_eq [of "unat va" 4096] by linarith+
    have "ubyte t p y = Some (?m (q + unat y mod 4096))" "ubyte s p y = Some (mem s (q + unat y mod 4096))"
      using yM x(2) by (simp_all add: ubyte_def t_def L le q_def [symmetric])
    then show ?thesis unfolding rng df by (simp add: put_bytes_def)
  next
    case False
    have "\<not> (unat va \<le> unat y \<and> unat y < unat va + length bs)"
    proof
      assume r: "unat va \<le> unat y \<and> unat y < unat va + length bs"
      then have "unat y div 4096 = unat va div 4096" using room by (intro div_same) linarith+
      then have "unat (PGDOWN y) = unat (PGDOWN va)" unfolding unat_PGDOWN by simp
      with False show False by (simp add: word_unat_eq_iff)
    qed
    moreover have "ubyte t p y = ubyte s p y"
    proof (cases "y < MAXVA \<and> user_pte (leaf 2 (mem s) p y)")
      case yes: True
      let ?z = "unat (PTE2PA (leaf 2 (mem s) p y))"
      have "PTE2PA (leaf 2 (mem s) p y) \<noteq> PTE2PA (leaf 2 (mem s) p va)" "?z mod PGSIZE = 0"
        using u x yes False by (auto simp: user_ok_def Let_def pg_ok_def)
      then have "?z \<noteq> q" "?z mod PGSIZE = 0" by (simp_all add: q_def word_unat_eq_iff)
      from sp [OF this(2,1)] show ?thesis by (simp add: ubyte_def t_def L same_page_def PGSIZE_def)
    next
      case no: False
      then show ?thesis unfolding ubyte_def t_def by (auto simp: L)
    qed
    ultimately show ?thesis by auto
  qed
qed


definition in_range :: "u64 \<Rightarrow> nat \<Rightarrow> u64 \<Rightarrow> bool" where
  "in_range va n y \<longleftrightarrow> unat va \<le> unat y \<and> unat y < unat va + n"

lemma next_page:
  assumes "va < MAXVA"
  shows "unat (PGDOWN va + PGSZ) = unat va + page_room va" and "in_range va n (PGDOWN va + PGSZ) \<longleftrightarrow> page_room va < n"
proof -
  have u: "unat (PGDOWN va) + 4096 < 2 ^ 64"
    using assms PGDOWN_less [of va] unfolding maxva_unat by simp
  then have "unat (PGDOWN va + PGSZ) = unat va div 4096 * 4096 + 4096"
    using unat_PGDOWN [of va] by (simp add: PGSZ_def unat_word_ariths)
  moreover have "page_room va = 4096 - unat va mod 4096" by (simp add: page_room_def unat_offset PGSIZE_def)
  ultimately show n: "unat (PGDOWN va + PGSZ) = unat va + page_room va"
    using div_mult_mod_eq [of "unat va" 4096] mod_less_divisor [of 4096 "unat va"] by linarith
  show "in_range va n (PGDOWN va + PGSZ) \<longleftrightarrow> page_room va < n" by (simp add: in_range_def n)
qed

lemma in_page: "in_range va (page_room va) y \<Longrightarrow> PGDOWN y = PGDOWN va"
proof -
  assume "in_range va (page_room va) y"
  then have "unat y div 4096 = unat va div 4096"
    using mod_less_divisor [of 4096 "unat va"]
    by (intro div_same) (auto simp: in_range_def page_room_def unat_offset PGSIZE_def)
  then show ?thesis by (simp add: word_unat_eq_iff unat_PGDOWN)
qed

lemma pte_addr:
  assumes "user_ok s p" "va < MAXVA" "user_pte (leaf 2 (mem s) p va)"
  shows "unat (PTE2PA (leaf 2 (mem s) p va) + (va - PGDOWN va)) = unat (PTE2PA (leaf 2 (mem s) p va)) + unat va mod 4096"
proof -
  have "pg_ok (unat (PTE2PA (leaf 2 (mem s) p va)))" using assms by (auto simp: user_ok_def Let_def)
  from pg_ok_bound [OF this] show ?thesis
    using unat_offset [of va] mod_less_divisor [of 4096 "unat va"] by (simp add: unat_word_ariths)
qed

lemma copyout_user:
  fixes s :: "'z mem_st_scheme"
  assumes "user_ok s p"
  shows "\<exists>r t. copyout (word_of_nat p) va src s = Ok r t \<and> t = s\<lparr>mem := mem t\<rparr> \<and> user_ok t p \<and>
    (\<forall>y. leaf 2 (mem t) p y = leaf 2 (mem s) p y) \<and> (\<forall>y. \<not> in_range va (length src) y \<longrightarrow> ubyte t p y = ubyte s p y) \<and>
    (if \<forall>i < length src. unat va + i < 2 ^ 38 \<and> uwritable s p (va + word_of_nat i)
     then r = 0 \<and> (\<forall>y. in_range va (length src) y \<longrightarrow> ubyte t p y = Some (src ! (unat y - unat va)))
     else r = -1)"
  using assms
proof (induction "length src" arbitrary: va src s rule: less_induct)
  case less
  let ?n = "length src" and ?k = "page_room va"
  have ok: "kmem_ok s" "tab_ok 2 s p" using less.prems by (simp_all add: user_ok_def)
  show ?case
  proof (cases "src = []")
    case True
    then show ?thesis using less.prems by (subst copyout.simps) (auto simp: exec_simps in_range_def)
  next
    case ne: False
    then have n0: "0 < ?n" by simp
    show ?thesis
    proof (cases "uwritable s p va")
      case False
      have "copyout (word_of_nat p) va src s = Ok (-1) s"
      proof (cases "va < MAXVA")
        case va: True
        then have vd: "PGDOWN va < MAXVA" by (simp add: PGDOWN_less)
        from walk_run [OF ok vd] obtain pte where w: "walk (word_of_nat p) (PGDOWN va) False s = Ok pte s"
          "pte \<noteq> 0 \<longrightarrow> word_of_nat (le_get (mem s) (unat pte) 8) = leaf 2 (mem s) p (PGDOWN va)" by blast
        have "leaf 2 (mem s) p (PGDOWN va) = leaf 2 (mem s) p va" by (rule leaf_page) (use va vd in simp_all)
        with w False va vd ne show ?thesis
          by (subst copyout.simps) (auto simp: exec_simps uwritable_def user_pte_def)
      next
        case va: False
        then have "MAXVA \<le> PGDOWN va" using PGDOWN_less [of va] by auto
        with ne show ?thesis by (subst copyout.simps) (simp add: exec_simps)
      qed
      moreover have "\<not> (\<forall>i < ?n. unat va + i < 2 ^ 38 \<and> uwritable s p (va + word_of_nat i))"
        using False n0 by (auto intro!: exI [of _ 0])
      ultimately show ?thesis using less.prems by (intro exI [of _ "-1"] exI [of _ s]) (simp only: if_False; simp)
    next
      case wr: True
      let ?e = "leaf 2 (mem s) p va" and ?c = "take ?k src"
      let ?u = "s\<lparr>mem := put_bytes (mem s) (unat (PTE2PA ?e) + unat va mod 4096) ?c\<rparr>"
      have va: "va < MAXVA" "user_pte ?e" "?e AND PTE_W \<noteq> 0" using wr by (simp_all add: uwritable_def)
      note U = store_user [OF less.prems va(1,2), of ?c, simplified]
      have vd: "PGDOWN va < MAXVA" using va(1) by (simp add: PGDOWN_less)
      have le: "leaf 2 (mem s) p (PGDOWN va) = ?e" by (rule leaf_page) (use va vd in simp_all)
      from walk_run [OF ok vd] obtain pte where w: "walk (word_of_nat p) (PGDOWN va) False s = Ok pte s"
        "pte = 0 \<longrightarrow> ?e = 0" "pte \<noteq> 0 \<longrightarrow> word_of_nat (le_get (mem s) (unat pte) 8) = ?e" unfolding le by blast
      have pz: "pte \<noteq> 0" using w(2) va(2) by (auto simp: user_pte_def)
      have run: "copyout (word_of_nat p) va src s = copyout (word_of_nat p) (PGDOWN va + PGSZ) (drop ?k src) ?u"
        using ne w pz va vd pte_addr [OF less.prems va(1,2)]
        by (subst copyout.simps) (simp add: exec_simps user_pte_def not_le [symmetric])
      have nx: "unat (PGDOWN va + PGSZ) = unat va + ?k" by (rule next_page(1) [OF va(1)])
      have "length (drop ?k src) < ?n" using n0 page_room_bounds(1) [of va] by simp
      from less.hyps [OF this U(1)] obtain r t where t: "copyout (word_of_nat p) (PGDOWN va + PGSZ) (drop ?k src) ?u = Ok r t"
        "t = ?u\<lparr>mem := mem t\<rparr>" "user_ok t p" "\<forall>y. leaf 2 (mem t) p y = leaf 2 (mem ?u) p y"
        "\<forall>y. \<not> in_range (PGDOWN va + PGSZ) (length (drop ?k src)) y \<longrightarrow> ubyte t p y = ubyte ?u p y"
        "if \<forall>i < length (drop ?k src). unat (PGDOWN va + PGSZ) + i < 2 ^ 38 \<and> uwritable ?u p (PGDOWN va + PGSZ + word_of_nat i)
         then r = 0 \<and> (\<forall>y. in_range (PGDOWN va + PGSZ) (length (drop ?k src)) y \<longrightarrow> ubyte t p y = Some (drop ?k src ! (unat y - unat (PGDOWN va + PGSZ))))
         else r = -1" by blast
      have uw: "uwritable ?u p y = uwritable s p y" for y by (simp add: uwritable_def U(2))
      have vw: "PGDOWN va + PGSZ + word_of_nat i = va + word_of_nat (?k + i)" for i
      proof -
        have "PGDOWN va + PGSZ = word_of_nat (unat va + ?k)" unfolding nx [symmetric] by simp
        then show ?thesis by simp
      qed
      have near: "unat va + i < 2 ^ 38 \<and> uwritable s p (va + word_of_nat i)" if "i < ?k" for i
      proof -
        have "unat va + i < 2 ^ 38 + 4096" using va(1) that page_room_bounds(2) [of va] unfolding maxva_unat PGSIZE_def by linarith
        then have ui: "unat (va + word_of_nat i) = unat va + i" by (simp add: unat_word_ariths unat_of_nat)
        then have pd: "PGDOWN (va + word_of_nat i) = PGDOWN va" using that by (intro in_page) (simp add: in_range_def)
        then have "va + word_of_nat i < MAXVA" using PGDOWN_less va(1) by metis
        then show ?thesis using wr leaf_page [OF pd _ va(1)] by (simp add: uwritable_def ui maxva_unat)
      qed
      have all: "(\<forall>i < ?n. unat va + i < 2 ^ 38 \<and> uwritable s p (va + word_of_nat i)) \<longleftrightarrow>
        (\<forall>i < length (drop ?k src). unat (PGDOWN va + PGSZ) + i < 2 ^ 38 \<and> uwritable ?u p (PGDOWN va + PGSZ + word_of_nat i))"
        (is "?A \<longleftrightarrow> ?B")
      proof
        assume A: ?A
        show ?B unfolding uw nx vw
        proof (intro allI impI)
          fix i assume "i < length (drop ?k src)"
          then show "unat va + ?k + i < 2 ^ 38 \<and> uwritable s p (va + word_of_nat (?k + i))"
            using A [rule_format, of "?k + i"] by (simp add: add.assoc)
        qed
      next
        assume B: ?B
        show ?A
        proof (intro allI impI)
          fix i assume "i < ?n"
          then show "unat va + i < 2 ^ 38 \<and> uwritable s p (va + word_of_nat i)"
            using near [of i] B [unfolded uw nx vw, rule_format, of "i - ?k"] by (cases "i < ?k") auto
        qed
      qed
      have rng: "in_range (PGDOWN va + PGSZ) (length (drop ?k src)) y \<longleftrightarrow> in_range va ?n y \<and> unat va + ?k \<le> unat y" for y
        by (auto simp: in_range_def nx)
      have rest: "ubyte t p y = ubyte s p y" if "\<not> in_range va ?n y" for y
        using t(5) U(3) [of y] that unfolding rng by (auto simp: in_range_def)
      have bytes: "ubyte t p y = Some (src ! (unat y - unat va))"
        if y: "in_range va ?n y" and all': "?n \<le> ?k \<or> (\<forall>y. in_range (PGDOWN va + PGSZ) (length (drop ?k src)) y \<longrightarrow>
          ubyte t p y = Some (drop ?k src ! (unat y - unat (PGDOWN va + PGSZ))))" for y
      proof (cases "unat va + ?k \<le> unat y")
        case True
        then have "in_range (PGDOWN va + PGSZ) (length (drop ?k src)) y" "\<not> ?n \<le> ?k" using y unfolding rng by (auto simp: in_range_def)
        then have "ubyte t p y = Some (drop ?k src ! (unat y - unat (PGDOWN va + PGSZ)))" using all' by blast
        then show ?thesis using True y by (simp add: nx in_range_def)
      next
        case False
        then have "ubyte t p y = ubyte ?u p y" using t(5) unfolding rng by simp
        then show ?thesis using U(3) [of y] False y by (auto simp: in_range_def)
      qed
      have "t = s\<lparr>mem := mem t\<rparr>" using t(2) by simp
      then show ?thesis
        using run t(1,3,4,6) U(2) rest bytes unfolding all by (intro exI [of _ r] exI [of _ t]) (auto split: if_splits)
    qed
  qed
qed


lemma PTE2PA_nonzero: "user_ok s p \<Longrightarrow> x < MAXVA \<Longrightarrow> user_pte (leaf 2 (mem s) p x) \<Longrightarrow> PTE2PA (leaf 2 (mem s) p x) \<noteq> 0"
  by (fastforce simp: user_ok_def Let_def pg_ok_def)

lemma near_bytes:
  assumes va: "va < MAXVA" "user_pte (leaf 2 (mem s) p va)" and i: "i < page_room va"
  shows "unat va + i < 2 ^ 38"
    and "ubyte s p (va + word_of_nat i) = Some (mem s (unat (PTE2PA (leaf 2 (mem s) p va)) + unat va mod 4096 + i))"
proof -
  have r: "i + unat va mod 4096 < 4096" using i by (auto simp: page_room_def unat_offset PGSIZE_def)
  have "unat va + i < 2 ^ 38 + 4096" using va(1) r unfolding maxva_unat by linarith
  then have ui: "unat (va + word_of_nat i) = unat va + i" by (simp add: unat_word_ariths unat_of_nat)
  then have pd: "PGDOWN (va + word_of_nat i) = PGDOWN va" using i by (intro in_page) (simp add: in_range_def)
  then have lt: "va + word_of_nat i < MAXVA" using PGDOWN_less va(1) by metis
  then show "unat va + i < 2 ^ 38" by (simp add: maxva_unat ui)
  have "(unat va + i) mod 4096 = unat va mod 4096 + i"
    using r by (metis add.commute mod_add_left_eq mod_less)
  then show "ubyte s p (va + word_of_nat i) = Some (mem s (unat (PTE2PA (leaf 2 (mem s) p va)) + unat va mod 4096 + i))"
    using lt va leaf_page [OF pd lt va(1)] by (simp add: ubyte_def ui add.assoc)
qed

lemma page_after:
  assumes "va < MAXVA"
  shows "PGDOWN va + PGSZ + word_of_nat i = va + word_of_nat (page_room va + i)"
proof -
  have "PGDOWN va + PGSZ = word_of_nat (unat va + page_room va)" unfolding next_page(1) [OF assms, symmetric] by simp
  then show ?thesis by simp
qed

definition readable :: "'z mem_st_scheme \<Rightarrow> nat \<Rightarrow> u64 \<Rightarrow> nat \<Rightarrow> bool" where
  "readable s p va n \<longleftrightarrow> (\<forall>i < n. unat va + i < 2 ^ 38 \<and> ubyte s p (va + word_of_nat i) \<noteq> None)"

lemma readable_next:
  assumes va: "va < MAXVA" "user_pte (leaf 2 (mem s) p va)"
  shows "readable s p va n \<longleftrightarrow> readable s p (PGDOWN va + PGSZ) (n - page_room va)"
proof
  assume a: "readable s p va n"
  show "readable s p (PGDOWN va + PGSZ) (n - page_room va)"
    unfolding readable_def page_after [OF va(1)] next_page(1) [OF va(1)]
  proof (intro allI impI)
    fix i assume "i < n - page_room va"
    then show "unat va + page_room va + i < 2 ^ 38 \<and> ubyte s p (va + word_of_nat (page_room va + i)) \<noteq> None"
      using a [unfolded readable_def, rule_format, of "page_room va + i"] by (simp add: add.assoc)
  qed
next
  assume a: "readable s p (PGDOWN va + PGSZ) (n - page_room va)"
  show "readable s p va n"
    unfolding readable_def
  proof (intro allI impI)
    fix i assume "i < n"
    then show "unat va + i < 2 ^ 38 \<and> ubyte s p (va + word_of_nat i) \<noteq> None"
      using near_bytes [OF va, of i] a [unfolded readable_def page_after [OF va(1)] next_page(1) [OF va(1)], rule_format, of "i - page_room va"]
      by (cases "i < page_room va") auto
  qed
qed

lemma copyin_user:
  assumes "user_ok s p"
  shows "\<exists>r out. copyin (word_of_nat p) va n s = Ok (r, out) s \<and>
    (if readable s p va n then r = 0 \<and> length out = n \<and> (\<forall>i < n. ubyte s p (va + word_of_nat i) = Some (out ! i)) else r = -1)"
proof (induction n arbitrary: va rule: less_induct)
  case (less n)
  let ?k = "page_room va"
  have ok: "kmem_ok s" "tab_ok 2 s p" using assms by (simp_all add: user_ok_def)
  have wa: "walkaddr (word_of_nat p) (PGDOWN va) s =
      Ok (if va < MAXVA \<and> user_pte (leaf 2 (mem s) p va) then PTE2PA (leaf 2 (mem s) p va) else 0) s"
    using walkaddr_run [OF ok, of "PGDOWN va"] leaf_page [of "PGDOWN va" va "mem s" p] by (auto simp: PGDOWN_less user_pte_def)
  consider (zero) "n = 0" | (bad) "n \<noteq> 0" "\<not> (va < MAXVA \<and> user_pte (leaf 2 (mem s) p va))"
    | (good) "n \<noteq> 0" "va < MAXVA" "user_pte (leaf 2 (mem s) p va)" by blast
  then show ?case
  proof cases
    case zero
    then show ?thesis by (subst copyin.simps) (simp add: exec_simps readable_def)
  next
    case bad
    then have "copyin (word_of_nat p) va n s = Ok (-1, []) s" by (subst copyin.simps) (auto simp: exec_simps wa)
    moreover have "\<not> readable s p va n" using bad by (auto simp: readable_def ubyte_def intro!: exI [of _ 0])
    ultimately show ?thesis by simp
  next
    case good
    let ?q = "unat (PTE2PA (leaf 2 (mem s) p va)) + unat va mod 4096" and ?m = "min ?k n"
    have "n - ?m < n" using good(1) page_room_bounds(1) [of va] by auto
    from less.IH [OF this, of "PGDOWN va + PGSZ"] obtain r out where o:
      "copyin (word_of_nat p) (PGDOWN va + PGSZ) (n - ?m) s = Ok (r, out) s"
      "if readable s p (PGDOWN va + PGSZ) (n - ?m) then r = 0 \<and> length out = n - ?m \<and>
         (\<forall>i < n - ?m. ubyte s p (PGDOWN va + PGSZ + word_of_nat i) = Some (out ! i)) else r = -1" by blast
    have run: "copyin (word_of_nat p) va n s = Ok (r, get_bytes (mem s) ?q ?m @ out) s"
      using good o(1) PTE2PA_nonzero [OF assms good(2,3)] pte_addr [OF assms good(2,3)]
      by (subst copyin.simps) (simp add: exec_simps wa)
    have rd: "readable s p va n \<longleftrightarrow> readable s p (PGDOWN va + PGSZ) (n - ?m)"
      using readable_next [OF good(2,3), of n] by (simp add: min_def)
    show ?thesis
    proof (cases "readable s p va n")
      case True
      with o(2) rd have r: "r = 0" "length out = n - ?m" "\<forall>i < n - ?m. ubyte s p (va + word_of_nat (?k + i)) = Some (out ! i)"
        unfolding page_after [OF good(2)] by simp_all
      have "ubyte s p (va + word_of_nat i) = Some ((get_bytes (mem s) ?q ?m @ out) ! i)" if "i < n" for i
      proof (cases "i < ?k")
        case True
        then show ?thesis using near_bytes(2) [OF good(2,3) True] that by (simp add: nth_append add.assoc)
      next
        case False
        then show ?thesis using r(3) [rule_format, of "i - ?k"] that by (simp add: nth_append)
      qed
      with True run r show ?thesis by simp
    next
      case False
      with o(2) rd run show ?thesis by simp
    qed
  qed
qed

text \<open>
  C15: \<open>copyout\<close> and \<open>copyin\<close> are writing and reading user memory. On a well-formed address space \<open>copyout\<close> returns 0
  exactly when every byte of the range is writable by the user and lies below \<open>MAXVA\<close> (so never for a range that wraps around); then
  \<open>copyin\<close> of the range gives back the bytes. Otherwise it returns -1. In both cases no user byte outside the
  range changes, and page tables, allocator and all other kernel state are as before.
\<close>

theorem copyin_copyout_roundtrip:
  assumes "user_ok s p"
  shows "\<exists>r t. copyout (word_of_nat p) va src s = Ok r t \<and> t = s\<lparr>mem := mem t\<rparr> \<and> user_ok t p \<and>
    (\<forall>y. \<not> in_range va (length src) y \<longrightarrow> ubyte t p y = ubyte s p y) \<and>
    (if \<forall>i < length src. unat va + i < 2 ^ 38 \<and> uwritable s p (va + word_of_nat i)
     then r = 0 \<and> copyin (word_of_nat p) va (length src) t = Ok (0, src) t
     else r = -1)"
proof -
  from copyout_user [OF assms, of va src] obtain r t where t: "copyout (word_of_nat p) va src s = Ok r t" "t = s\<lparr>mem := mem t\<rparr>" "user_ok t p"
    "\<forall>y. leaf 2 (mem t) p y = leaf 2 (mem s) p y" "\<forall>y. \<not> in_range va (length src) y \<longrightarrow> ubyte t p y = ubyte s p y"
    "if \<forall>i < length src. unat va + i < 2 ^ 38 \<and> uwritable s p (va + word_of_nat i)
     then r = 0 \<and> (\<forall>y. in_range va (length src) y \<longrightarrow> ubyte t p y = Some (src ! (unat y - unat va))) else r = -1" by blast
  show ?thesis
  proof (cases "\<forall>i < length src. unat va + i < 2 ^ 38 \<and> uwritable s p (va + word_of_nat i)")
    case True
    then have r: "r = 0" and b: "\<forall>y. in_range va (length src) y \<longrightarrow> ubyte t p y = Some (src ! (unat y - unat va))" using t(6) by simp_all
    have u: "ubyte t p (va + word_of_nat i) = Some (src ! i)" if "i < length src" for i
    proof -
      have "unat va + i < 2 ^ 38" using True that by blast
      then have "unat (va + word_of_nat i) = unat va + i" by (simp add: unat_word_ariths unat_of_nat)
      then show ?thesis using b [rule_format, of "va + word_of_nat i"] that by (simp add: in_range_def)
    qed
    have "readable t p va (length src)" using True u by (simp add: readable_def)
    with copyin_user [OF t(3), of va "length src"] obtain out where
      o: "copyin (word_of_nat p) va (length src) t = Ok (0, out) t" "length out = length src"
        "\<forall>i < length src. ubyte t p (va + word_of_nat i) = Some (out ! i)" by auto
    then have "out = src" using u by (intro nth_equalityI) auto
    with o(1) r t(1,2,3,5) True show ?thesis by (intro exI [of _ r] exI [of _ t]) simp
  next
    case False
    then have "r = -1" using t(6) by (simp only: if_False)
    then show ?thesis using t(1,2,3,5) False by (intro exI [of _ r] exI [of _ t]) (simp only: if_False; simp)
  qed
qed


text \<open>A concrete address space: tables in three pages, one user page mapped at address 0, one page free.\<close>

definition vm_entry :: "nat \<Rightarrow> u64 \<Rightarrow> u64" where
  "vm_entry q f = PA2PTE (word_of_nat q) OR f OR PTE_V"

definition vm_mem :: bytes where
  "vm_mem = le_put (le_put (le_put (\<lambda>_. 0) 0x80030000 8 (unat (vm_entry 0x80031000 0)))
     0x80031000 8 (unat (vm_entry 0x80032000 0))) 0x80032000 8 (unat (vm_entry 0x80033000 0x16))"

definition vm_demo :: mem_st where
  "vm_demo = mem_boot\<lparr>mem := vm_mem, freelist := 0x80022000\<rparr>"

lemma vm_pages: "pg_ok 0x80030000" "pg_ok 0x80031000" "pg_ok 0x80032000" "pg_ok 0x80033000"
  by (simp_all add: pg_ok_def PGSIZE_def PHYSTOP_def KERNBASE_def)

lemma ent_zero: "ent (\<lambda>_. 0) p i = 0"
  by (simp add: ent_def le_get_zero)

lemma vm_ents:
  assumes "i < 512"
  shows "ent vm_mem 0x80030000 i = (if i = 0 then vm_entry 0x80031000 0 else 0)"
    and "ent vm_mem 0x80031000 i = (if i = 0 then vm_entry 0x80032000 0 else 0)"
    and "ent vm_mem 0x80032000 i = (if i = 0 then vm_entry 0x80033000 0x16 else 0)"
proof -
  have o: "ent (le_put m p 8 v) q i = ent m q i" if "pg_ok p" "pg_ok q" "p \<noteq> q" for m p q v
  proof -
    have "same_page m (le_put m (p + 8 * 0) 8 v) q" by (rule put_same_page) (use that in \<open>auto simp: pg_ok_def\<close>)
    from same_page_ent [OF this assms] show ?thesis by simp
  qed
  have "ent vm_mem 0x80030000 i = ent (le_put (\<lambda>_. 0) 0x80030000 8 (unat (vm_entry 0x80031000 0))) 0x80030000 i"
    unfolding vm_mem_def by (simp add: o vm_pages)
  then show "ent vm_mem 0x80030000 i = (if i = 0 then vm_entry 0x80031000 0 else 0)"
    using ent_put [OF vm_pages(1) assms, of 0] by (simp add: ent_zero)
  have "ent vm_mem 0x80031000 i = ent (le_put (le_put (\<lambda>_. 0) 0x80030000 8 (unat (vm_entry 0x80031000 0)))
      0x80031000 8 (unat (vm_entry 0x80032000 0))) 0x80031000 i"
    unfolding vm_mem_def by (simp add: o vm_pages)
  then show "ent vm_mem 0x80031000 i = (if i = 0 then vm_entry 0x80032000 0 else 0)"
    using ent_put [OF vm_pages(2) assms, of 0] o [OF vm_pages(1,2)] by (simp add: ent_zero)
  show "ent vm_mem 0x80032000 i = (if i = 0 then vm_entry 0x80033000 0x16 else 0)"
    unfolding vm_mem_def using ent_put [OF vm_pages(3) assms, of 0] o [OF vm_pages(1,3)] o [OF vm_pages(2,3)]
    by (simp add: ent_zero)
qed

lemma vm_tables:
  shows "pset 2 vm_mem 0x80030000 = {0x80030000, 0x80031000, 0x80032000}" and "tree 2 vm_mem 0x80030000"
    and "leaf 2 vm_mem 0x80030000 x = (if same_idx 2 0 x then vm_entry 0x80033000 0x16 else 0)"
proof -
  have f: "PTE2PA (vm_entry q 0) = word_of_nat q" "vm_entry q 0 AND PTE_V \<noteq> 0" if "pg_ok q" for q
    using pte_fields(1,3) [OF that, of 0] by (simp_all add: vm_entry_def)
  have pr: "present vm_mem 0x80030000 i \<longleftrightarrow> i = 0" "present vm_mem 0x80031000 i \<longleftrightarrow> i = 0" if "i < 512" for i
    using vm_ents [OF that] f(2) [OF vm_pages(2)] f(2) [OF vm_pages(3)] by (simp_all add: present_def)
  have ch: "child vm_mem 0x80030000 0 = 0x80031000" "child vm_mem 0x80031000 0 = 0x80032000"
    using vm_ents [of 0] f(1) [OF vm_pages(2)] f(1) [OF vm_pages(3)] word_nat_pg [OF vm_pages(2)] word_nat_pg [OF vm_pages(3)]
    by (simp_all add: child_def)
  have sets: "{i. i < 512 \<and> present vm_mem 0x80030000 i} = {0}" "{i. i < 512 \<and> present vm_mem 0x80031000 i} = {0}" using pr by auto
  have two: "(2 :: nat) = Suc (Suc 0)" by simp
  show "pset 2 vm_mem 0x80030000 = {0x80030000, 0x80031000, 0x80032000}" by (simp add: two sets ch)
  show "tree 2 vm_mem 0x80030000" using pr by (auto simp: two sets ch)
  have p0: "px l 0 = 0" for l by (simp add: px_def PX_def)
  show "leaf 2 vm_mem 0x80030000 x = (if same_idx 2 0 x then vm_entry 0x80033000 0x16 else 0)"
    using pr(1) [OF px_less [of 2 x]] pr(2) [OF px_less [of 1 x]] vm_ents(3) [OF px_less [of 0 x]]
    by (auto simp: two ch same_idx_def le_Suc_eq p0)
qed

lemma vm_demo_ok:
  "kmem_ok vm_demo" "free_pages vm_demo = {0x80022000}" "tab_ok 2 vm_demo 0x80030000" "user_ok vm_demo 0x80030000"
proof -
  have o: "le_put m a 8 v (0x80022000 + i) = m (0x80022000 + i)" if "0x80030000 \<le> a" "i < 8" for m a v i
    by (rule le_put_outside) (use that in simp)
  have z: "vm_mem (0x80022000 + i) = 0" if "i < 8" for i
    unfolding vm_mem_def using that by (simp add: o)
  have "run_next vm_mem 0x80022000 = 0" unfolding run_next_def by (rule le_get_zero) (rule z)
  then have "chain (mem vm_demo) (freelist vm_demo) [0x80022000]" by (simp add: vm_demo_def)
  moreover have "page_ok (lay vm_demo) 0x80022000"
    by (simp add: vm_demo_def mem_boot_def page_ok_def PHYSTOP_def KERNBASE_def PGSIZE_def)
  ultimately have f: "free_is vm_demo [0x80022000]" by (simp add: free_is_def)
  then show k: "kmem_ok vm_demo" by (auto simp: kmem_ok_def vm_demo_def mem_boot_def lay_ok_def KERNBASE_def PHYSTOP_def)
  show fp: "free_pages vm_demo = {0x80022000}" using free_is_pages [OF f] by simp
  have m: "mem vm_demo = vm_mem" by (simp add: vm_demo_def)
  show t: "tab_ok 2 vm_demo 0x80030000"
    unfolding tab_ok_def m vm_tables(1) fp using vm_tables(2)
    by (simp add: page_ok_def vm_demo_def mem_boot_def PGSIZE_def PHYSTOP_def KERNBASE_def)
  have e: "PTE2PA (vm_entry 0x80033000 0x16) = word_of_nat 0x80033000"
    using pte_fields(1) [OF vm_pages(4), where f = "0x16"] by (simp add: vm_entry_def)
  have u: "user_pte (leaf 2 vm_mem 0x80030000 x) \<Longrightarrow> same_idx 2 0 x" for x
    by (auto simp: vm_tables(3) user_pte_def split: if_splits)
  have M0: "(0 :: u64) < MAXVA" by (simp add: MAXVA_def)
  show "user_ok vm_demo 0x80030000"
    unfolding user_ok_def m
  proof (intro conjI allI impI)
    fix x assume "x < MAXVA" "user_pte (leaf 2 vm_mem 0x80030000 x)"
    then have "same_idx 2 0 x" by (intro u)
    then have l: "leaf 2 vm_mem 0x80030000 x = vm_entry 0x80033000 0x16" unfolding vm_tables(3) by (rule if_P)
    show "let q = unat (PTE2PA (leaf 2 vm_mem 0x80030000 x)) in pg_ok q \<and> q \<notin> pset 2 vm_mem 0x80030000 \<and> q \<notin> free_pages vm_demo"
      unfolding l e word_nat_pg [OF vm_pages(4)] vm_tables(1) fp using vm_pages(4) by simp
  next
    fix x y assume "x < MAXVA" "y < MAXVA"
      and a: "user_pte (leaf 2 vm_mem 0x80030000 x) \<and> user_pte (leaf 2 vm_mem 0x80030000 y) \<and> PGDOWN x \<noteq> PGDOWN y"
    then have "PGDOWN x = PGDOWN 0" "PGDOWN y = PGDOWN 0" using u same_idx_page [OF M0] by auto
    with a show "PTE2PA (leaf 2 vm_mem 0x80030000 x) \<noteq> PTE2PA (leaf 2 vm_mem 0x80030000 y)" by simp
  qed (rule k, rule t)
qed

theorem mappages_refines_map_witness:
  "\<exists>r t. mappages (word_of_nat 0x80030000) 0x1000 0x1000 0x80034000 (PTE_R OR PTE_U) vm_demo = Ok r t \<and> kmem_ok t \<and> tab_ok 2 t 0x80030000"
proof -
  have "\<not> same_idx 2 0 x" if "0x1000 \<le> x" "unat x < 0x2000" for x
  proof
    have M: "x < MAXVA" using that by (simp add: maxva_unat)
    assume "same_idx 2 0 x"
    then have "PGDOWN x = PGDOWN 0" using same_idx_page [OF _ M, of 0] by (simp add: MAXVA_def)
    then have "unat x div 4096 * 4096 = 0" using unat_PGDOWN [of x] unat_PGDOWN [of 0] by simp
    moreover have "0x1000 \<le> unat x" using that(1) by (simp add: word_le_nat_alt)
    ultimately show False by simp
  qed
  then have "\<forall>x. 0x1000 \<le> x \<and> unat x < unat (0x1000 :: u64) + unat (0x1000 :: u64) \<longrightarrow> leaf 2 (mem vm_demo) 0x80030000 x AND PTE_V = 0"
    by (simp add: vm_demo_def vm_tables(3))
  from mappages_refines_map [OF vm_demo_ok(1,3) _ _ _ _ this, where pa = "0x80034000" and perm = "PTE_R OR PTE_U"]
  show ?thesis by (auto simp: PGSZ_def MAXVA_def remap_def)
qed

theorem copyin_copyout_roundtrip_witness:
  "\<exists>t. copyout (word_of_nat 0x80030000) 0x10 [1, 2, 3] vm_demo = Ok 0 t \<and> copyin (word_of_nat 0x80030000) 0x10 3 t = Ok (0, [1, 2, 3]) t"
proof -
  have w: "uwritable vm_demo 0x80030000 (0x10 + word_of_nat i)" if "i < 3" for i
  proof -
    have u: "unat (0x10 + word_of_nat i :: u64) = 16 + i" using that by (simp add: unat_word_ariths unat_of_nat)
    then have M: "0x10 + word_of_nat i < MAXVA" using that by (simp add: maxva_unat)
    have "PGDOWN (0x10 + word_of_nat i) = PGDOWN 0" using that by (simp add: word_unat_eq_iff unat_PGDOWN u)
    then have "same_idx 2 0 (0x10 + word_of_nat i)" using same_idx_page [OF _ M, of 0] by (simp add: MAXVA_def)
    moreover have "user_pte (vm_entry 0x80033000 0x16)" "vm_entry 0x80033000 0x16 AND PTE_W \<noteq> 0"
      by (simp_all add: user_pte_def vm_entry_def PA2PTE_def PTE_V_def PTE_U_def PTE_W_def)
    ultimately show ?thesis using M by (simp add: uwritable_def vm_demo_def vm_tables(3))
  qed
  have "\<forall>i < length [1, 2, 3 :: byte]. unat (0x10 :: u64) + i < 2 ^ 38 \<and> uwritable vm_demo 0x80030000 (0x10 + word_of_nat i)"
    using w by simp
  with copyin_copyout_roundtrip [OF vm_demo_ok(4), of "0x10" "[1, 2, 3]"] show ?thesis by (auto simp: numeral_3_eq_3)
qed

end
