(* ===== verification/Fs.thy ===== *)
theory Fs
  imports Log Vm
begin

text \<open>
  The file system (\<open>fs.c\<close>): block allocation in the bitmap, the inode table, inode contents,
  directories and path names, on top of the buffer cache and the log. An inode pointer is an index
  into \<open>itable.inode\<close>. Fields on the disk are little-endian integers inside blocks.
\<close>

section \<open>Copying to and from an address\<close>

text \<open>
  The argument pair \<open>(user, address)\<close> of \<open>either_copyout\<close> and \<open>either_copyin\<close>: a user virtual
  address, a kernel address in physical memory, or a variable of the calling kernel routine. Bytes
  copied to a variable are returned; a variable copied from is given by its bytes.
\<close>

datatype dest = To_user u64 | To_mem nat | To_var
datatype source = From_user u64 | From_var "byte list"

definition dest_add :: "dest \<Rightarrow> nat \<Rightarrow> dest" where
  "dest_add d n = (case d of To_user a \<Rightarrow> To_user (a + word_of_nat n) | To_mem a \<Rightarrow> To_mem (a + n) | To_var \<Rightarrow> To_var)"

definition source_add :: "source \<Rightarrow> nat \<Rightarrow> source" where
  "source_add d n = (case d of From_user a \<Rightarrow> From_user (a + word_of_nat n) | From_var bs \<Rightarrow> From_var (drop n bs))"

definition my_pagetable :: "(u64, 'z mem_st_scheme) kern" where
  "my_pagetable = bind myproc (\<lambda>p. gets (\<lambda>s. word_of_nat (pagetable (procs s p))))"

definition either_copyout :: "dest \<Rightarrow> byte list \<Rightarrow> (int, 'z mem_st_scheme) kern" where
  "either_copyout dst src =
     bind my_pagetable (\<lambda>pt.
     case dst of
       To_user a \<Rightarrow> copyout pt a src
     | To_mem a \<Rightarrow> andthen (store_mem (\<lambda>m. put_bytes m a src)) (ret 0)
     | To_var \<Rightarrow> ret 0)"

definition either_copyin :: "source \<Rightarrow> nat \<Rightarrow> (int \<times> byte list, 'z mem_st_scheme) kern" where
  "either_copyin src len =
     bind my_pagetable (\<lambda>pt.
     case src of
       From_user a \<Rightarrow> copyin pt a len
     | From_var bs \<Rightarrow> ret (0, take len bs))"

section \<open>On-disk structures\<close>

definition FSMAGIC :: nat where "FSMAGIC = 0x10203040"
definition ROOTINO :: nat where "ROOTINO = 1"
definition NDIRECT :: nat where "NDIRECT = 12"
definition NINDIRECT :: nat where "NINDIRECT = BSIZE div 4"
definition MAXFILE :: nat where "MAXFILE = NDIRECT + NINDIRECT"
definition NINODE :: nat where "NINODE = 50"
definition IPB :: nat where "IPB = BSIZE div 64"
definition BPB :: nat where "BPB = BSIZE * 8"
definition DIRSIZ :: nat where "DIRSIZ = 14"
definition T_DIR :: int where "T_DIR = 1"
definition T_FILE :: int where "T_FILE = 2"
definition T_DEVICE :: int where "T_DEVICE = 3"

definition IBLOCK :: "nat \<Rightarrow> superblock \<Rightarrow> nat" where
  "IBLOCK i b = i div IPB + inodestart b"

definition BBLOCK :: "nat \<Rightarrow> superblock \<Rightarrow> nat" where
  "BBLOCK i b = i div BPB + bmapstart b"

text \<open>A C \<open>short\<close>.\<close>

definition int16 :: "nat \<Rightarrow> int" where
  "int16 n = (if n mod 2 ^ 16 < 2 ^ 15 then int (n mod 2 ^ 16) else int (n mod 2 ^ 16) - 2 ^ 16)"

definition nat16 :: "int \<Rightarrow> nat" where
  "nat16 i = nat (i mod 2 ^ 16)"

definition wrap16 :: "int \<Rightarrow> int" where
  "wrap16 i = int16 (nat16 i)"

text \<open>The reference count \<open>ref\<close> is a C \<open>int\<close>, the sizes and block numbers are \<open>uint\<close>, the others \<open>short\<close>.\<close>

record inode =
  idev :: nat
  inum :: nat
  iref :: int
  ivalid :: bool
  itype :: int
  imajor :: int
  iminor :: int
  inlink :: int
  isize :: nat
  iaddrs :: "nat \<Rightarrow> nat"

record fs_st = log_st +
  sb :: superblock
  inodes :: "nat \<Rightarrow> inode"

definition upd_inode :: "nat \<Rightarrow> (inode \<Rightarrow> inode) \<Rightarrow> (unit, 'z fs_st_scheme) kern" where
  "upd_inode ip f = upd (\<lambda>s. s\<lparr>inodes := (inodes s)(ip := f (inodes s ip))\<rparr>)"

definition geti :: "nat \<Rightarrow> (inode \<Rightarrow> 'a) \<Rightarrow> ('a, 'z fs_st_scheme) kern" where
  "geti ip f = gets (\<lambda>s. f (inodes s ip))"

definition dec_sb :: "bytes \<Rightarrow> superblock" where
  "dec_sb d = \<lparr>magic = le_get d 0 4, fssize = le_get d 4 4, nblocks = le_get d 8 4, ninodes = le_get d 12 4,
     nlog = le_get d 16 4, logstart = le_get d 20 4, inodestart = le_get d 24 4, bmapstart = le_get d 28 4\<rparr>"

text \<open>\<open>struct dinode\<close>, 64 bytes, \<open>inum % IPB\<close>-th in its block.\<close>

definition dip :: "nat \<Rightarrow> nat" where
  "dip i = 64 * (i mod IPB)"

definition load_dinode :: "bytes \<Rightarrow> nat \<Rightarrow> inode \<Rightarrow> inode" where
  "load_dinode d a ip = ip\<lparr>itype := int16 (le_get d a 2), imajor := int16 (le_get d (a + 2) 2),
     iminor := int16 (le_get d (a + 4) 2), inlink := int16 (le_get d (a + 6) 2), isize := le_get d (a + 8) 4,
     iaddrs := (\<lambda>i. if i < NDIRECT + 1 then le_get d (a + 12 + 4 * i) 4 else iaddrs ip i)\<rparr>"

definition store_dinode :: "inode \<Rightarrow> nat \<Rightarrow> bytes \<Rightarrow> bytes" where
  "store_dinode ip a d =
     fold (\<lambda>i d. le_put d (a + 12 + 4 * i) 4 (iaddrs ip i)) [0..<NDIRECT + 1]
       (le_put (le_put (le_put (le_put (le_put d a 2 (nat16 (itype ip))) (a + 2) 2 (nat16 (imajor ip)))
          (a + 4) 2 (nat16 (iminor ip))) (a + 6) 2 (nat16 (inlink ip))) (a + 8) 4 (isize ip))"

section \<open>Blocks\<close>

definition readsb :: "nat \<Rightarrow> (unit, 'z fs_st_scheme) kern" where
  "readsb dev =
     bind (bread dev 1) (\<lambda>bp.
     bind (getb bp bdata) (\<lambda>d.
     andthen (upd (\<lambda>s. s\<lparr>sb := dec_sb d\<rparr>)) (
     brelse bp)))"

definition fsinit :: "nat \<Rightarrow> (unit, 'z fs_st_scheme) kern" where
  "fsinit dev =
     andthen (readsb dev) (
     bind (gets sb) (\<lambda>b.
     if magic b \<noteq> FSMAGIC then panic ''invalid file system'' else
     initlog dev b))"

definition bzero :: "nat \<Rightarrow> nat \<Rightarrow> (unit, 'z log_st_scheme) kern" where
  "bzero dev bno =
     bind (bread dev bno) (\<lambda>bp.
     andthen (set_data bp (\<lambda>d. memset d 0 0 BSIZE)) (
     andthen (log_write bp) (
     brelse bp)))"

definition bitmask :: "nat \<Rightarrow> byte" where
  "bitmask bi = push_bit (bi mod 8) 1"

definition bit_clear :: "bytes \<Rightarrow> nat \<Rightarrow> bool" where
  "bit_clear d bi \<longleftrightarrow> d (bi div 8) AND bitmask bi = 0"

text \<open>The inner loop of \<open>balloc\<close> finds the first clear bit of a bitmap block.\<close>

definition balloc_find :: "bytes \<Rightarrow> nat \<Rightarrow> nat \<Rightarrow> nat option" where
  "balloc_find d b n = List.find (bit_clear d) [0..<min BPB (n - b)]"

fun balloc_from :: "nat list \<Rightarrow> nat \<Rightarrow> (nat, 'z fs_st_scheme) kern" where
  "balloc_from [] dev = ret 0"
| "balloc_from (b # bs) dev =
     bind (gets sb) (\<lambda>S.
     bind (bread dev (BBLOCK b S)) (\<lambda>bp.
     bind (getb bp bdata) (\<lambda>d.
     case balloc_find d b (fssize S) of
       Some bi \<Rightarrow>
         andthen (set_data bp (\<lambda>d. d(bi div 8 := d (bi div 8) OR bitmask bi))) (
         andthen (log_write bp) (
         andthen (brelse bp) (
         andthen (bzero dev (b + bi)) (
         ret (b + bi)))))
     | None \<Rightarrow> andthen (brelse bp) (balloc_from bs dev))))"

text \<open>\<open>b\<close> runs through the multiples of \<open>BPB\<close> below \<open>sb.size\<close>.\<close>

definition balloc :: "nat \<Rightarrow> (nat, 'z fs_st_scheme) kern" where
  "balloc dev = bind (gets sb) (\<lambda>S.
     balloc_from (map (\<lambda>k. k * BPB) [0..<(fssize S + BPB - 1) div BPB]) dev)"

definition bfree :: "nat \<Rightarrow> nat \<Rightarrow> (unit, 'z fs_st_scheme) kern" where
  "bfree dev b =
     bind (gets sb) (\<lambda>S.
     bind (bread dev (BBLOCK b S)) (\<lambda>bp.
     bind (getb bp bdata) (\<lambda>d.
     let bi = b mod BPB in
     if bit_clear d bi then panic ''freeing free block'' else
     andthen (set_data bp (\<lambda>d. d(bi div 8 := d (bi div 8) AND NOT (bitmask bi)))) (
     andthen (log_write bp) (
     brelse bp)))))"

section \<open>The inode table\<close>

definition iinit :: "(unit, 'z fs_st_scheme) kern" where
  "iinit = mfor [0..<NINODE] (\<lambda>i. initsleeplock (Inode_slock i))"

text \<open>The scan of \<open>iget\<close>: a referenced entry for the inode, and the first free entry.\<close>

definition iget_found :: "(nat \<Rightarrow> inode) \<Rightarrow> nat \<Rightarrow> nat \<Rightarrow> nat option" where
  "iget_found I dev i = List.find (\<lambda>k. iref (I k) > 0 \<and> idev (I k) = dev \<and> inum (I k) = i) [0..<NINODE]"

definition iget_empty :: "(nat \<Rightarrow> inode) \<Rightarrow> nat option" where
  "iget_empty I = List.find (\<lambda>k. iref (I k) = 0) [0..<NINODE]"

definition iget :: "nat \<Rightarrow> nat \<Rightarrow> (nat, 'z fs_st_scheme) kern" where
  "iget dev i =
     andthen (k_acquire Itable_lock) (
     bind (gets inodes) (\<lambda>I.
     case iget_found I dev i of
       Some ip \<Rightarrow>
         andthen (upd_inode ip (\<lambda>n. n\<lparr>iref := wrap32 (iref n + 1)\<rparr>)) (
         andthen (k_release Itable_lock) (
         ret ip))
     | None \<Rightarrow>
         (case iget_empty I of
            None \<Rightarrow> panic ''iget: no inodes''
          | Some ip \<Rightarrow>
              andthen (upd_inode ip (\<lambda>n. n\<lparr>idev := dev, inum := i, iref := 1, ivalid := False\<rparr>)) (
              andthen (k_release Itable_lock) (
              ret ip)))))"

fun ialloc_from :: "nat list \<Rightarrow> nat \<Rightarrow> int \<Rightarrow> (nat option, 'z fs_st_scheme) kern" where
  "ialloc_from [] dev type = ret None"
| "ialloc_from (i # is) dev type =
     bind (gets sb) (\<lambda>S.
     bind (bread dev (IBLOCK i S)) (\<lambda>bp.
     bind (getb bp bdata) (\<lambda>d.
     if int16 (le_get d (dip i) 2) = 0 then
       andthen (set_data bp (\<lambda>d. le_put (memset d (dip i) 0 64) (dip i) 2 (nat16 type))) (
       andthen (log_write bp) (
       andthen (brelse bp) (
       bind (iget dev i) (\<lambda>ip. ret (Some ip)))))
     else andthen (brelse bp) (ialloc_from is dev type))))"

definition ialloc :: "nat \<Rightarrow> int \<Rightarrow> (nat option, 'z fs_st_scheme) kern" where
  "ialloc dev type = bind (gets sb) (\<lambda>S. ialloc_from [1..<ninodes S] dev type)"

definition iupdate :: "nat \<Rightarrow> (unit, 'z fs_st_scheme) kern" where
  "iupdate ip =
     bind (geti ip id) (\<lambda>n. bind (gets sb) (\<lambda>S.
     bind (bread (idev n) (IBLOCK (inum n) S)) (\<lambda>bp.
     andthen (set_data bp (store_dinode n (dip (inum n)))) (
     andthen (log_write bp) (
     brelse bp)))))"

definition idup :: "nat \<Rightarrow> (nat, 'z fs_st_scheme) kern" where
  "idup ip =
     andthen (k_acquire Itable_lock) (
     andthen (upd_inode ip (\<lambda>n. n\<lparr>iref := wrap32 (iref n + 1)\<rparr>)) (
     andthen (k_release Itable_lock) (
     ret ip)))"

text \<open>\<open>None\<close> is the null pointer.\<close>

definition ilock :: "nat option \<Rightarrow> (unit, 'z fs_st_scheme) kern" where
  "ilock ipo = (case ipo of None \<Rightarrow> panic ''ilock'' | Some ip \<Rightarrow>
     bind (geti ip iref) (\<lambda>r.
     if r < 1 then panic ''ilock'' else
     andthen (acquiresleep (Inode_slock ip)) (
     bind (geti ip id) (\<lambda>n.
     if ivalid n then ret () else
     bind (gets sb) (\<lambda>S.
     bind (bread (idev n) (IBLOCK (inum n) S)) (\<lambda>bp.
     bind (getb bp bdata) (\<lambda>d.
     andthen (upd_inode ip (load_dinode d (dip (inum n)))) (
     andthen (brelse bp) (
     andthen (upd_inode ip (\<lambda>n. n\<lparr>ivalid := True\<rparr>)) (
     bind (geti ip itype) (\<lambda>t.
     if t = 0 then panic ''ilock: no type'' else ret ()))))))))))) "

definition iunlock :: "nat option \<Rightarrow> (unit, 'z fs_st_scheme) kern" where
  "iunlock ipo = (case ipo of None \<Rightarrow> panic ''iunlock'' | Some ip \<Rightarrow>
     bind (holdingsleep (Inode_slock ip)) (\<lambda>h.
     bind (geti ip iref) (\<lambda>r.
     if \<not> h \<or> r < 1 then panic ''iunlock'' else
     releasesleep (Inode_slock ip))))"

section \<open>Inode contents\<close>

definition bmap :: "nat \<Rightarrow> nat \<Rightarrow> (nat, 'z fs_st_scheme) kern" where
  "bmap ip bn =
     bind (geti ip idev) (\<lambda>dev.
     if bn < NDIRECT then
       bind (geti ip (\<lambda>n. iaddrs n bn)) (\<lambda>addr.
       if addr = 0 then
         bind (balloc dev) (\<lambda>addr.
         if addr = 0 then ret 0 else
         andthen (upd_inode ip (\<lambda>n. n\<lparr>iaddrs := (iaddrs n)(bn := addr)\<rparr>)) (
         ret addr))
       else ret addr)
     else if bn - NDIRECT < NINDIRECT then
       bind (bind (geti ip (\<lambda>n. iaddrs n NDIRECT)) (\<lambda>addr.
             if addr = 0 then
               bind (balloc dev) (\<lambda>addr.
               if addr = 0 then ret 0 else
               andthen (upd_inode ip (\<lambda>n. n\<lparr>iaddrs := (iaddrs n)(NDIRECT := addr)\<rparr>)) (
               ret addr))
             else ret addr)) (\<lambda>ind.
       if ind = 0 then ret 0 else
       bind (bread dev ind) (\<lambda>bp.
       bind (getb bp (\<lambda>b. le_get (bdata b) (4 * (bn - NDIRECT)) 4)) (\<lambda>addr.
       bind (if addr = 0 then
               bind (balloc dev) (\<lambda>addr.
               if addr \<noteq> 0 then
                 andthen (set_data bp (\<lambda>d. le_put d (4 * (bn - NDIRECT)) 4 addr)) (
                 andthen (log_write bp) (
                 ret addr))
               else ret addr)
             else ret addr) (\<lambda>addr.
       andthen (brelse bp) (
       ret addr)))))
     else panic ''bmap: out of range'')"

definition itrunc :: "nat \<Rightarrow> (unit, 'z fs_st_scheme) kern" where
  "itrunc ip =
     bind (geti ip idev) (\<lambda>dev.
     andthen (mfor [0..<NDIRECT] (\<lambda>i.
       bind (geti ip (\<lambda>n. iaddrs n i)) (\<lambda>a.
       if a \<noteq> 0 then
         andthen (bfree dev a) (upd_inode ip (\<lambda>n. n\<lparr>iaddrs := (iaddrs n)(i := 0)\<rparr>))
       else ret ()))) (
     andthen (bind (geti ip (\<lambda>n. iaddrs n NDIRECT)) (\<lambda>ind.
       if ind \<noteq> 0 then
         bind (bread dev ind) (\<lambda>bp.
         andthen (mfor [0..<NINDIRECT] (\<lambda>j.
           bind (getb bp (\<lambda>b. le_get (bdata b) (4 * j) 4)) (\<lambda>a.
           if a \<noteq> 0 then bfree dev a else ret ()))) (
         andthen (brelse bp) (
         andthen (bfree dev ind) (
         upd_inode ip (\<lambda>n. n\<lparr>iaddrs := (iaddrs n)(NDIRECT := 0)\<rparr>)))))
       else ret ())) (
     andthen (upd_inode ip (\<lambda>n. n\<lparr>isize := 0\<rparr>)) (
     iupdate ip))))"

definition iput :: "nat \<Rightarrow> (unit, 'z fs_st_scheme) kern" where
  "iput ip =
     andthen (k_acquire Itable_lock) (
     bind (geti ip id) (\<lambda>n.
     andthen
       (if iref n = 1 \<and> ivalid n \<and> inlink n = 0 then
          andthen (acquiresleep (Inode_slock ip)) (
          andthen (k_release Itable_lock) (
          andthen (itrunc ip) (
          andthen (upd_inode ip (\<lambda>n. n\<lparr>itype := 0\<rparr>)) (
          andthen (iupdate ip) (
          andthen (upd_inode ip (\<lambda>n. n\<lparr>ivalid := False\<rparr>)) (
          andthen (releasesleep (Inode_slock ip)) (
          k_acquire Itable_lock)))))))
        else ret ()) (
     andthen (upd_inode ip (\<lambda>n. n\<lparr>iref := wrap32 (iref n - 1)\<rparr>)) (
     k_release Itable_lock))))"

definition iunlockput :: "nat \<Rightarrow> (unit, 'z fs_st_scheme) kern" where
  "iunlockput ip = andthen (iunlock (Some ip)) (iput ip)"

record stat_info =
  st_dev :: nat
  st_ino :: nat
  st_type :: int
  st_nlink :: int
  st_size :: nat

definition stati :: "nat \<Rightarrow> (stat_info, 'z fs_st_scheme) kern" where
  "stati ip = bind (geti ip id) (\<lambda>n. ret \<lparr>st_dev = idev n, st_ino = inum n, st_type = itype n, st_nlink = inlink n, st_size = isize n\<rparr>)"

definition blk_room :: "nat \<Rightarrow> nat" where
  "blk_room off = BSIZE - off mod BSIZE"

text \<open>
  The loop of \<open>readi\<close> with \<open>r = n - tot\<close> bytes to go. The result is \<open>None\<close> when the copy failed,
  otherwise the bytes of this and the following iterations.
\<close>

function readi_loop :: "nat \<Rightarrow> dest \<Rightarrow> nat \<Rightarrow> nat \<Rightarrow> (byte list option, 'z fs_st_scheme) kern" where
  "readi_loop ip dst off r =
     (if r = 0 then ret (Some []) else
      bind (bmap ip (off div BSIZE)) (\<lambda>addr.
      if addr = 0 then ret (Some []) else
      bind (geti ip idev) (\<lambda>dev.
      bind (bread dev addr) (\<lambda>bp.
      bind (getb bp bdata) (\<lambda>d.
      let m = min r (blk_room off); chunk = get_bytes d (off mod BSIZE) m in
      bind (either_copyout dst chunk) (\<lambda>e.
      if e = -1 then andthen (brelse bp) (ret None) else
      andthen (brelse bp) (
      bind (readi_loop ip (dest_add dst (min r (blk_room off))) (off + min r (blk_room off)) (r - min r (blk_room off))) (\<lambda>rest.
      ret (map_option (\<lambda>bs. chunk @ bs) rest)))))))))"
  by auto
termination
  by (relation "measure (\<lambda>(ip, dst, off, r). r)") (auto simp: blk_room_def BSIZE_def)

declare readi_loop.simps [simp del]

text \<open>\<open>readi\<close> returns the C result and the bytes copied to \<open>dst\<close>.\<close>

definition readi :: "nat \<Rightarrow> dest \<Rightarrow> nat \<Rightarrow> nat \<Rightarrow> (int \<times> byte list, 'z fs_st_scheme) kern" where
  "readi ip dst off n =
     bind (geti ip isize) (\<lambda>size.
     if off > size \<or> (off + n) mod 2 ^ 32 < off then ret (0, []) else
     let n = (if off + n > size then size - off else n) in
     bind (readi_loop ip dst off n) (\<lambda>r.
     ret (case r of None \<Rightarrow> (-1, []) | Some bs \<Rightarrow> (int (length bs), bs))))"

text \<open>
  The loop of \<open>writei\<close> returns the number of bytes written. When the copy from user memory fails the block keeps what was copied,
  without being logged.
\<close>

function writei_loop :: "nat \<Rightarrow> source \<Rightarrow> nat \<Rightarrow> nat \<Rightarrow> (nat, 'z fs_st_scheme) kern" where
  "writei_loop ip src off r =
     (if r = 0 then ret 0 else
      bind (bmap ip (off div BSIZE)) (\<lambda>addr.
      if addr = 0 then ret 0 else
      bind (geti ip idev) (\<lambda>dev.
      bind (bread dev addr) (\<lambda>bp.
      bind (either_copyin src (min r (blk_room off))) (\<lambda>(e, bs).
      andthen (set_data bp (\<lambda>d. put_bytes d (off mod BSIZE) bs)) (
      if e = -1 then andthen (brelse bp) (ret 0) else
      andthen (log_write bp) (
      andthen (brelse bp) (
      bind (writei_loop ip (source_add src (min r (blk_room off))) (off + min r (blk_room off)) (r - min r (blk_room off))) (\<lambda>k.
      ret (min r (blk_room off) + k))))))))))"
  by auto
termination
  by (relation "measure (\<lambda>(ip, src, off, r). r)") (auto simp: blk_room_def BSIZE_def)

declare writei_loop.simps [simp del]

definition writei :: "nat \<Rightarrow> source \<Rightarrow> nat \<Rightarrow> nat \<Rightarrow> (int, 'z fs_st_scheme) kern" where
  "writei ip src off n =
     bind (geti ip isize) (\<lambda>size.
     if off > size \<or> (off + n) mod 2 ^ 32 < off then ret (-1) else
     if off + n > MAXFILE * BSIZE then ret (-1) else
     bind (writei_loop ip src off n) (\<lambda>tot.
     andthen (if off + tot > size then upd_inode ip (\<lambda>i. i\<lparr>isize := off + tot\<rparr>) else ret ()) (
     andthen (iupdate ip) (
     ret (int tot)))))"

section \<open>Directories\<close>

definition namecmp :: "bytes \<Rightarrow> bytes \<Rightarrow> int" where
  "namecmp s t = strncmp s t DIRSIZ"

definition de_inum :: "byte list \<Rightarrow> nat" where
  "de_inum de = le_dec (take 2 de)"

definition de_name :: "byte list \<Rightarrow> bytes" where
  "de_name de = (\<lambda>i. if i < DIRSIZ then de ! (2 + i) else 0)"

definition mk_dirent :: "nat \<Rightarrow> bytes \<Rightarrow> byte list" where
  "mk_dirent i name = le_enc 2 i @ map name [0..<DIRSIZ]"

text \<open>The scan of a directory through its entries, at offsets \<open>offs\<close>; the entry's offset is \<open>*poff\<close>.\<close>

fun dirlookup_from :: "nat list \<Rightarrow> nat \<Rightarrow> bytes \<Rightarrow> ((nat \<times> nat) option, 'z fs_st_scheme) kern" where
  "dirlookup_from [] dp name = ret None"
| "dirlookup_from (off # offs) dp name =
     bind (readi dp To_var off 16) (\<lambda>(r, de).
     if r \<noteq> 16 then panic ''dirlookup read'' else
     if de_inum de = 0 then dirlookup_from offs dp name else
     if namecmp name (de_name de) = 0 then
       bind (geti dp idev) (\<lambda>dev.
       bind (iget dev (de_inum de)) (\<lambda>ip.
       ret (Some (ip, off))))
     else dirlookup_from offs dp name)"

definition dir_offs :: "nat \<Rightarrow> nat list" where
  "dir_offs n = map (\<lambda>k. k * 16) [0..<(n + 15) div 16]"

definition dirlookup :: "nat \<Rightarrow> bytes \<Rightarrow> ((nat \<times> nat) option, 'z fs_st_scheme) kern" where
  "dirlookup dp name =
     bind (geti dp id) (\<lambda>n.
     if itype n \<noteq> T_DIR then panic ''dirlookup not DIR'' else
     dirlookup_from (dir_offs (isize n)) dp name)"

text \<open>The offset of the first empty entry, or the end of the directory.\<close>

fun dirlink_slot :: "nat list \<Rightarrow> nat \<Rightarrow> nat \<Rightarrow> (nat, 'z fs_st_scheme) kern" where
  "dirlink_slot [] last_off dp = ret last_off"
| "dirlink_slot (off # offs) last_off dp =
     bind (readi dp To_var off 16) (\<lambda>(r, de).
     if r \<noteq> 16 then panic ''dirlink read'' else
     if de_inum de = 0 then ret off else dirlink_slot offs (off + 16) dp)"

definition dirlink :: "nat \<Rightarrow> bytes \<Rightarrow> nat \<Rightarrow> (int, 'z fs_st_scheme) kern" where
  "dirlink dp name i =
     bind (dirlookup dp name) (\<lambda>found.
     case found of
       Some (ip, _) \<Rightarrow> andthen (iput ip) (ret (-1))
     | None \<Rightarrow>
         bind (geti dp isize) (\<lambda>n.
         bind (dirlink_slot (dir_offs n) 0 dp) (\<lambda>off.
         bind (writei dp (From_var (mk_dirent i (strncpy (\<lambda>_. 0) name (int DIRSIZ)))) off 16) (\<lambda>r.
         ret (if r \<noteq> 16 then -1 else 0)))))"

section \<open>Paths\<close>

text \<open>A path is the list of its bytes before the NUL; \<open>name\<close> is the buffer of \<open>DIRSIZ\<close> bytes.\<close>

definition SLASH :: byte where "SLASH = 0x2f"

definition skipelem :: "byte list \<Rightarrow> bytes \<Rightarrow> (byte list \<times> bytes) option" where
  "skipelem path name =
     (let path = dropWhile (\<lambda>c. c = SLASH) path in
      if path = [] then None else
      let s = path; elem = takeWhile (\<lambda>c. c \<noteq> SLASH) s; path = dropWhile (\<lambda>c. c \<noteq> SLASH) s; len = length elem;
          name = (if len \<ge> DIRSIZ then put_bytes name 0 (take DIRSIZ s)
                  else (put_bytes name 0 elem)(len := 0))
      in Some (dropWhile (\<lambda>c. c = SLASH) path, name))"

lemma skipelem_shorter: "skipelem path name = Some (path', name') \<Longrightarrow> length path' < length path"
proof -
  assume a: "skipelem path name = Some (path', name')"
  let ?p = "dropWhile (\<lambda>c. c = SLASH) path"
  have ne: "?p \<noteq> []" and p': "path' = dropWhile (\<lambda>c. c = SLASH) (dropWhile (\<lambda>c. c \<noteq> SLASH) ?p)"
    using a by (auto simp: skipelem_def Let_def split: if_splits)
  have "hd ?p \<noteq> SLASH" using hd_dropWhile [OF ne] by simp
  then have "length (dropWhile (\<lambda>c. c \<noteq> SLASH) ?p) < length ?p"
    using ne length_dropWhile_le [of "\<lambda>c. c \<noteq> SLASH" "tl ?p"] by (cases ?p) (auto simp: less_Suc_eq_le)
  then show ?thesis
    unfolding p' using length_dropWhile_le [of "\<lambda>c. c = SLASH"] by (meson le_less_trans less_le_trans)
qed

function namex_loop :: "byte list \<Rightarrow> bool \<Rightarrow> bytes \<Rightarrow> nat \<Rightarrow> (nat option \<times> bytes, 'z fs_st_scheme) kern" where
  "namex_loop path nameiparent name ip =
     (case skipelem path name of
        Some (path', name') \<Rightarrow>
          andthen (ilock (Some ip)) (
          bind (geti ip itype) (\<lambda>t.
          if t \<noteq> T_DIR then andthen (iunlockput ip) (ret (None, name')) else
          if nameiparent \<and> path' = [] then andthen (iunlock (Some ip)) (ret (Some ip, name')) else
          bind (dirlookup ip name') (\<lambda>found.
          case found of
            None \<Rightarrow> andthen (iunlockput ip) (ret (None, name'))
          | Some (nxt, _) \<Rightarrow> andthen (iunlockput ip) (namex_loop path' nameiparent name' nxt))))
      | None \<Rightarrow>
          if nameiparent then andthen (iput ip) (ret (None, name)) else ret (Some ip, name))"
  by pat_completeness auto
termination
  by (relation "measure (\<lambda>(path, npar, name, ip). length path)") (auto dest: skipelem_shorter)

declare namex_loop.simps [simp del]

definition namex :: "byte list \<Rightarrow> bool \<Rightarrow> bytes \<Rightarrow> (nat option \<times> bytes, 'z fs_st_scheme) kern" where
  "namex path nameiparent name =
     bind (if path \<noteq> [] \<and> hd path = SLASH then iget ROOTDEV ROOTINO
           else bind myproc (\<lambda>p. bind (gets (\<lambda>s. cwd (procs s p))) (\<lambda>c.
                case c of None \<Rightarrow> panic ''kerneltrap'' | Some ip \<Rightarrow> idup ip))) (\<lambda>ip.
     namex_loop path nameiparent name ip)"

definition namei :: "byte list \<Rightarrow> (nat option, 'z fs_st_scheme) kern" where
  "namei path = bind (namex path False (\<lambda>_. 0)) (\<lambda>(ip, _). ret ip)"

definition nameiparent :: "byte list \<Rightarrow> bytes \<Rightarrow> (nat option \<times> bytes, 'z fs_st_scheme) kern" where
  "nameiparent path name = namex path True name"

section \<open>Path names\<close>

text \<open>The elements that repeated calls of \<open>skipelem\<close> deliver, starting with any contents of the name buffer.\<close>

function path_elems :: "bytes \<Rightarrow> byte list \<Rightarrow> byte list list" where
  "path_elems name path = (case skipelem path name of None \<Rightarrow> []
     | Some (path', name') \<Rightarrow> cstr name' DIRSIZ # path_elems name' path')"
  by pat_completeness auto
termination
  by (relation "measure (\<lambda>(name, path). length path)") (auto dest: skipelem_shorter)

declare path_elems.simps [simp del]

text \<open>The reference: cut at every slash, drop the empty pieces.\<close>

fun split_slash :: "byte list \<Rightarrow> byte list list" where
  "split_slash [] = [[]]"
| "split_slash (c # cs) = (if c = SLASH then [] # split_slash cs else (c # hd (split_slash cs)) # tl (split_slash cs))"

definition components :: "byte list \<Rightarrow> byte list list" where
  "components path = filter (\<lambda>e. e \<noteq> []) (split_slash path)"

lemma split_slash_ne [simp]: "split_slash cs \<noteq> []"
  by (cases cs) auto

lemma split_slash_elem: "SLASH \<notin> set e \<Longrightarrow> split_slash (e @ cs) = (e @ hd (split_slash cs)) # tl (split_slash cs)"
  by (induction e) auto

lemma components_slash: "components (SLASH # cs) = components cs"
  by (simp add: components_def)

lemma components_skip: "components (dropWhile (\<lambda>c. c = SLASH) p) = components p"
  by (induction p) (auto simp: components_slash)

lemma components_elem:
  assumes "SLASH \<notin> set e" and "e \<noteq> []" and "rest = [] \<or> hd rest = SLASH"
  shows "components (e @ rest) = e # components rest"
  using assms split_slash_elem [OF assms(1), of rest] by (cases rest) (auto simp: components_def)

definition elem_name :: "bytes \<Rightarrow> byte list \<Rightarrow> byte list \<Rightarrow> bytes" where
  "elem_name name e rest = (if length e \<ge> DIRSIZ then put_bytes name 0 (take DIRSIZ (e @ rest)) else (put_bytes name 0 e)(length e := 0))"

lemma elem_name_cstr:
  assumes "0 \<notin> set e"
  shows "cstr (elem_name name e rest) DIRSIZ = take DIRSIZ e"
proof (cases "length e \<ge> DIRSIZ")
  case True
  have "map (elem_name name e rest) [0..<DIRSIZ] = take DIRSIZ e"
    using True by (intro nth_equalityI) (simp_all add: elem_name_def put_bytes_def nth_append)
  moreover have "takeWhile (\<lambda>b. b \<noteq> 0) (take DIRSIZ e) = take DIRSIZ e"
    using assms by (auto simp: takeWhile_eq_all_conv dest: in_set_takeD)
  ultimately show ?thesis by (simp add: cstr_def)
next
  case False
  let ?n = "elem_name name e rest"
  have "[0..<DIRSIZ] = [0..<length e] @ length e # [Suc (length e)..<DIRSIZ]"
    using False upt_add_eq_append [of 0 "length e" "DIRSIZ - length e"] upt_conv_Cons [of "length e" DIRSIZ] by simp
  moreover have "map ?n [0..<length e] = e"
    using False by (intro nth_equalityI) (simp_all add: elem_name_def put_bytes_def)
  moreover have "?n (length e) = 0" using False by (simp add: elem_name_def)
  ultimately have "map ?n [0..<DIRSIZ] = e @ 0 # map ?n [Suc (length e)..<DIRSIZ]" by simp
  moreover have "\<forall>x \<in> set e. x \<noteq> 0" using assms by metis
  ultimately show ?thesis using False by (simp add: cstr_def takeWhile_append2)
qed

lemma skipelem_split:
  "skipelem path name = (let p = dropWhile (\<lambda>c. c = SLASH) path; e = takeWhile (\<lambda>c. c \<noteq> SLASH) p; r = dropWhile (\<lambda>c. c \<noteq> SLASH) p in
     if p = [] then None else Some (dropWhile (\<lambda>c. c = SLASH) r, elem_name name e r))"
  by (simp add: skipelem_def Let_def elem_name_def)

text \<open>
  C26: walking a path with \<open>skipelem\<close> visits exactly the components of the path: the pieces between slashes, without the empty ones, in
  order, each cut to 14 bytes, whatever the name buffer held before. Leading, trailing and repeated slashes make no difference.
\<close>

theorem skipelem_equals_split:
  assumes "0 \<notin> set path"
  shows "path_elems name path = map (take DIRSIZ) (components path)"
  using assms
proof (induction name path rule: path_elems.induct)
  case (1 name path)
  let ?p = "dropWhile (\<lambda>c. c = SLASH) path"
  let ?e = "takeWhile (\<lambda>c. c \<noteq> SLASH) ?p" and ?r = "dropWhile (\<lambda>c. c \<noteq> SLASH) ?p"
  show ?case
  proof (cases "?p = []")
    case True
    have "components path = components []" using components_skip [of path] unfolding True by simp
    then have "components path = []" by (simp add: components_def)
    then show ?thesis using True by (subst path_elems.simps) (simp add: skipelem_split)
  next
    case False
    have sk: "skipelem path name = Some (dropWhile (\<lambda>c. c = SLASH) ?r, elem_name name ?e ?r)"
      using False by (simp add: skipelem_split Let_def)
    have ns: "?e \<noteq> []" using False hd_dropWhile [of "\<lambda>c. c = SLASH" path] by (cases ?p) auto
    have z: "0 \<notin> set ?e" "0 \<notin> set (dropWhile (\<lambda>c. c = SLASH) ?r)"
      using "1.prems" by (auto dest!: set_takeWhileD set_dropWhileD)
    have "components path = components (?e @ ?r)" using components_skip [of path] by simp
    also have "\<dots> = ?e # components ?r"
      using ns hd_dropWhile [of "\<lambda>c. c \<noteq> SLASH" ?p] by (intro components_elem) (auto dest: set_takeWhileD)
    also have "components ?r = components (dropWhile (\<lambda>c. c = SLASH) ?r)" by (rule components_skip [symmetric])
    finally have "map (take DIRSIZ) (components path) = take DIRSIZ ?e # map (take DIRSIZ) (components (dropWhile (\<lambda>c. c = SLASH) ?r))" by simp
    moreover have "path_elems (elem_name name ?e ?r) (dropWhile (\<lambda>c. c = SLASH) ?r) = map (take DIRSIZ) (components (dropWhile (\<lambda>c. c = SLASH) ?r))"
      using "1.IH" [OF sk refl] z(2) by simp
    ultimately show ?thesis using elem_name_cstr [OF z(1)] by (subst path_elems.simps) (simp add: sk)
  qed
qed

theorem skipelem_equals_split_witness:
  "path_elems (\<lambda>_. 7) [SLASH, SLASH, 0x61, SLASH, 0x62, 0x62, SLASH] = [[0x61], [0x62, 0x62]]"
proof -
  have "(0 :: byte) \<notin> set [SLASH, SLASH, 0x61, SLASH, 0x62, 0x62, SLASH]" by (simp add: SLASH_def)
  from skipelem_equals_split [OF this] show ?thesis by (simp add: components_def SLASH_def DIRSIZ_def)
qed

end
