(* ===== verification/Umem.thy ===== *)
theory Umem
  imports Fs
begin

text \<open>
  User memory as the current process sees it: the bytes at a user address, copying one byte in and out, and the state of
  a process with one mapped page that the examples of the later theories start from.
\<close>

section \<open>Bytes at user addresses\<close>

definition user_bytes :: "'z mem_st_scheme \<Rightarrow> nat \<Rightarrow> u64 \<Rightarrow> byte list \<Rightarrow> bool" where
  "user_bytes s pt addr bs \<longleftrightarrow> (\<forall>j < length bs. unat addr + j < 2 ^ 38 \<and> ubyte s pt (addr + word_of_nat j) = Some (bs ! j))"

lemma user_ok_cong:
  "mem t = mem s \<Longrightarrow> freelist t = freelist s \<Longrightarrow> lay t = lay s \<Longrightarrow> held t Kmem_lock = held s Kmem_lock \<Longrightarrow> user_ok t p = user_ok s p"
  for t :: "'y mem_st_scheme" and s :: "'z mem_st_scheme"
  by (simp add: user_ok_def kmem_ok_def free_is_def tab_ok_def free_pages_def)

lemma ubyte_cong: "mem t = mem s \<Longrightarrow> ubyte t p x = ubyte s p x"
  for t :: "'y mem_st_scheme" and s :: "'z mem_st_scheme"
  by (simp add: ubyte_def)

lemma uwritable_cong: "mem t = mem s \<Longrightarrow> uwritable t p x = uwritable s p x"
  for t :: "'y mem_st_scheme" and s :: "'z mem_st_scheme"
  by (simp add: uwritable_def)

lemma my_pagetable_run [exec_simps]:
  "curp s = Some me \<Longrightarrow> my_pagetable s = Ok (word_of_nat (pagetable (procs s me))) s"
  by (simp add: my_pagetable_def exec_simps)

lemma unat_add_small: "unat (a :: u64) + i < 2 ^ 38 \<Longrightarrow> unat (a + word_of_nat i) = unat a + i"
  by (simp add: unat_word_ariths unat_of_nat)

lemma copyin_byte:
  assumes "user_ok s pt" and "ubyte s pt a = Some c" and "unat a < 2 ^ 38"
  shows "copyin (word_of_nat pt) a 1 s = Ok (0, [c]) s"
proof -
  have "readable s pt a 1" using assms by (simp add: readable_def)
  with copyin_user [OF assms(1), of a 1] obtain out where
    o: "copyin (word_of_nat pt) a 1 s = Ok (0, out) s" "length out = 1" "ubyte s pt (a + word_of_nat 0) = Some (out ! 0)" by fastforce
  then have "out = [c]" using assms(2) by (cases out) auto
  with o show ?thesis by simp
qed

lemma copyout_byte:
  assumes "user_ok s pt" and "uwritable s pt a" and "unat a < 2 ^ 38"
  shows "\<exists>t. copyout (word_of_nat pt) a [c] s = Ok 0 t \<and> t = s\<lparr>mem := mem t\<rparr> \<and> user_ok t pt \<and>
    ubyte t pt a = Some c \<and> (\<forall>y. y \<noteq> a \<longrightarrow> ubyte t pt y = ubyte s pt y) \<and> (\<forall>y. uwritable t pt y = uwritable s pt y)"
proof -
  from copyout_user [OF assms(1), of a "[c]"] obtain r t where
    t: "copyout (word_of_nat pt) a [c] s = Ok r t" "t = s\<lparr>mem := mem t\<rparr>" "user_ok t pt"
      "\<forall>y. leaf 2 (mem t) pt y = leaf 2 (mem s) pt y" "\<forall>y. \<not> in_range a 1 y \<longrightarrow> ubyte t pt y = ubyte s pt y"
      "r = 0 \<and> (\<forall>y. in_range a 1 y \<longrightarrow> ubyte t pt y = Some ([c] ! (unat y - unat a)))"
    using assms(2,3) by auto
  have r: "in_range a 1 y \<longleftrightarrow> y = a" for y by (auto simp: in_range_def word_unat_eq_iff)
  have "uwritable t pt y = uwritable s pt y" for y using t(4) by (simp add: uwritable_def)
  then show ?thesis using t r by (intro exI [of _ t]) simp
qed

lemma no_locks [simp]: "(\<lambda>_. False)(l := False) = (\<lambda>_. False)"
  by (rule ext) simp

lemma quiet_held: "quiet s \<Longrightarrow> held s = (\<lambda>_. False)"
  by (simp add: quiet_def)

section \<open>Sleepers\<close>

definition no_sleeper :: "chan \<Rightarrow> 'z sched_st_scheme \<Rightarrow> bool" where
  "no_sleeper c s \<longleftrightarrow> (\<forall>q < NPROC. curp s \<noteq> Some q \<longrightarrow> \<not> (state (procs s q) = SLEEPING \<and> chan (procs s q) = c))"

lemma wake_no_sleeper: "no_sleeper c (wake_upto NPROC c s)"
  by (auto simp: no_sleeper_def wake_upto_def wake_procs_def woken_def)

lemma wake_mem [simp]:
  "mem (wake_upto n c s) = mem s" "freelist (wake_upto n c s) = freelist s" "lay (wake_upto n c s) = lay s"
  by (simp_all add: wake_upto_def)

lemma wake_proc [simp]:
  "pagetable (procs (wake_upto n c s) p) = pagetable (procs s p)" "killed (procs (wake_upto n c s) p) = killed (procs s p)"
  by (simp_all add: wake_upto_def wake_procs_def woken_def)

section \<open>A process with one page\<close>

definition inode0 :: inode where
  "inode0 = \<lparr>idev = 0, inum = 0, iref = 0, ivalid = False, itype = 0, imajor = 0, iminor = 0, inlink = 0, isize = 0, iaddrs = (\<lambda>_. 0)\<rparr>"

definition sb0 :: superblock where
  "sb0 = \<lparr>magic = FSMAGIC, fssize = 2000, nblocks = 1954, ninodes = 200, nlog = 30, logstart = 2, inodestart = 32, bmapstart = 45\<rparr>"

definition run_proc :: proc where
  "run_proc = proc0\<lparr>state := RUNNING, pid := 1, pagetable := 0x80030000, sz := 4096\<rparr>"

definition fs_start :: "'z \<Rightarrow> 'z fs_st_scheme" where
  "fs_start m = (bio_start (\<lambda>_ _. 0) \<lparr>lg = log0 31, sb = sb0, inodes = (\<lambda>_. inode0), \<dots> = m\<rparr>)
     \<lparr>mem := vm_mem, freelist := 0x80022000, procs := (\<lambda>_. proc0)(0 := run_proc)\<rparr>"

lemma fs_start_ok: "quiet (fs_start m)" "curp (fs_start m) = Some 0" "procs (fs_start m) 0 = run_proc"
  "user_ok (fs_start m) 0x80030000" "fs_st.more (fs_start m) = m"
proof -
  show "quiet (fs_start m)" "curp (fs_start m) = Some 0" "procs (fs_start m) 0 = run_proc" "fs_st.more (fs_start m) = m"
    by (simp_all add: fs_start_def bio_start_def quiet_def)
  have "user_ok (fs_start m) 0x80030000 = user_ok vm_demo 0x80030000"
    by (rule user_ok_cong) (simp_all add: fs_start_def bio_start_def vm_demo_def mem_boot_def)
  then show "user_ok (fs_start m) 0x80030000" using vm_demo_ok by simp
qed

lemma run_proc_simps [simp]: "pagetable run_proc = 0x80030000" "killed run_proc = False" "state run_proc = RUNNING" "sz run_proc = 4096"
  by (simp_all add: run_proc_def proc0_def)

lemma vm_demo_page: "unat x < 4096 \<Longrightarrow> leaf 2 vm_mem 0x80030000 x = vm_entry 0x80033000 0x16 \<and> x < MAXVA"
proof -
  assume x: "unat x < 4096"
  then have M: "x < MAXVA" by (simp add: maxva_unat)
  have "PGDOWN x = PGDOWN 0" using x by (simp add: word_unat_eq_iff unat_PGDOWN)
  then have "same_idx 2 0 x" using same_idx_page [OF _ M, of 0] by (simp add: MAXVA_def)
  with M show ?thesis by (simp add: vm_tables(3))
qed

lemma fs_start_user:
  assumes "unat x < 4096"
  shows "uwritable (fs_start m) 0x80030000 x" "ubyte (fs_start m) 0x80030000 x = Some 0"
proof -
  have p: "user_pte (vm_entry 0x80033000 0x16)" "vm_entry 0x80033000 0x16 AND PTE_W \<noteq> 0"
    by (simp_all add: user_pte_def vm_entry_def PA2PTE_def PTE_V_def PTE_U_def PTE_W_def)
  have e: "PTE2PA (vm_entry 0x80033000 0x16) = word_of_nat 0x80033000"
    using pte_fields(1) [OF vm_pages(4), where f = "0x16"] by (simp add: vm_entry_def)
  have mm: "mem (fs_start m) = vm_mem" by (simp add: fs_start_def bio_start_def)
  have z: "vm_mem (0x80033000 + i) = 0" for i by (simp add: vm_mem_def le_put_outside)
  show "uwritable (fs_start m) 0x80030000 x" using vm_demo_page [OF assms] p by (simp add: uwritable_def mm)
  have "unat (PTE2PA (vm_entry 0x80033000 0x16)) = 0x80033000" unfolding e by (rule word_nat_pg) (rule vm_pages(4))
  then show "ubyte (fs_start m) 0x80030000 x = Some 0"
    using vm_demo_page [OF assms] p z [of "unat x"] assms by (simp add: ubyte_def mm)
qed

end
