(* ===== verification/Blocks.thy ===== *)
theory Blocks
  imports Umem
begin

text \<open>
  The file system's view of the buffer cache and the log inside a transaction: a store of blocks, each of which may be
  read, changed, logged and let go (\<open>tx\<close>), with room for the blocks that are still to be logged (\<open>room\<close>). On top of it, block
  allocation (\<open>balloc\<close>, \<open>bfree\<close>) implements a set of free blocks.
\<close>

section \<open>Inside a transaction\<close>

definition store :: "'z bio_st_scheme \<Rightarrow> nat \<Rightarrow> bytes" where
  "store s = content (bview_of s)"

definition logset :: "'z log_st_scheme \<Rightarrow> nat set" where
  "logset s = lhblock (lg s) ` {..<nat (lhn (lg s))}"

text \<open>
  \<open>tx T D s\<close>: the running transaction holds the buffers of the blocks \<open>T\<close>, has changed those in \<open>D\<close> without logging them yet, and
  every block that is neither logged nor in \<open>D\<close> is as on the disk.
\<close>

definition tx :: "nat set \<Rightarrow> nat set \<Rightarrow> 'z log_st_scheme \<Rightarrow> bool" where
  "tx T D s \<longleftrightarrow> bio_ok s \<and> finite T \<and> 1 \<le> outstanding (lg s) \<and> lhn (lg s) = int (card (logset s)) \<and>
     card (logset s) + 3 \<le> NBUF \<and>
     (\<forall>b. refs (bview_of s) b = of_bool (b \<in> logset s) + of_bool (b \<in> T)) \<and> (\<forall>b. taken (bview_of s) b \<longleftrightarrow> b \<in> T) \<and>
     (\<forall>b. b \<notin> logset s \<longrightarrow> b \<notin> D \<longrightarrow> store s b = on_disk (bview_of s) b)"

definition room :: "nat set \<Rightarrow> nat \<Rightarrow> 'z log_st_scheme \<Rightarrow> bool" where
  "room X n s \<longleftrightarrow> finite X \<and> card (logset s \<union> X) + n + 3 \<le> NBUF \<and> int (card (logset s \<union> X) + n) < lsize (lg s) - 1"

lemma finite_logset [simp]: "finite (logset s)"
  by (simp add: logset_def)

lemma room_weaken: "room X n s \<Longrightarrow> m \<le> n \<Longrightarrow> room X m s"
  by (auto simp: room_def)

lemma room_cong: "lg t = lg s \<Longrightarrow> room X n t = room X n s"
  by (simp add: room_def logset_def)

lemma logset_cong: "lg t = lg s \<Longrightarrow> logset t = logset s"
  by (simp add: logset_def)

text \<open>Logging a block costs nothing when it is logged already or reserved in \<open>X\<close>.\<close>

lemma room_log:
  assumes "room X (n + of_bool (b \<notin> logset s \<union> X)) s" "lsize (lg t) = lsize (lg s)" "logset t = insert b (logset s)"
  shows "room X n t"
proof -
  have f: "finite X" using assms(1) by (simp add: room_def)
  have "logset t \<union> X = insert b (logset s \<union> X)" using assms(3) by auto
  then have "card (logset t \<union> X) = card (logset s \<union> X) + of_bool (b \<notin> logset s \<union> X)" using f by (simp add: card_insert_if)
  then show ?thesis using assms by (simp add: room_def)
qed

lemma tx_read:
  assumes tx: "tx T D s" and b: "b \<notin> T" and c: "card T \<le> 2"
  shows "\<exists>i t. bread ROOTDEV b s = Ok i t \<and> tx (insert b T) D t \<and> holds t i b \<and> store t = store s \<and> lg t = lg s \<and>
    others_of t = others_of s \<and> (\<forall>j c. holds s j c \<longrightarrow> holds t j c)"
proof -
  have "{x. 0 < refs (bview_of s) x} = logset s \<union> T" using tx by (auto simp: tx_def)
  then have "card {x. 0 < refs (bview_of s) x} < NBUF"
    using card_Un_le [of "logset s" T] c tx by (simp add: tx_def)
  then have "can_read (bview_of s) b" using tx b by (simp add: can_read_def tx_def)
  from bcache.rd_law [OF _ this] tx obtain i t where t: "bread ROOTDEV b s = Ok i t" "bio_ok t" "holds t i b"
    "bview_of t = a_read b (bview_of s)" "rest_of t = rest_of s" "\<forall>j c. holds s j c \<longrightarrow> holds t j c" by (auto simp: tx_def)
  have l: "lg t = lg s" using rest_lg [OF t(5)] .
  have "tx (insert b T) D t" using tx t(2,4) l b by (auto simp: tx_def a_read_def logset_cong [OF l] store_def)
  with t l rest_others [OF t(5)] show ?thesis by (auto simp: store_def a_read_def)
qed

lemma tx_release:
  assumes tx: "tx T D s" and h: "holds s i b" and b: "b \<notin> D"
  shows "\<exists>t. brelse i s = Ok () t \<and> tx (T - {b}) D t \<and> store t = store s \<and> lg t = lg s \<and>
    others_of t = others_of s \<and> (\<forall>j c. holds s j c \<longrightarrow> c \<noteq> b \<longrightarrow> holds t j c)"
proof -
  have ok: "bio_ok s" using tx by (simp add: tx_def)
  have bT: "b \<in> T" using bcache.mine_view [OF ok h] tx by (simp add: tx_def)
  have "refs (bview_of s) b = of_bool (b \<in> logset s) + 1" using tx bT by (simp add: tx_def)
  then have "can_release (bview_of s) b" using tx b by (auto simp: can_release_def tx_def store_def)
  from bcache.rel_law [OF ok h this] obtain t where t: "brelse i s = Ok () t" "bio_ok t"
    "bview_of t = a_release b (bview_of s)" "rest_of t = rest_of s" "\<forall>j c. holds s j c \<longrightarrow> c \<noteq> b \<longrightarrow> holds t j c" by blast
  have l: "lg t = lg s" using rest_lg [OF t(4)] .
  have "tx (T - {b}) D t" using tx t(2,3) l bT by (auto simp: tx_def a_release_def logset_cong [OF l] store_def)
  with t l rest_others [OF t(4)] show ?thesis by (auto simp: store_def a_release_def)
qed

lemma tx_set:
  assumes tx: "tx T D s" and h: "holds s i b"
  shows "\<exists>t. set_data i f s = Ok () t \<and> tx T (insert b D) t \<and> store t = (store s)(b := f (store s b)) \<and> lg t = lg s \<and>
    others_of t = others_of s \<and> (\<forall>j c. holds t j c = holds s j c)"
proof -
  have ok: "bio_ok s" using tx by (simp add: tx_def)
  from bcache.setd_law [OF ok h, of f] obtain t where t: "set_data i f s = Ok () t" "bio_ok t"
    "bview_of t = a_set b (f (content (bview_of s) b)) (bview_of s)" "rest_of t = rest_of s" "\<forall>j c. holds t j c = holds s j c" by blast
  have l: "lg t = lg s" using rest_lg [OF t(4)] .
  have "tx T (insert b D) t" using tx t(2,3) l by (auto simp: tx_def a_set_def logset_cong [OF l] store_def)
  with t l rest_others [OF t(4)] show ?thesis by (auto simp: store_def a_set_def)
qed

lemma logset_add:
  assumes "0 \<le> lhn (lg s)" and "lg t = log_add b (lg s)"
  shows "logset t = insert b (logset s)" "lsize (lg t) = lsize (lg s)" "outstanding (lg t) = outstanding (lg s)"
    "lhn (lg s) = int (card (logset s)) \<Longrightarrow> lhn (lg t) = int (card (logset t))"
proof -
  show e: "logset t = insert b (logset s)"
  proof (cases "b \<in> logset s")
    case True
    then show ?thesis using assms by (auto simp: logset_def log_add_def)
  next
    case False
    have n: "nat (lhn (lg s) + 1) = Suc (nat (lhn (lg s)))" using assms(1) by simp
    show ?thesis using False assms unfolding logset_def log_add_def
      by (simp add: n lessThan_Suc image_iff) (auto simp: fun_upd_def)
  qed
  show "lsize (lg t) = lsize (lg s)" "outstanding (lg t) = outstanding (lg s)" using assms(2) by (auto simp: log_add_def)
  show "lhn (lg t) = int (card (logset t))" if "lhn (lg s) = int (card (logset s))"
  proof -
    have "lg t = (if b \<in> logset s then lg s else (lg s)\<lparr>lhn := lhn (lg s) + 1, lhblock := (lhblock (lg s))(nat (lhn (lg s)) := b)\<rparr>)"
      using assms(2) by (simp add: log_add_def logset_def)
    then show ?thesis using that unfolding e by (cases "b \<in> logset s") (simp_all add: insert_absorb)
  qed
qed

lemma tx_log:
  assumes tx: "tx T D s" and h: "holds s i b" and r: "room X (n + of_bool (b \<notin> logset s \<union> X)) s"
  shows "\<exists>t. log_write i s = Ok () t \<and> tx T (D - {b}) t \<and> store t = store s \<and> room X n t \<and> logset t = insert b (logset s) \<and>
    others_of t = others_of s \<and> (\<forall>j c. holds t j c = holds s j c)"
proof -
  have ok: "bio_ok s" using tx by (simp add: tx_def)
  have lo: "lhn (lg s) = int (card (logset s))" "1 \<le> outstanding (lg s)" using tx by (simp_all add: tx_def)
  have cl: "card (logset s) \<le> card (logset s \<union> X)" using r by (intro card_mono) (auto simp: room_def)
  have "room X n s" using r by (rule room_weaken) simp
  then have lr: "log_room (lg s)" using cl lo by (auto simp: log_room_def room_def LOGSIZE_def MAXOPBLOCKS_def NBUF_def)
  have rf: "refs (bview_of s) b < 2 ^ 32 - 1" using tx by (simp add: tx_def)
  from log_write_view [OF ok h lr rf] obtain t where t: "log_write i s = Ok () t" "bio_ok t" "lg t = log_add b (lg s)"
    "others_of t = others_of s" "bview_of t = (if b \<in> logset s then bview_of s else a_pin b (bview_of s))"
    "\<forall>j c. holds t j c = holds s j c" by (auto simp: logset_def)
  note la = logset_add [OF _ t(3)]
  have n0: "0 \<le> lhn (lg s)" using lo by simp
  have rt: "room X n t" by (rule room_log [OF r la(2,1)]) (use n0 in auto)
  have "card (logset t) \<le> card (logset t \<union> X)" using r by (intro card_mono) (auto simp: room_def)
  then have ct: "card (logset t) + 3 \<le> NBUF" using rt by (simp add: room_def)
  have st: "store t = store s" using t(5) by (auto simp: store_def a_pin_def)
  have "tx T (D - {b}) t"
    using tx t(2,5) la [OF n0] lo ct unfolding tx_def by (auto simp: store_def a_pin_def)
  with t rt st la(1) [OF n0] show ?thesis by blast
qed

lemma tx_data: "tx T D s \<Longrightarrow> holds s i b \<Longrightarrow> bdata (bufs s i) = store s b"
  using bcache.getd_law [of s i b] by (simp add: tx_def store_def getb_run)

text \<open>Reading a block, changing it by \<open>f\<close>, logging it and letting it go: the body of \<open>bzero\<close> and \<open>iupdate\<close>.\<close>

lemma tx_modify:
  assumes tx: "tx T {} s" and b: "b \<notin> T" "card T \<le> 2" and r: "room X (n + of_bool (b \<notin> logset s \<union> X)) s"
  shows "\<exists>t. bind (bread ROOTDEV b) (\<lambda>i. andthen (set_data i f) (andthen (log_write i) (brelse i))) s = Ok () t \<and>
    tx T {} t \<and> store t = (store s)(b := f (store s b)) \<and> room X n t \<and> logset t = insert b (logset s) \<and>
    others_of t = others_of s \<and> (\<forall>j c. holds s j c \<longrightarrow> holds t j c)"
proof -
  from tx_read [OF tx b] obtain i u where u: "bread ROOTDEV b s = Ok i u" "tx (insert b T) {} u" "holds u i b" "store u = store s"
    "lg u = lg s" "others_of u = others_of s" "\<forall>j c. holds s j c \<longrightarrow> holds u j c" by blast
  from tx_set [OF u(2,3), of f] obtain v where v: "set_data i f u = Ok () v" "tx (insert b T) {b} v" "store v = (store s)(b := f (store s b))"
    "lg v = lg s" "others_of v = others_of s" "\<forall>j c. holds v j c = holds u j c" using u by auto
  have rv: "room X (n + of_bool (b \<notin> logset v \<union> X)) v" using r room_cong [OF v(4)] logset_cong [OF v(4)] by simp
  have hv: "holds v i b" using v(6) u(3) by simp
  from tx_log [OF v(2) hv rv] obtain w where w: "log_write i v = Ok () w" "tx (insert b T) {} w" "store w = store v"
    "room X n w" "logset w = insert b (logset v)" "others_of w = others_of v" "\<forall>j c. holds w j c = holds v j c" by auto
  have hw: "holds w i b" using w(7) hv by simp
  from tx_release [OF w(2) hw] obtain t where t: "brelse i w = Ok () t" "tx (insert b T - {b}) {} t" "store t = store w" "lg t = lg w"
    "others_of t = others_of w" "\<forall>j c. holds w j c \<longrightarrow> c \<noteq> b \<longrightarrow> holds t j c" by auto
  have nb: "c \<noteq> b" if "holds s j c" for j c
    using that tx b(1) bcache.mine_view [of s j c] by (auto simp: tx_def)
  have "insert b T - {b} = T" using b(1) by auto
  then show ?thesis
    using u v w t nb logset_cong [OF v(4)] logset_cong [OF t(4)] room_cong [OF t(4)] by (intro exI [of _ t]) (simp add: exec_simps)
qed

section \<open>The bitmap as a set of free blocks\<close>

definition bitmap_blocks :: "superblock \<Rightarrow> nat set" where
  "bitmap_blocks S = (\<lambda>b. BBLOCK b S) ` {..<fssize S}"

definition data_start :: "superblock \<Rightarrow> nat" where
  "data_start S = bmapstart S + fssize S div BPB + 1"

definition free_blocks :: "superblock \<Rightarrow> (nat \<Rightarrow> bytes) \<Rightarrow> nat set" where
  "free_blocks S st = {b. b < fssize S \<and> bit_clear (st (BBLOCK b S)) (b mod BPB)}"

text \<open>The blocks before the data blocks are never free.\<close>

definition bitmap_ok :: "superblock \<Rightarrow> (nat \<Rightarrow> bytes) \<Rightarrow> bool" where
  "bitmap_ok S st \<longleftrightarrow> (\<forall>b \<in> free_blocks S st. data_start S \<le> b)"

definition zero_block :: "bytes \<Rightarrow> bytes" where
  "zero_block d = (\<lambda>i. if i < BSIZE then 0 else d i)"

lemma BPB_pos [simp]: "0 < BPB" "BPB \<noteq> 0"
  by (simp_all add: BPB_def BSIZE_def)

lemma bitmap_below: "x \<in> bitmap_blocks S \<Longrightarrow> x < data_start S"
  by (auto simp: bitmap_blocks_def data_start_def BBLOCK_def less_Suc_eq_le div_le_mono)

lemma finite_free [simp]: "finite (free_blocks S st)"
  by (rule finite_subset [of _ "{..<fssize S}"]) (auto simp: free_blocks_def)

lemma BBLOCK_add [simp]: "bi < BPB \<Longrightarrow> BBLOCK (k * BPB + bi) S = BBLOCK (k * BPB) S"
  by (simp add: BBLOCK_def)

lemma free_cong: "(\<And>b. b \<in> bitmap_blocks S \<Longrightarrow> st b = st' b) \<Longrightarrow> free_blocks S st = free_blocks S st'"
  by (auto simp: free_blocks_def bitmap_blocks_def)

text \<open>Setting and clearing one bit.\<close>

lemma bit_clear_bit: "bit_clear d bi \<longleftrightarrow> \<not> bit (d (bi div 8)) (bi mod 8)"
  by (simp add: bit_clear_def bitmask_def and_exp_eq_0_iff_not_bit)

lemma bitmask_bit: "n < 8 \<Longrightarrow> bit (bitmask bi) n \<longleftrightarrow> n = bi mod 8"
  by (auto simp: bitmask_def bit_simps)

lemma same_bit: "x div 8 = y div 8 \<Longrightarrow> x mod 8 = y mod 8 \<longleftrightarrow> x = (y :: nat)"
  by (metis div_mult_mod_eq)

lemma bit_clear_set:
  "bit_clear (d(bi div 8 := d (bi div 8) OR bitmask bi)) x \<longleftrightarrow> x \<noteq> bi \<and> bit_clear d x"
  using same_bit [of x bi] by (auto simp: bit_clear_bit bit_or_iff bitmask_bit)

lemma bit_clear_reset:
  "bit_clear (d(bi div 8 := d (bi div 8) AND NOT (bitmask bi))) x \<longleftrightarrow> x = bi \<or> bit_clear d x"
  using same_bit [of x bi] by (auto simp: bit_clear_bit bit_and_iff bit_not_iff bitmask_bit)

lemma free_change:
  assumes "b < fssize S" and "\<And>x. bit_clear d x \<longleftrightarrow> (if x = b mod BPB then c else bit_clear (st (BBLOCK b S)) x)"
  shows "free_blocks S (st(BBLOCK b S := d)) = (if c then insert b (free_blocks S st) else free_blocks S st - {b})"
proof -
  have "x = b" if "BBLOCK x S = BBLOCK b S" "x mod BPB = b mod BPB" for x
    using that by (metis BBLOCK_def add_right_cancel div_mult_mod_eq)
  then show ?thesis using assms by (auto simp: free_blocks_def)
qed

section \<open>\<open>balloc\<close> and \<open>bfree\<close>\<close>

lemma balloc_find_Some:
  assumes "balloc_find (st (BBLOCK (k * BPB) S)) (k * BPB) (fssize S) = Some bi" and "\<And>b. b \<in> free_blocks S st \<Longrightarrow> k * BPB \<le> b"
  shows "bi < BPB" "k * BPB + bi \<in> free_blocks S st" "Min (free_blocks S st) = k * BPB + bi"
proof -
  from assms(1) have f: "bi < min BPB (fssize S - k * BPB)" "bit_clear (st (BBLOCK (k * BPB) S)) bi"
    "\<And>x. x < bi \<Longrightarrow> \<not> bit_clear (st (BBLOCK (k * BPB) S)) x"
    by (auto simp: balloc_find_def find_Some_iff)
  show bi: "bi < BPB" using f(1) by simp
  show m: "k * BPB + bi \<in> free_blocks S st" using f(1,2) bi by (simp add: free_blocks_def)
  have "k * BPB + bi \<le> x" if x: "x \<in> free_blocks S st" for x
  proof (rule ccontr)
    assume "\<not> k * BPB + bi \<le> x"
    with assms(2) [OF x] obtain y where y: "x = k * BPB + y" "y < bi" by (metis le_iff_add nat_add_left_cancel_less not_le)
    then show False using f(3) [of y] x bi by (simp add: free_blocks_def)
  qed
  then show "Min (free_blocks S st) = k * BPB + bi" using m by (intro Min_eqI) auto
qed

lemma balloc_find_None:
  assumes "balloc_find (st (BBLOCK (k * BPB) S)) (k * BPB) (fssize S) = None" and "b \<in> free_blocks S st" and "k * BPB \<le> b"
  shows "Suc k * BPB \<le> b"
proof (rule ccontr)
  assume n: "\<not> Suc k * BPB \<le> b"
  from assms(3) obtain y where y: "b = k * BPB + y" by (metis le_iff_add)
  with n have "y < BPB" by simp
  with assms(1,2) y show False by (auto simp: balloc_find_def find_None_iff free_blocks_def)
qed

text \<open>The outcome of \<open>balloc\<close>: the lowest free block, marked used and zeroed, or 0.\<close>

definition alloc_store :: "superblock \<Rightarrow> nat \<Rightarrow> (nat \<Rightarrow> bytes) \<Rightarrow> nat \<Rightarrow> bytes" where
  "alloc_store S b st = (let c = BBLOCK b S; bi = b mod BPB in
     (st(c := (st c)(bi div 8 := st c (bi div 8) OR bitmask bi)))(b := zero_block (st b)))"

definition free_store :: "superblock \<Rightarrow> nat \<Rightarrow> (nat \<Rightarrow> bytes) \<Rightarrow> nat \<Rightarrow> bytes" where
  "free_store S b st = (let c = BBLOCK b S; bi = b mod BPB in
     st(c := (st c)(bi div 8 := st c (bi div 8) AND NOT (bitmask bi))))"

lemma bzero_tx:
  assumes "tx T {} s" "b \<notin> T" "card T \<le> 2" "room X (Suc n) s"
  shows "\<exists>t. bzero ROOTDEV b s = Ok () t \<and> tx T {} t \<and> store t = (store s)(b := zero_block (store s b)) \<and> room X n t \<and>
    logset t = insert b (logset s) \<and> others_of t = others_of s \<and> (\<forall>j c. holds s j c \<longrightarrow> holds t j c)"
proof -
  have z: "memset d 0 0 BSIZE = zero_block d" for d by (simp add: memset_run zero_block_def)
  have "room X (n + of_bool (b \<notin> logset s \<union> X)) s" by (rule room_weaken [OF assms(4)]) simp
  from tx_modify [OF assms(1,2,3) this, of "\<lambda>d. memset d 0 0 BSIZE"] show ?thesis by (simp add: bzero_def z)
qed

lemma others_fs:
  "others_of t = others_of s \<Longrightarrow> sb t = sb s" "others_of t = others_of s \<Longrightarrow> inodes t = inodes s"
  "others_of t = others_of s \<Longrightarrow> fs_st.more t = fs_st.more s" "others_of t = others_of s \<Longrightarrow> curp t = curp s"
  for s t :: "'z fs_st_scheme"
  by (cases t, cases s, simp add: others_of_def)+

definition alloc_ok :: "nat set \<Rightarrow> 'z fs_st_scheme \<Rightarrow> bool" where
  "alloc_ok T s \<longleftrightarrow> bitmap_ok (sb s) (store s) \<and> T \<inter> (bitmap_blocks (sb s) \<union> free_blocks (sb s) (store s)) = {} \<and> card T \<le> 1"

lemma balloc_from_tx:
  assumes "tx T {} s" "alloc_ok T s" "room X (Suc n) s" "bitmap_blocks (sb s) \<subseteq> X"
    and "\<And>b. b \<in> free_blocks (sb s) (store s) \<Longrightarrow> k * BPB \<le> b" and "m = (fssize (sb s) + BPB - 1) div BPB - k"
  shows "\<exists>t. balloc_from (map (\<lambda>k. k * BPB) [k..<k + m]) ROOTDEV s =
      Ok (if free_blocks (sb s) (store s) = {} then 0 else Min (free_blocks (sb s) (store s))) t \<and> tx T {} t \<and>
    (if free_blocks (sb s) (store s) = {} then store t = store s \<and> lg t = lg s
     else store t = alloc_store (sb s) (Min (free_blocks (sb s) (store s))) (store s) \<and> room X n t \<and>
       logset t = {Min (free_blocks (sb s) (store s)), BBLOCK (Min (free_blocks (sb s) (store s))) (sb s)} \<union> logset s) \<and>
    others_of t = others_of s \<and> (\<forall>j c. holds s j c \<longrightarrow> holds t j c)"
  using assms
proof (induction m arbitrary: k s)
  case 0
  have "free_blocks (sb s) (store s) = {}"
  proof (rule ccontr)
    assume "free_blocks (sb s) (store s) \<noteq> {}"
    then obtain b where b: "b \<in> free_blocks (sb s) (store s)" by blast
    have "(fssize (sb s) + BPB - 1) div BPB \<le> k" using "0.prems"(6) by simp
    then have "fssize (sb s) + BPB - 1 < Suc k * BPB"
      by (metis BPB_pos(1) le_imp_less_Suc less_mult_imp_div_less linorder_not_le div_less_iff_less_mult)
    then have "fssize (sb s) \<le> k * BPB" by simp
    with "0.prems"(5) [OF b] b show False by (simp add: free_blocks_def)
  qed
  with "0.prems" show ?case by (auto simp: ret_run)
next
  case (Suc m)
  let ?S = "sb s" let ?F = "free_blocks ?S (store s)" let ?c = "BBLOCK (k * BPB) ?S"
  have kl: "k < (fssize ?S + BPB - 1) div BPB" using Suc.prems(6) by simp
  then have "Suc k * BPB \<le> fssize ?S + BPB - 1" by (metis Suc_leI div_times_less_eq_dividend le_trans mult_le_mono1)
  then have "k * BPB < fssize ?S" unfolding mult_Suc using BPB_pos(1) by linarith
  then have cb: "?c \<in> bitmap_blocks ?S" by (auto simp: bitmap_blocks_def)
  have cT: "?c \<notin> T" "card T \<le> 2" "card T \<le> 1" using Suc.prems(2) cb by (auto simp: alloc_ok_def)
  from tx_read [OF Suc.prems(1) cT(1,2)] obtain i u where u: "bread ROOTDEV ?c s = Ok i u" "tx (insert ?c T) {} u" "holds u i ?c"
    "store u = store s" "lg u = lg s" "others_of u = others_of s" "\<forall>j c. holds s j c \<longrightarrow> holds u j c" by blast
  have d: "bdata (bufs u i) = store s ?c" using tx_data [OF u(2,3)] u(4) by simp
  have nc: "c \<noteq> ?c" if "holds s j c" for j c
    using that Suc.prems(1) cT(1) bcache.mine_view [of s j c] by (auto simp: tx_def)
  have Ti: "insert ?c T - {?c} = T" using cT(1) by auto
  have lst: "map (\<lambda>k. k * BPB) [k..<k + Suc m] = k * BPB # map (\<lambda>k. k * BPB) [Suc k..<Suc k + m]"
    by (simp add: upt_conv_Cons del: upt_Suc)
  show ?case
  proof (cases "balloc_find (store s ?c) (k * BPB) (fssize ?S)")
    case None
    from tx_release [OF u(2,3)] obtain v where v: "brelse i u = Ok () v" "tx T {} v" "store v = store s" "lg v = lg s"
      "others_of v = others_of s" "\<forall>j c. holds u j c \<longrightarrow> c \<noteq> ?c \<longrightarrow> holds v j c" using u Ti by auto
    note sv = others_fs(1) [OF v(5)]
    have "\<exists>t. balloc_from (map (\<lambda>k. k * BPB) [Suc k..<Suc k + m]) ROOTDEV v = Ok (if ?F = {} then 0 else Min ?F) t \<and> tx T {} t \<and>
      (if ?F = {} then store t = store s \<and> lg t = lg s
       else store t = alloc_store ?S (Min ?F) (store s) \<and> room X n t \<and> logset t = {Min ?F, BBLOCK (Min ?F) ?S} \<union> logset s) \<and>
      others_of t = others_of s \<and> (\<forall>j c. holds v j c \<longrightarrow> holds t j c)"
    proof -
      have p: "alloc_ok T v" "room X (Suc n) v" "bitmap_blocks (sb v) \<subseteq> X" "m = (fssize (sb v) + BPB - 1) div BPB - Suc k"
        using Suc.prems sv v(3) room_cong [OF v(4)] by (simp_all add: alloc_ok_def)
      have q: "Suc k * BPB \<le> b" if "b \<in> free_blocks (sb v) (store v)" for b
        using balloc_find_None [of "store s", OF None] Suc.prems(5) that sv v(3) by simp
      show ?thesis using Suc.IH [OF v(2) p(1,2,3) q p(4)] unfolding sv v(3) v(4) v(5) logset_cong [OF v(4)] .
    qed
    then obtain t where t: "balloc_from (map (\<lambda>k. k * BPB) [Suc k..<Suc k + m]) ROOTDEV v = Ok (if ?F = {} then 0 else Min ?F) t"
      "tx T {} t" "if ?F = {} then store t = store s \<and> lg t = lg s
       else store t = alloc_store ?S (Min ?F) (store s) \<and> room X n t \<and> logset t = {Min ?F, BBLOCK (Min ?F) ?S} \<union> logset s"
      "others_of t = others_of s" "\<forall>j c. holds v j c \<longrightarrow> holds t j c" by blast
    have "balloc_from (map (\<lambda>k. k * BPB) [k..<k + Suc m]) ROOTDEV s = Ok (if ?F = {} then 0 else Min ?F) t"
      unfolding lst using u(1) v(1) t(1) None d by (simp add: exec_simps del: upt_Suc)
    then show ?thesis using t u(7) v(6) nc by blast
  next
    case (Some bi)
    note f = balloc_find_Some [of "store s", OF Some Suc.prems(5)]
    let ?b = "k * BPB + bi"
    let ?g = "\<lambda>d. d(bi div 8 := d (bi div 8) OR bitmask bi)"
    have ne: "?F \<noteq> {}" using f(2) by blast
    have bds: "data_start ?S \<le> ?b" using Suc.prems(2) f(2) by (auto simp: alloc_ok_def bitmap_ok_def)
    have bc: "?b \<noteq> ?c" "?b \<notin> T" using bds bitmap_below [OF cb] Suc.prems(2) f(2) by (auto simp: alloc_ok_def)
    from tx_set [OF u(2,3), of ?g] obtain v where v: "set_data i ?g u = Ok () v" "tx (insert ?c T) {?c} v"
      "store v = (store s)(?c := ?g (store s ?c))" "lg v = lg s" "others_of v = others_of s" "\<forall>j c. holds v j c = holds u j c"
      using u by auto
    have rv: "room X (Suc n + of_bool (?c \<notin> logset v \<union> X)) v" "holds v i ?c" using Suc.prems(3,4) cb v(6) u(3) room_cong [OF v(4)] by auto
    from tx_log [OF v(2) rv(2,1)] obtain w where w: "log_write i v = Ok () w" "tx (insert ?c T) {} w" "store w = store v"
      "room X (Suc n) w" "logset w = insert ?c (logset s)" "others_of w = others_of s" "\<forall>j c. holds w j c = holds v j c"
      using v(5) logset_cong [OF v(4)] by auto
    have hw: "holds w i ?c" using w(7) rv(2) by simp
    from tx_release [OF w(2) hw] obtain x where x: "brelse i w = Ok () x" "tx T {} x" "store x = store v" "lg x = lg w"
      "others_of x = others_of s" "\<forall>j c. holds w j c \<longrightarrow> c \<noteq> ?c \<longrightarrow> holds x j c" using w Ti by auto
    have rx: "room X (Suc n) x" using w(4) room_cong [OF x(4)] by simp
    from bzero_tx [OF x(2) bc(2) cT(2) rx] obtain t where t: "bzero ROOTDEV ?b x = Ok () t" "tx T {} t"
      "store t = (store x)(?b := zero_block (store x ?b))" "room X n t" "logset t = insert ?b (logset x)" "others_of t = others_of x"
      "\<forall>j c. holds x j c \<longrightarrow> holds t j c" by blast
    have st: "store t = alloc_store ?S ?b (store s)"
      using t(3) x(3) v(3) bc(1) f(1) by (simp add: alloc_store_def Let_def)
    have "balloc_from (map (\<lambda>k. k * BPB) [k..<k + Suc m]) ROOTDEV s = Ok ?b t"
      unfolding lst using u(1) v(1) w(1) x(1) t(1) Some d by (simp add: exec_simps del: upt_Suc)
    moreover have "logset t = {?b, BBLOCK ?b ?S} \<union> logset s" using t(5) logset_cong [OF x(4)] w(5) f(1) by auto
    moreover have "holds t j c" if "holds s j c" for j c
      using that nc [OF that] t(7) x(6) w(7) v(6) u(7) by blast
    ultimately show ?thesis using t(2,4,6) x(5) st f(3) ne by (intro exI [of _ t]) simp
  qed
qed

lemma balloc_tx:
  assumes "tx T {} s" "alloc_ok T s" "room X (Suc n) s" "bitmap_blocks (sb s) \<subseteq> X"
  shows "\<exists>t. balloc ROOTDEV s = Ok (if free_blocks (sb s) (store s) = {} then 0 else Min (free_blocks (sb s) (store s))) t \<and> tx T {} t \<and>
    (if free_blocks (sb s) (store s) = {} then store t = store s \<and> lg t = lg s
     else store t = alloc_store (sb s) (Min (free_blocks (sb s) (store s))) (store s) \<and> room X n t \<and>
       logset t = {Min (free_blocks (sb s) (store s)), BBLOCK (Min (free_blocks (sb s) (store s))) (sb s)} \<union> logset s) \<and>
    others_of t = others_of s \<and> (\<forall>j c. holds s j c \<longrightarrow> holds t j c)"
  using balloc_from_tx [OF assms, of 0 "(fssize (sb s) + BPB - 1) div BPB"] by (simp add: balloc_def gets_run bind_def)

lemma bfree_tx:
  assumes tx: "tx T {} s" and b: "b < fssize (sb s)" "b \<notin> free_blocks (sb s) (store s)"
    and T: "BBLOCK b (sb s) \<notin> T" "card T \<le> 2" and r: "room X n s" "BBLOCK b (sb s) \<in> X"
  shows "\<exists>t. bfree ROOTDEV b s = Ok () t \<and> tx T {} t \<and> store t = free_store (sb s) b (store s) \<and> room X n t \<and>
    logset t = insert (BBLOCK b (sb s)) (logset s) \<and> others_of t = others_of s \<and> (\<forall>j c. holds s j c \<longrightarrow> holds t j c)"
proof -
  let ?c = "BBLOCK b (sb s)" let ?bi = "b mod BPB"
  let ?g = "\<lambda>d. d(?bi div 8 := d (?bi div 8) AND NOT (bitmask ?bi))"
  from tx_read [OF tx T] obtain i u where u: "bread ROOTDEV ?c s = Ok i u" "tx (insert ?c T) {} u" "holds u i ?c"
    "store u = store s" "lg u = lg s" "others_of u = others_of s" "\<forall>j c. holds s j c \<longrightarrow> holds u j c" by blast
  have d: "bdata (bufs u i) = store s ?c" using tx_data [OF u(2,3)] u(4) by simp
  from tx_set [OF u(2,3), of ?g] obtain v where v: "set_data i ?g u = Ok () v" "tx (insert ?c T) {?c} v"
    "store v = (store s)(?c := ?g (store s ?c))" "lg v = lg s" "others_of v = others_of s" "\<forall>j c. holds v j c = holds u j c" using u by auto
  have rv: "room X (n + of_bool (?c \<notin> logset v \<union> X)) v" "holds v i ?c" using r v(6) u(3) room_cong [OF v(4)] by auto
  from tx_log [OF v(2) rv(2,1)] obtain w where w: "log_write i v = Ok () w" "tx (insert ?c T) {} w" "store w = store v"
    "room X n w" "logset w = insert ?c (logset s)" "others_of w = others_of s" "\<forall>j c. holds w j c = holds v j c"
    using v(5) logset_cong [OF v(4)] by auto
  have hw: "holds w i ?c" using w(7) rv(2) by simp
  from tx_release [OF w(2) hw] obtain t where t: "brelse i w = Ok () t" "tx (insert ?c T - {?c}) {} t" "store t = store v" "lg t = lg w"
    "others_of t = others_of s" "\<forall>j c. holds w j c \<longrightarrow> c \<noteq> ?c \<longrightarrow> holds t j c" using w by auto
  have nc: "c \<noteq> ?c" if "holds s j c" for j c
    using that tx T(1) bcache.mine_view [of s j c] by (auto simp: tx_def)
  have Ti: "insert ?c T - {?c} = T" using T(1) by auto
  have "\<not> bit_clear (store s ?c) ?bi" using b by (simp add: free_blocks_def)
  then have "bfree ROOTDEV b s = Ok () t"
    using u(1) v(1) w(1) t(1) d by (simp add: bfree_def exec_simps Let_def)
  then show ?thesis using t u(7) v(3,6) w(3,4,5,7) nc Ti logset_cong [OF t(4)] room_cong [OF t(4)]
    by (intro exI [of _ t]) (simp add: free_store_def Let_def)
qed

lemma bfree_free:
  assumes tx: "tx T {} s" and b: "b \<in> free_blocks (sb s) (store s)" and T: "BBLOCK b (sb s) \<notin> T" "card T \<le> 2"
  shows "bfree ROOTDEV b s = Panic ''freeing free block''"
proof -
  let ?c = "BBLOCK b (sb s)"
  from tx_read [OF tx T] obtain i u where u: "bread ROOTDEV ?c s = Ok i u" "tx (insert ?c T) {} u" "holds u i ?c"
    "store u = store s" by blast
  have "bdata (bufs u i) = store s ?c" using tx_data [OF u(2,3)] u(4) by simp
  then show ?thesis using u(1) b by (simp add: bfree_def exec_simps Let_def free_blocks_def)
qed

lemma alloc_store_other: "x \<noteq> b \<Longrightarrow> x \<noteq> BBLOCK b S \<Longrightarrow> alloc_store S b st x = st x"
  by (simp add: alloc_store_def Let_def)

lemma free_store_other: "x \<noteq> BBLOCK b S \<Longrightarrow> free_store S b st x = st x"
  by (simp add: free_store_def Let_def)

lemma alloc_store_new: "b \<noteq> BBLOCK b S \<Longrightarrow> alloc_store S b st b = zero_block (st b)"
  by (simp add: alloc_store_def Let_def)

lemma alloc_store_free:
  assumes "b < fssize S" "b \<notin> bitmap_blocks S"
  shows "free_blocks S (alloc_store S b st) = free_blocks S st - {b}"
proof -
  let ?c = "BBLOCK b S" let ?bi = "b mod BPB"
  let ?d = "(st ?c)(?bi div 8 := st ?c (?bi div 8) OR bitmask ?bi)"
  have "bit_clear ?d x = (if x = b mod BPB then False else bit_clear (st ?c) x)" for x
    unfolding bit_clear_set by auto
  note f = free_change [where st = st, OF assms(1) this]
  have "free_blocks S (alloc_store S b st) = free_blocks S (st(?c := ?d))"
    by (rule free_cong) (use assms(2) in \<open>auto simp: alloc_store_def Let_def\<close>)
  then show ?thesis using f by simp
qed

lemma free_store_free:
  assumes "b < fssize S"
  shows "free_blocks S (free_store S b st) = insert b (free_blocks S st)"
proof -
  let ?c = "BBLOCK b S" let ?bi = "b mod BPB"
  let ?d = "(st ?c)(?bi div 8 := st ?c (?bi div 8) AND NOT (bitmask ?bi))"
  have "bit_clear ?d x = (if x = b mod BPB then True else bit_clear (st ?c) x)" for x
    unfolding bit_clear_reset by auto
  from free_change [where st = st, OF assms this] show ?thesis by (simp add: free_store_def Let_def)
qed

lemma free_blocksD:
  assumes "bitmap_ok S st" "b \<in> free_blocks S st"
  shows "b < fssize S" "b \<notin> bitmap_blocks S" "b \<noteq> BBLOCK b S" "data_start S \<le> b" "b \<noteq> 0"
proof -
  show l: "b < fssize S" using assms(2) by (simp add: free_blocks_def)
  show d: "data_start S \<le> b" using assms by (auto simp: bitmap_ok_def)
  then show n: "b \<notin> bitmap_blocks S" using bitmap_below [of b S] by auto
  then show "b \<noteq> BBLOCK b S" using l by (auto simp: bitmap_blocks_def)
  show "b \<noteq> 0" using d by (auto simp: data_start_def)
qed

text \<open>
  C27: inside a transaction the block allocator implements a set of free blocks. \<open>balloc\<close> returns the lowest free block, zeroed
  and taken out of the set, or 0 when the set is empty and then changes no block; \<open>bfree\<close> of a used block puts it back, and of a
  free one panics. Apart from the block itself and the bitmap no block changes, and every changed block is logged.
\<close>

theorem block_allocator:
  fixes s :: "'z fs_st_scheme"
  defines "F \<equiv> free_blocks (sb s) (store s)"
  assumes tx: "tx {} {} s" and ok: "bitmap_ok (sb s) (store s)" and rm: "room (bitmap_blocks (sb s)) 1 s"
  shows "(F = {} \<longrightarrow> (\<exists>t. balloc ROOTDEV s = Ok 0 t \<and> tx {} {} t \<and> store t = store s)) \<and>
    (F \<noteq> {} \<longrightarrow> (\<exists>t. balloc ROOTDEV s = Ok (Min F) t \<and> tx {} {} t \<and> free_blocks (sb s) (store t) = F - {Min F} \<and>
      bitmap_ok (sb s) (store t) \<and> (\<forall>i < BSIZE. store t (Min F) i = 0) \<and>
      (\<forall>b. b \<noteq> Min F \<longrightarrow> b \<notin> bitmap_blocks (sb s) \<longrightarrow> store t b = store s b) \<and> (\<forall>b. b \<in> logset t \<or> store t b = store s b))) \<and>
    (\<forall>b < fssize (sb s). if b \<in> F then bfree ROOTDEV b s = Panic ''freeing free block''
      else \<exists>t. bfree ROOTDEV b s = Ok () t \<and> tx {} {} t \<and> free_blocks (sb s) (store t) = insert b F \<and>
        (\<forall>x. x \<notin> bitmap_blocks (sb s) \<longrightarrow> store t x = store s x) \<and> (\<forall>x. x \<in> logset t \<or> store t x = store s x))"
proof (intro conjI impI allI)
  have al: "alloc_ok {} s" using ok by (simp add: alloc_ok_def)
  have rm': "room (bitmap_blocks (sb s)) (Suc 0) s" using rm by simp
  note ba = balloc_tx [OF tx al rm' subset_refl, folded F_def]
  show "\<exists>t. balloc ROOTDEV s = Ok 0 t \<and> tx {} {} t \<and> store t = store s" if "F = {}" using ba that by auto
  show "\<exists>t. balloc ROOTDEV s = Ok (Min F) t \<and> tx {} {} t \<and> free_blocks (sb s) (store t) = F - {Min F} \<and>
      bitmap_ok (sb s) (store t) \<and> (\<forall>i < BSIZE. store t (Min F) i = 0) \<and>
      (\<forall>b. b \<noteq> Min F \<longrightarrow> b \<notin> bitmap_blocks (sb s) \<longrightarrow> store t b = store s b) \<and> (\<forall>b. b \<in> logset t \<or> store t b = store s b)" if ne: "F \<noteq> {}"
  proof -
    have "Min F \<in> free_blocks (sb s) (store s)" using Min_in [of F] ne by (simp add: F_def)
    note m = free_blocksD [OF ok this]
    have bb: "BBLOCK (Min F) (sb s) \<in> bitmap_blocks (sb s)" using m(1) by (auto simp: bitmap_blocks_def)
    from ba ne obtain t where t: "balloc ROOTDEV s = Ok (Min F) t" "tx {} {} t" "store t = alloc_store (sb s) (Min F) (store s)"
      "logset t = {Min F, BBLOCK (Min F) (sb s)} \<union> logset s" by auto
    have f: "free_blocks (sb s) (store t) = F - {Min F}" using alloc_store_free [OF m(1,2)] t(3) by (simp add: F_def)
    moreover have "bitmap_ok (sb s) (store t)" using ok f by (auto simp: bitmap_ok_def F_def)
    moreover have "\<forall>i < BSIZE. store t (Min F) i = 0" using t(3) alloc_store_new [OF m(3)] by (simp add: zero_block_def)
    moreover have "\<forall>b. b \<noteq> Min F \<longrightarrow> b \<notin> bitmap_blocks (sb s) \<longrightarrow> store t b = store s b"
      using t(3) bb alloc_store_other by metis
    moreover have "\<forall>b. b \<in> logset t \<or> store t b = store s b" using t(3,4) alloc_store_other by (metis Un_iff insert_iff)
    ultimately show ?thesis using t(1,2) by blast
  qed
  show "if b \<in> F then bfree ROOTDEV b s = Panic ''freeing free block''
      else \<exists>t. bfree ROOTDEV b s = Ok () t \<and> tx {} {} t \<and> free_blocks (sb s) (store t) = insert b F \<and>
        (\<forall>x. x \<notin> bitmap_blocks (sb s) \<longrightarrow> store t x = store s x) \<and> (\<forall>x. x \<in> logset t \<or> store t x = store s x)"
    if b: "b < fssize (sb s)" for b
  proof (cases "b \<in> F")
    case True
    then show ?thesis using bfree_free [OF tx] by (simp add: F_def)
  next
    case False
    have bb: "BBLOCK b (sb s) \<in> bitmap_blocks (sb s)" using b by (auto simp: bitmap_blocks_def)
    from bfree_tx [OF tx b] False rm bb obtain t where t: "bfree ROOTDEV b s = Ok () t" "tx {} {} t"
      "store t = free_store (sb s) b (store s)" "logset t = insert (BBLOCK b (sb s)) (logset s)" by (fastforce simp: F_def)
    have "\<forall>x. x \<notin> bitmap_blocks (sb s) \<longrightarrow> store t x = store s x" using t(3) bb free_store_other by metis
    moreover have "\<forall>x. x \<in> logset t \<or> store t x = store s x" using t(3,4) free_store_other by (metis insert_iff)
    ultimately show ?thesis using False t(1,2,3) free_store_free [OF b] by (auto simp: F_def)
  qed
qed

text \<open>A transaction just begun on a disk \<open>D\<close> with inode table \<open>I\<close>, and a disk whose 46 metadata blocks are in use.\<close>

definition fs_at :: "(nat \<Rightarrow> bytes) \<Rightarrow> (nat \<Rightarrow> inode) \<Rightarrow> 'z \<Rightarrow> 'z fs_st_scheme" where
  "fs_at D I m = bio_start D \<lparr>lg = (log0 30)\<lparr>outstanding := 1\<rparr>, sb = sb0, inodes = I, \<dots> = m\<rparr>"

definition disk0 :: "nat \<Rightarrow> bytes" where
  "disk0 b = (\<lambda>i. if b = 45 \<and> i < 5 then mask 8 else if b = 45 \<and> i = 5 then mask 6 else 0)"

lemma fs_at_tx: "tx {} {} (fs_at D I m)" "store (fs_at D I m) = D" "logset (fs_at D I m) = {}" "sb (fs_at D I m) = sb0"
  "inodes (fs_at D I m) = I"
proof -
  have l: "lg (fs_at D I m) = (log0 30)\<lparr>outstanding := 1\<rparr>" "sb (fs_at D I m) = sb0" "inodes (fs_at D I m) = I"
    by (simp_all add: fs_at_def bio_start_def)
  show ls: "logset (fs_at D I m) = {}" by (simp add: logset_def l log0_def)
  show st: "store (fs_at D I m) = D" by (simp add: store_def fs_at_def bio_start_ok)
  show "tx {} {} (fs_at D I m)"
    using st by (simp add: tx_def ls l log0_def NBUF_def) (simp add: fs_at_def bio_start_ok)
qed (simp_all add: fs_at_def bio_start_def)

lemma bitmap_blocks_sb0: "bitmap_blocks sb0 = {45}" "data_start sb0 = 46"
proof -
  have "bitmap_blocks sb0 = (\<lambda>b. b div 8192 + 45) ` {..<2000}"
    by (simp add: bitmap_blocks_def BBLOCK_def sb0_def BPB_def BSIZE_def)
  also have "\<dots> = {45}" by (auto simp: image_def intro: exI [of _ 0])
  finally show "bitmap_blocks sb0 = {45}" .
  show "data_start sb0 = 46" by (simp add: data_start_def sb0_def BPB_def BSIZE_def)
qed

lemma room_fs_at: "finite X \<Longrightarrow> card X + n \<le> 27 \<Longrightarrow> room X n (fs_at D I m)"
  using fs_at_tx(3) [of D I m] by (simp add: room_def NBUF_def) (simp add: fs_at_def bio_start_def log0_def)

lemma disk0_free:
  assumes "D 45 = disk0 45"
  shows "free_blocks sb0 D = {46..<2000}"
proof -
  have c: "bit_clear (disk0 45) b \<longleftrightarrow> 46 \<le> b" for b
  proof -
    have e: "b = 8 * (b div 8) + b mod 8" "b mod 8 < 8" by simp_all
    consider "b div 8 < 5" | "b div 8 = 5" | "5 < b div 8" by linarith
    then show ?thesis
    proof cases
      case 1
      then have "\<not> 46 \<le> b" using e by linarith
      then show ?thesis using 1 e(2) by (simp add: bit_clear_bit disk0_def bit_mask_iff)
    next
      case 2
      then have "46 \<le> b \<longleftrightarrow> 6 \<le> b mod 8" using e by linarith
      then show ?thesis using 2 e(2) by (simp add: bit_clear_bit disk0_def bit_mask_iff not_less)
    next
      case 3
      then have "46 \<le> b" using e by linarith
      then show ?thesis using 3 by (simp add: bit_clear_bit disk0_def)
    qed
  qed
  have "BBLOCK b sb0 = 45 \<and> b mod BPB = b" if "b < 2000" for b
    using that by (simp add: BBLOCK_def sb0_def BPB_def BSIZE_def)
  moreover have "fssize sb0 = 2000" by (simp add: sb0_def)
  ultimately have "b \<in> free_blocks sb0 D \<longleftrightarrow> b < 2000 \<and> 46 \<le> b" for b
    using assms c [of b] by (auto simp only: free_blocks_def mem_Collect_eq)
  then show ?thesis unfolding set_eq_iff atLeastLessThan_iff by (simp only: conj_commute)  simp
qed

theorem block_allocator_witness:
  "\<exists>t. balloc ROOTDEV (fs_at disk0 (\<lambda>_. inode0) ()) = Ok 46 t \<and> free_blocks sb0 (store t) = {47..<2000} \<and> store t 46 1023 = 0"
proof -
  define s :: fs_st where "s = fs_at disk0 (\<lambda>_. inode0) ()"
  note a = fs_at_tx [of disk0 "\<lambda>_. inode0" "()", folded s_def]
  have f: "free_blocks (sb s) (store s) = {46..<2000}" using disk0_free [of disk0] a by simp
  have b: "bitmap_ok (sb s) (store s)" using f a bitmap_blocks_sb0 by (simp add: bitmap_ok_def)
  have r: "room (bitmap_blocks (sb s)) 1 s" unfolding s_def by (rule room_fs_at) (simp_all add: bitmap_blocks_sb0 fs_at_tx)
  have "Min {46..<2000 :: nat} = 46" by (intro Min_eqI) auto
  then have m: "Min (free_blocks (sb s) (store s)) = 46" using f by simp
  have d: "{46..<2000} - {46} = {47..<2000 :: nat}" by auto
  have ne: "free_blocks (sb s) (store s) \<noteq> {}" unfolding f by simp
  from block_allocator [OF a(1) b r] ne obtain t where t: "balloc ROOTDEV s = Ok (Min (free_blocks (sb s) (store s))) t"
      "free_blocks (sb s) (store t) = free_blocks (sb s) (store s) - {Min (free_blocks (sb s) (store s))}"
      "\<forall>i < BSIZE. store t (Min (free_blocks (sb s) (store s))) i = 0" by blast
  have "store t 46 1023 = 0" using t(3) m by (simp add: BSIZE_def)
  moreover have "free_blocks sb0 (store t) = {47..<2000}" using t(2) f m d a(4) by simp
  moreover have "balloc ROOTDEV (fs_at disk0 (\<lambda>_. inode0) ()) = Ok 46 t" using t(1) m by (simp add: s_def)
  ultimately show ?thesis by blast
qed

end
