(* ===== verification/Uart.thy ===== *)
theory Uart
  imports Umem Ring
begin

text \<open>
  The UART driver (\<open>uart.c\<close>) and console output. The device is what the driver sees of it: the
  successive answers of the line status register to "may I send?", the bytes waiting to be received, and the
  register writes made so far, the transmitted bytes among them. The transmit buffer is a ring with
  64-bit free-running counters.
\<close>

section \<open>The device and the driver state\<close>

definition THR :: nat where "THR = 0"
definition IER :: nat where "IER = 1"
definition FCR :: nat where "FCR = 2"
definition LCR :: nat where "LCR = 3"
definition UART_TX_BUF_SIZE :: nat where "UART_TX_BUF_SIZE = 32"

record uart_dev =
  lsr_idle :: "bool list"
  rx_bytes :: "byte list"
  reg_log :: "(nat \<times> byte) list"
  uart_tx_buf :: "nat \<Rightarrow> byte"
  uart_tx_w :: u64
  uart_tx_r :: u64

record console =
  cbuf :: "nat \<Rightarrow> byte"
  cons_r :: u32
  cons_w :: u32
  cons_e :: u32

record dev_st = fs_st +
  uart :: uart_dev
  cons :: console
  pr_locking :: bool
  panicked :: bool

definition upd_uart :: "(uart_dev \<Rightarrow> uart_dev) \<Rightarrow> (unit, 'z dev_st_scheme) kern" where
  "upd_uart f = upd (\<lambda>s. s\<lparr>uart := f (uart s)\<rparr>)"

definition getu :: "(uart_dev \<Rightarrow> 'a) \<Rightarrow> ('a, 'z dev_st_scheme) kern" where
  "getu f = gets (\<lambda>s. f (uart s))"

definition write_reg :: "nat \<Rightarrow> byte \<Rightarrow> (unit, 'z dev_st_scheme) kern" where
  "write_reg r v = upd_uart (\<lambda>u. u\<lparr>reg_log := reg_log u @ [(r, v)]\<rparr>)"

text \<open>Reading \<open>LSR_TX_IDLE\<close>: the device's next answer; when it has no more answers it stays busy.\<close>

definition read_tx_idle :: "(bool, 'z dev_st_scheme) kern" where
  "read_tx_idle = bind (getu lsr_idle) (\<lambda>a. case a of [] \<Rightarrow> ret False
     | b # bs \<Rightarrow> andthen (upd_uart (\<lambda>u. u\<lparr>lsr_idle := bs\<rparr>)) (ret b))"

section \<open>The operations\<close>

definition uartinit :: "(unit, 'z dev_st_scheme) kern" where
  "uartinit =
     andthen (write_reg IER 0) (
     andthen (write_reg LCR 0x80) (
     andthen (write_reg 0 3) (
     andthen (write_reg 1 0) (
     andthen (write_reg LCR 3) (
     andthen (write_reg FCR (1 OR 6)) (
     write_reg IER (2 OR 1)))))))"

text \<open>
  The loop of \<open>uartstart\<close>; the number of buffered bytes bounds its iterations. The read of the \<open>ISR\<close> register when the buffer
  is empty acknowledges the interrupt at the device; its value is not used and no modelled register changes.
\<close>

fun uartstart_loop :: "nat \<Rightarrow> (unit, 'z dev_st_scheme) kern" where
  "uartstart_loop k =
     bind (getu id) (\<lambda>u.
     if uart_tx_w u = uart_tx_r u then ret () else
     case k of 0 \<Rightarrow> diverge | Suc k' \<Rightarrow>
     bind read_tx_idle (\<lambda>idle.
     if \<not> idle then ret () else
     andthen (upd_uart (\<lambda>u. u\<lparr>uart_tx_r := uart_tx_r u + 1\<rparr>)) (
     andthen (wakeup Chan_uart_tx_r) (
     andthen (write_reg THR (uart_tx_buf u (unat (uart_tx_r u) mod UART_TX_BUF_SIZE))) (
     uartstart_loop k')))))"

declare uartstart_loop.simps [simp del]

definition uartstart :: "(unit, 'z dev_st_scheme) kern" where
  "uartstart = bind (getu (\<lambda>u. unat (uart_tx_w u - uart_tx_r u))) uartstart_loop"

definition uartputc_loop :: "byte \<Rightarrow> (unit, 'z dev_st_scheme) kern" where
  "uartputc_loop c =
     bind (getu id) (\<lambda>u.
     if uart_tx_w u = uart_tx_r u + word_of_nat UART_TX_BUF_SIZE then sleep_on Chan_uart_tx_r Uart_tx_lock else
     andthen (upd_uart (\<lambda>u. u\<lparr>uart_tx_buf := (uart_tx_buf u)(unat (uart_tx_w u) mod UART_TX_BUF_SIZE := c)\<rparr>)) (
     andthen (upd_uart (\<lambda>u. u\<lparr>uart_tx_w := uart_tx_w u + 1\<rparr>)) (
     andthen uartstart (
     k_release Uart_tx_lock))))"

definition uartputc :: "byte \<Rightarrow> (unit, 'z dev_st_scheme) kern" where
  "uartputc c =
     andthen (k_acquire Uart_tx_lock) (
     bind (gets panicked) (\<lambda>p.
     if p then diverge else uartputc_loop c))"

text \<open>\<open>uartputc_sync\<close> polls until the device is ready; \<open>push_off\<close> and \<open>pop_off\<close> cancel.\<close>

definition uartputc_sync :: "byte \<Rightarrow> (unit, 'z dev_st_scheme) kern" where
  "uartputc_sync c =
     bind (gets panicked) (\<lambda>p.
     if p then diverge else
     bind (getu (\<lambda>u. dropWhile Not (lsr_idle u))) (\<lambda>a.
     case a of [] \<Rightarrow> diverge | _ # bs \<Rightarrow>
     andthen (upd_uart (\<lambda>u. u\<lparr>lsr_idle := bs\<rparr>)) (
     write_reg THR c)))"

definition uartgetc :: "(byte option, 'z dev_st_scheme) kern" where
  "uartgetc = bind (getu rx_bytes) (\<lambda>a. case a of [] \<Rightarrow> ret None
     | c # cs \<Rightarrow> andthen (upd_uart (\<lambda>u. u\<lparr>rx_bytes := cs\<rparr>)) (ret (Some c)))"

text \<open>\<open>None\<close> is the character \<open>BACKSPACE\<close> (0x100), which is no byte.\<close>

definition consputc :: "byte option \<Rightarrow> (unit, 'z dev_st_scheme) kern" where
  "consputc co = (case co of
     None \<Rightarrow> andthen (uartputc_sync 8) (andthen (uartputc_sync 0x20) (uartputc_sync 8))
   | Some c \<Rightarrow> uartputc_sync c)"

section \<open>A concrete state\<close>

definition uart0 :: uart_dev where
  "uart0 = \<lparr>lsr_idle = [], rx_bytes = [], reg_log = [], uart_tx_buf = (\<lambda>_. 0), uart_tx_w = 0, uart_tx_r = 0\<rparr>"

definition cons0 :: console where
  "cons0 = \<lparr>cbuf = (\<lambda>_. 0), cons_r = 0, cons_w = 0, cons_e = 0\<rparr>"

definition dev_start :: "'z \<Rightarrow> 'z dev_st_scheme" where
  "dev_start m = fs_start \<lparr>uart = uart0, cons = cons0, pr_locking = True, panicked = False, \<dots> = m\<rparr>"

lemma dev_start_ok: "quiet (dev_start m)" "curp (dev_start m) = Some 0" "procs (dev_start m) 0 = run_proc"
  "user_ok (dev_start m) 0x80030000" "uart (dev_start m) = uart0" "cons (dev_start m) = cons0" "\<not> panicked (dev_start m)"
  by (simp_all add: dev_start_def fs_start_ok) (simp_all add: fs_start_def bio_start_def)

section \<open>The transmit buffer is a queue in front of the device\<close>

interpretation uart_ring: ring_buffer UART_TX_BUF_SIZE "TYPE(64)"
  by unfold_locales (simp_all add: UART_TX_BUF_SIZE_def)

definition sent :: "uart_dev \<Rightarrow> byte list" where
  "sent u = map snd (filter (\<lambda>(r, _). r = THR) (reg_log u))"

definition queued :: "uart_dev \<Rightarrow> byte list" where
  "queued u = uart_ring.items (uart_tx_buf u) (uart_tx_r u) (uart_tx_w u)"

definition uart_ok :: "uart_dev \<Rightarrow> bool" where
  "uart_ok u \<longleftrightarrow> length (queued u) \<le> UART_TX_BUF_SIZE"

text \<open>How many bytes the device accepts before it first answers that it is busy.\<close>

definition accepts :: "uart_dev \<Rightarrow> nat" where
  "accepts u = length (takeWhile id (lsr_idle u))"

definition send_one :: "uart_dev \<Rightarrow> uart_dev" where
  "send_one u = u\<lparr>lsr_idle := tl (lsr_idle u), uart_tx_r := uart_tx_r u + 1,
     reg_log := reg_log u @ [(THR, uart_tx_buf u (unat (uart_tx_r u) mod UART_TX_BUF_SIZE))]\<rparr>"

lemma send_one_queue:
  assumes "queued u \<noteq> []"
  shows "sent (send_one u) = sent u @ [hd (queued u)]" "queued (send_one u) = tl (queued u)"
proof -
  have "uart_tx_r u \<noteq> uart_tx_w u" using assms by (auto simp: queued_def)
  then have q: "queued u = uart_tx_buf u (unat (uart_tx_r u) mod UART_TX_BUF_SIZE) # queued (send_one u)"
    using uart_ring.items_pop [of "uart_tx_r u" "uart_tx_w u" "uart_tx_buf u"] by (simp add: queued_def send_one_def)
  then show "queued (send_one u) = tl (queued u)" by (metis list.sel(3))
  show "sent (send_one u) = sent u @ [hd (queued u)]" by (subst q) (simp add: sent_def send_one_def)
qed

lemma queued_empty: "uart_tx_w u = uart_tx_r u \<longleftrightarrow> queued u = []"
  by (auto simp: queued_def uart_ring.items_Nil_iff)

definition uart_only :: "'z dev_st_scheme \<Rightarrow> 'z dev_st_scheme \<Rightarrow> bool" where
  "uart_only s t \<longleftrightarrow> (\<exists>u ps. t = s\<lparr>uart := u, procs := ps\<rparr>)"

lemma uart_only_fields:
  assumes "uart_only s t"
  shows "held t = held s" "depth t = depth s" "curp t = curp s" "mem t = mem s" "cons t = cons s" "panicked t = panicked s"
    "dev_st.more t = dev_st.more s"
  using assms by (auto simp: uart_only_def)

lemma uart_only_refl: "uart_only s s"
  unfolding uart_only_def by (intro exI [of _ "uart s"] exI [of _ "procs s"]) simp

lemma uart_only_step: "uart_only (s\<lparr>uart := u, procs := ps\<rparr>) t \<Longrightarrow> uart_only s t"
  by (auto simp: uart_only_def)

lemma read_tx_idle_run [exec_simps]:
  "lsr_idle (uart s) = [] \<Longrightarrow> read_tx_idle s = Ok False s"
  "lsr_idle (uart s) = b # bs \<Longrightarrow> read_tx_idle s = Ok b (s\<lparr>uart := (uart s)\<lparr>lsr_idle := bs\<rparr>\<rparr>)"
  by (simp_all add: read_tx_idle_def exec_simps getu_def upd_uart_def)

lemma uartstart_loop_run:
  assumes "plocks_free s"
  shows "\<exists>t. uartstart_loop (length (queued (uart s))) s = Ok () t \<and> uart_only s t
    \<and> sent (uart t) = sent (uart s) @ take (accepts (uart s)) (queued (uart s))
    \<and> queued (uart t) = drop (accepts (uart s)) (queued (uart s))
    \<and> uart_tx_w (uart t) = uart_tx_w (uart s) \<and> rx_bytes (uart t) = rx_bytes (uart s)
    \<and> (queued (uart s) \<noteq> [] \<and> accepts (uart s) \<noteq> 0 \<or> no_sleeper Chan_uart_tx_r s \<longrightarrow> no_sleeper Chan_uart_tx_r t)"
  using assms
proof (induction "length (queued (uart s))" arbitrary: s)
  case 0
  then show ?case
    by (intro exI [of _ s]) (subst uartstart_loop.simps, simp add: exec_simps getu_def queued_empty uart_only_refl)
next
  case (Suc n)
  let ?u = "uart s"
  have ne: "queued ?u \<noteq> []" using Suc.hyps(2) by auto
  then have rw: "uart_tx_w ?u \<noteq> uart_tx_r ?u" by (simp add: queued_empty)
  consider (busy) "lsr_idle ?u = []" | (no) bs where "lsr_idle ?u = False # bs" | (yes) bs where "lsr_idle ?u = True # bs"
    by (cases "lsr_idle ?u") auto
  then show ?case
  proof cases
    case busy
    then have "uartstart_loop (Suc n) s = Ok () s"
      using rw by (subst uartstart_loop.simps) (simp add: exec_simps getu_def)
    then show ?thesis unfolding Suc.hyps(2) [symmetric] using busy by (intro exI [of _ s]) (simp add: accepts_def uart_only_refl)
  next
    case (no bs)
    let ?t = "s\<lparr>uart := ?u\<lparr>lsr_idle := bs\<rparr>\<rparr>"
    have "uart_only s ?t" unfolding uart_only_def by (intro exI [of _ "?u\<lparr>lsr_idle := bs\<rparr>"] exI [of _ "procs s"]) simp
    moreover have "uartstart_loop (Suc n) s = Ok () ?t"
      using rw no by (subst uartstart_loop.simps) (simp add: exec_simps getu_def)
    ultimately show ?thesis unfolding Suc.hyps(2) [symmetric] using no
      by (intro exI [of _ ?t]) (simp add: accepts_def sent_def queued_def no_sleeper_def)
  next
    case (yes bs)
    let ?r = "?u\<lparr>lsr_idle := bs, uart_tx_r := uart_tx_r ?u + 1\<rparr>"
    let ?w = "wake_upto NPROC Chan_uart_tx_r (s\<lparr>uart := ?r\<rparr>)"
    let ?s = "?w\<lparr>uart := send_one ?u\<rparr>"
    have pl: "plocks_free (s\<lparr>uart := ?r\<rparr>)" "plocks_free ?s" using Suc.prems by (simp_all add: plocks_free_def)
    have ws: "uart ?w = ?r" by (simp add: wake_upto_def)
    have ps: "?s = s\<lparr>uart := send_one ?u, procs := procs ?w\<rparr>" by (simp add: wake_upto_def)
    note q = send_one_queue [OF ne]
    have n: "n = length (queued (uart ?s))" using Suc.hyps(2) q(2) by simp
    from Suc.hyps(1) [OF n pl(2)] obtain t where t: "uartstart_loop n ?s = Ok () t" "uart_only ?s t"
      "sent (uart t) = sent (send_one ?u) @ take (accepts (send_one ?u)) (queued (send_one ?u))"
      "queued (uart t) = drop (accepts (send_one ?u)) (queued (send_one ?u))"
      "uart_tx_w (uart t) = uart_tx_w (send_one ?u)" "rx_bytes (uart t) = rx_bytes (send_one ?u)"
      "no_sleeper Chan_uart_tx_r ?s \<longrightarrow> no_sleeper Chan_uart_tx_r t"
      using n by auto
    have a: "accepts ?u = Suc (accepts (send_one ?u))" using yes by (simp add: accepts_def send_one_def)
    have run: "uartstart_loop (Suc n) s = Ok () t"
      using yes rw wakeup_run [OF pl(1), of Chan_uart_tx_r] t(1) ws
      by (subst uartstart_loop.simps) (simp add: exec_simps getu_def upd_uart_def write_reg_def send_one_def)
    have o: "uart_only s t" by (rule uart_only_step) (use t(2) ps in simp)
    have "no_sleeper Chan_uart_tx_r t" using t(7) wake_no_sleeper [of Chan_uart_tx_r "s\<lparr>uart := ?r\<rparr>"] by (simp add: no_sleeper_def)
    moreover obtain c cs where "queued ?u = c # cs" using ne by (cases "queued ?u") auto
    ultimately show ?thesis
      unfolding Suc.hyps(2) [symmetric] using run o t(3-6) a q by (intro exI [of _ t]) (simp add: send_one_def [of ?u])
  qed
qed

definition put_tx :: "byte \<Rightarrow> uart_dev \<Rightarrow> uart_dev" where
  "put_tx c u = u\<lparr>uart_tx_buf := (uart_tx_buf u)(unat (uart_tx_w u) mod UART_TX_BUF_SIZE := c), uart_tx_w := uart_tx_w u + 1\<rparr>"

lemma put_tx_queue: "length (queued u) < UART_TX_BUF_SIZE \<Longrightarrow> queued (put_tx c u) = queued u @ [c]"
  by (simp add: queued_def put_tx_def uart_ring.items_push)

lemma tx_full_iff:
  assumes "uart_ok u"
  shows "uart_tx_w u = uart_tx_r u + word_of_nat UART_TX_BUF_SIZE \<longleftrightarrow> length (queued u) = UART_TX_BUF_SIZE"
proof -
  have "uart_tx_w u = uart_tx_r u + word_of_nat UART_TX_BUF_SIZE \<longleftrightarrow> uart_tx_w u - uart_tx_r u = word_of_nat UART_TX_BUF_SIZE"
    by (auto simp: algebra_simps)
  also have "\<dots> \<longleftrightarrow> unat (uart_tx_w u - uart_tx_r u) = UART_TX_BUF_SIZE"
    by (simp add: word_unat_eq_iff unat_of_nat UART_TX_BUF_SIZE_def)
  finally show ?thesis by (simp add: queued_def)
qed

lemma uartstart_run:
  assumes "plocks_free s"
  shows "\<exists>t. uartstart s = Ok () t \<and> uart_only s t
    \<and> sent (uart t) = sent (uart s) @ take (accepts (uart s)) (queued (uart s))
    \<and> queued (uart t) = drop (accepts (uart s)) (queued (uart s))
    \<and> (queued (uart s) \<noteq> [] \<and> accepts (uart s) \<noteq> 0 \<or> no_sleeper Chan_uart_tx_r s \<longrightarrow> no_sleeper Chan_uart_tx_r t)"
proof -
  have "unat (uart_tx_w (uart s) - uart_tx_r (uart s)) = length (queued (uart s))" by (simp add: queued_def)
  then show ?thesis using uartstart_loop_run [OF assms] by (auto simp: uartstart_def getu_def exec_simps)
qed

section \<open>Properties\<close>

text \<open>
  C25: the transmit buffer stays well formed (at most 32 bytes between the two 64-bit counters, across their wrap-around) and output is
  neither lost nor reordered. When there is room, \<open>uartputc\<close> adds the byte behind the bytes already waiting and hands the device as
  many bytes, oldest first, as it accepts; a byte that was sent makes the waiting writers runnable. When the buffer is full it changes nothing
  of the buffer and sleeps with the transmit lock free.
\<close>

theorem uart_tx_well_formed:
  assumes "quiet s" and "curp s = Some me" and "\<not> panicked s" and "uart_ok (uart s)"
  shows "if length (queued (uart s)) < UART_TX_BUF_SIZE
    then \<exists>t. uartputc c s = Ok () t \<and> quiet t \<and> uart_ok (uart t)
        \<and> sent (uart t) = sent (uart s) @ take (accepts (uart s)) (queued (uart s) @ [c])
        \<and> queued (uart t) = drop (accepts (uart s)) (queued (uart s) @ [c])
        \<and> (accepts (uart s) \<noteq> 0 \<longrightarrow> no_sleeper Chan_uart_tx_r t)
        \<and> cons t = cons s \<and> mem t = mem s \<and> dev_st.more t = dev_st.more s
    else \<exists>t. uartputc c s = Switch t \<and> uart t = uart s \<and> held t = (\<lambda>l. l = Proc_lock me)
        \<and> state (procs t me) = SLEEPING \<and> chan (procs t me) = Chan_uart_tx_r"
proof (cases "length (queued (uart s)) < UART_TX_BUF_SIZE")
  case True
  let ?s = "s\<lparr>held := (held s)(Uart_tx_lock := True), depth := 1, uart := put_tx c (uart s)\<rparr>"
  have nf: "uart_tx_w (uart s) \<noteq> uart_tx_r (uart s) + word_of_nat UART_TX_BUF_SIZE" using True tx_full_iff [OF assms(4)] by simp
  have pl: "plocks_free ?s" using assms(1) by (simp add: plocks_free_def)
  have q: "queued (put_tx c (uart s)) = queued (uart s) @ [c]" by (rule put_tx_queue) (rule True)
  have a: "accepts (put_tx c (uart s)) = accepts (uart s)" "sent (put_tx c (uart s)) = sent (uart s)"
    by (simp_all add: accepts_def sent_def put_tx_def)
  from uartstart_run [OF pl] obtain t where t: "uartstart ?s = Ok () t" "uart_only ?s t"
    "sent (uart t) = sent (uart s) @ take (accepts (uart s)) (queued (uart s) @ [c])"
    "queued (uart t) = drop (accepts (uart s)) (queued (uart s) @ [c])"
    "accepts (uart s) \<noteq> 0 \<longrightarrow> no_sleeper Chan_uart_tx_r t" using q a by auto
  note f = uart_only_fields [OF t(2)]
  let ?t = "t\<lparr>held := (held t)(Uart_tx_lock := False), depth := 0\<rparr>"
  have "uartputc c s = Ok () ?t"
    using assms(1,3) nf t(1) f(1,2) by (simp add: uartputc_def uartputc_loop_def exec_simps getu_def upd_uart_def put_tx_def)
  moreover have "quiet ?t" using f(1,3) assms(2) quiet_held [OF assms(1)] by (simp add: quiet_def)
  moreover have "uart_ok (uart ?t)" using t(4) True by (simp add: uart_ok_def)
  moreover have "no_sleeper Chan_uart_tx_r ?t = no_sleeper Chan_uart_tx_r t" by (simp add: no_sleeper_def)
  ultimately show ?thesis unfolding if_P [OF True] using t(3-5) f(4,5,7) by (intro exI [of _ ?t]) simp
next
  case False
  then have nf: "uart_tx_w (uart s) = uart_tx_r (uart s) + word_of_nat UART_TX_BUF_SIZE"
    using tx_full_iff [OF assms(4)] assms(4) by (simp add: uart_ok_def)
  let ?t = "s\<lparr>held := (held s)(Uart_tx_lock := True, Proc_lock me := True, Uart_tx_lock := False), depth := 1,
     procs := (procs s)(me := (procs s me)\<lparr>chan := Chan_uart_tx_r, state := SLEEPING\<rparr>)\<rparr>"
  have "uartputc c s = Switch ?t"
    using assms(1-3) nf by (simp add: uartputc_def uartputc_loop_def exec_simps getu_def)
  moreover have "held ?t = (\<lambda>l. l = Proc_lock me)" by (rule ext) (simp add: quiet_held [OF assms(1)])
  ultimately show ?thesis unfolding if_not_P [OF False] by (intro exI [of _ ?t]) simp
qed

definition uart_demo :: dev_st where
  "uart_demo = (dev_start ())\<lparr>uart := uart0\<lparr>lsr_idle := [True, True], uart_tx_buf := (\<lambda>_. 0x61), uart_tx_r := -1, uart_tx_w := 1\<rparr>\<rparr>"

theorem uart_tx_well_formed_witness:
  "\<exists>t. uartputc 0x62 uart_demo = Ok () t \<and> sent (uart t) = [0x61, 0x61] \<and> queued (uart t) = [0x62]"
proof -
  have q: "queued (uart uart_demo) = [0x61, 0x61]"
    by (simp add: uart_demo_def uart0_def queued_def uart_ring.items_def upt_rec)
  have "accepts (uart uart_demo) = 2" "sent (uart uart_demo) = []" by (simp_all add: uart_demo_def uart0_def accepts_def sent_def)
  moreover have "quiet uart_demo" "curp uart_demo = Some 0" "\<not> panicked uart_demo"
    using dev_start_ok [of "()"] by (simp_all add: uart_demo_def quiet_def)
  ultimately show ?thesis
    using uart_tx_well_formed [of uart_demo 0 "0x62"] q by (auto simp: uart_ok_def UART_TX_BUF_SIZE_def)
qed

end
