(* ===== verification/Kprintf.thy ===== *)
theory Kprintf
  imports Uart
begin

text \<open>
  The kernel's \<open>printf.c\<close>. Formatting is a function from the format and the arguments to the characters
  printed; printing sends them to the console one by one. Numbers are printed from a buffer of
  digits in reverse, as in the code; a store past the 16 characters of the buffer has no result.
\<close>

section \<open>Numbers\<close>

definition digits :: string where "digits = ''0123456789abcdef''"

text \<open>
  \<open>buf[i++] = c\<close>, where \<open>buf\<close> is the list of its first \<open>i\<close> characters. \<open>None\<close>: the store is outside \<open>char buf[16]\<close>.
\<close>

definition buf_put :: "string \<Rightarrow> char \<Rightarrow> string option" where
  "buf_put buf c = (if length buf < 16 then Some (buf @ [c]) else None)"

text \<open>The \<open>do\<close> loop of \<open>printint\<close>, least significant digit first. The base is 10 or 16.\<close>

function printint_loop :: "nat \<Rightarrow> nat \<Rightarrow> string \<Rightarrow> string option" where
  "printint_loop x base buf =
     (case buf_put buf (digits ! (x mod base)) of None \<Rightarrow> None
      | Some buf' \<Rightarrow> if x div base \<noteq> 0 then printint_loop (x div base) base buf' else Some buf')"
  by pat_completeness auto
termination
  by (relation "measure (\<lambda>(x, base, buf). 16 - length buf)") (auto simp: buf_put_def split: if_splits)

declare printint_loop.simps [simp del]

definition printint_buf :: "u64 \<Rightarrow> nat \<Rightarrow> bool \<Rightarrow> string option" where
  "printint_buf xx base sign =
     (let neg = sign \<and> xx <s 0; x = (if neg then - xx else xx)
      in case printint_loop (unat x) base [] of None \<Rightarrow> None
         | Some buf \<Rightarrow> if neg then buf_put buf (CHR ''-'') else Some buf)"

definition printint :: "u64 \<Rightarrow> nat \<Rightarrow> bool \<Rightarrow> string option" where
  "printint xx base sign = map_option rev (printint_buf xx base sign)"

text \<open>\<open>printptr\<close> prints sixteen hexadecimal digits from the most significant one.\<close>

definition printptr :: "u64 \<Rightarrow> string" where
  "printptr x = ''0x'' @ map (\<lambda>i. digits ! unat (drop_bit 60 (push_bit (4 * i) x))) [0..<16]"

section \<open>Formats\<close>

datatype arg = Arg_int u32 | Arg_long u64 | Arg_str "string option"

text \<open>\<open>None\<close>: the next argument is missing or has the wrong type, or its number overruns the buffer, which C leaves undefined.\<close>

definition arg_int :: "arg list \<Rightarrow> (u64 \<Rightarrow> string option) \<Rightarrow> (string \<times> arg list) option" where
  "arg_int args f = (case args of Arg_int v # as \<Rightarrow> map_option (\<lambda>out. (out, as)) (f (scast v)) | _ \<Rightarrow> None)"

definition arg_long :: "arg list \<Rightarrow> (u64 \<Rightarrow> string option) \<Rightarrow> (string \<times> arg list) option" where
  "arg_long args f = (case args of Arg_long v # as \<Rightarrow> map_option (\<lambda>out. (out, as)) (f v) | _ \<Rightarrow> None)"

definition arg_str :: "arg list \<Rightarrow> (string \<times> arg list) option" where
  "arg_str args = (case args of Arg_str v # as \<Rightarrow> Some (case v of None \<Rightarrow> ''(null)'' | Some t \<Rightarrow> t, as) | _ \<Rightarrow> None)"

text \<open>One conversion: the format after the percent sign (not empty) gives the output, the rest of the format and of the arguments.\<close>

definition conv :: "string \<Rightarrow> arg list \<Rightarrow> (string \<times> string \<times> arg list) option" where
  "conv fmt args =
     (let c0 = hd fmt; c1 = (if length fmt > 1 then fmt ! 1 else CHR 0x00); c2 = (if length fmt > 2 then fmt ! 2 else CHR 0x00);
          go = (\<lambda>n r. map_option (\<lambda>(out, as). (out, drop n fmt, as)) r)
      in if c0 = CHR ''d'' then go 1 (arg_int args (\<lambda>v. printint v 10 True))
         else if c0 = CHR ''l'' \<and> c1 = CHR ''d'' then go 2 (arg_long args (\<lambda>v. printint v 10 True))
         else if c0 = CHR ''l'' \<and> c1 = CHR ''l'' \<and> c2 = CHR ''d'' then go 3 (arg_long args (\<lambda>v. printint v 10 True))
         else if c0 = CHR ''u'' then go 1 (arg_int args (\<lambda>v. printint v 10 False))
         else if c0 = CHR ''l'' \<and> c1 = CHR ''u'' then go 2 (arg_long args (\<lambda>v. printint v 10 False))
         else if c0 = CHR ''l'' \<and> c1 = CHR ''l'' \<and> c2 = CHR ''u'' then go 3 (arg_long args (\<lambda>v. printint v 10 False))
         else if c0 = CHR ''x'' then go 1 (arg_int args (\<lambda>v. printint v 16 False))
         else if c0 = CHR ''l'' \<and> c1 = CHR ''x'' then go 2 (arg_long args (\<lambda>v. printint v 16 False))
         else if c0 = CHR ''l'' \<and> c1 = CHR ''l'' \<and> c2 = CHR ''x'' then go 3 (arg_long args (\<lambda>v. printint v 16 False))
         else if c0 = CHR ''p'' then go 1 (arg_long args (\<lambda>v. Some (printptr v)))
         else if c0 = CHR ''s'' then go 1 (arg_str args)
         else if c0 = CHR ''%'' then Some (''%'', drop 1 fmt, args)
         else Some ([CHR ''%'', c0], drop 1 fmt, args))"

lemma conv_shorter: "conv fmt args = Some (out, rest, as) \<Longrightarrow> fmt \<noteq> [] \<Longrightarrow> length rest < length fmt"
  by (auto simp: conv_def Let_def split: if_splits)

function format :: "string \<Rightarrow> arg list \<Rightarrow> string option" where
  "format fmt args =
     (case fmt of [] \<Rightarrow> Some []
      | c # r \<Rightarrow>
          if c \<noteq> CHR ''%'' then map_option (\<lambda>out. c # out) (format r args)
          else if r = [] then Some []
          else (case conv r args of None \<Rightarrow> None
                | Some (out, rest, as) \<Rightarrow> map_option (\<lambda>more. out @ more) (format rest as)))"
  by pat_completeness auto
termination
  by (relation "measure (\<lambda>(fmt, args). length fmt)") (auto dest: conv_shorter)

declare format.simps [simp del]

section \<open>Printing\<close>

definition put_string :: "string \<Rightarrow> (unit, 'z dev_st_scheme) kern" where
  "put_string out = mfor out (\<lambda>c. consputc (Some (of_char c)))"

definition printf :: "string \<Rightarrow> arg list \<Rightarrow> (int, 'z dev_st_scheme) kern" where
  "printf fmt args =
     bind (gets pr_locking) (\<lambda>locking.
     andthen (if locking then k_acquire Pr_lock else ret ()) (
     andthen (case format fmt args of None \<Rightarrow> diverge | Some out \<Rightarrow> put_string out) (
     andthen (if locking then k_release Pr_lock else ret ()) (
     ret 0))))"

definition printfinit :: "(unit, 'z dev_st_scheme) kern" where
  "printfinit = upd (\<lambda>s. s\<lparr>pr_locking := True\<rparr>)"

text \<open>The whole of \<open>panic()\<close> up to its endless loop; elsewhere the outcome \<open>Panic\<close> stands for it.\<close>

definition panic_print :: "string \<Rightarrow> (unit, 'z dev_st_scheme) kern" where
  "panic_print msg =
     andthen (upd (\<lambda>s. s\<lparr>pr_locking := False\<rparr>)) (
     andthen (printf ''panic: '' []) (
     andthen (printf (''%s'' @ [CHR 0x0A]) [Arg_str (Some msg)]) (
     upd (\<lambda>s. s\<lparr>panicked := True\<rparr>))))"

section \<open>Reading numbers back\<close>

text \<open>The digits of a number, without a bound on their number.\<close>

function int_digits :: "nat \<Rightarrow> nat \<Rightarrow> string" where
  "int_digits x base =
     digits ! (x mod base) # (if base < 2 \<or> x div base = 0 then [] else int_digits (x div base) base)"
  by auto
termination
  by (relation "measure fst") (auto intro!: div_less_dividend simp: div_eq_0_iff)

declare int_digits.simps [simp del]

definition fit :: "string \<Rightarrow> string option" where
  "fit buf = (if length buf \<le> 16 then Some buf else None)"

definition digit_val :: "char \<Rightarrow> nat" where
  "digit_val c = length (takeWhile (\<lambda>d. d \<noteq> c) digits)"

definition read_nat :: "nat \<Rightarrow> string \<Rightarrow> nat" where
  "read_nat base t = foldl (\<lambda>a c. a * base + digit_val c) 0 t"

definition read_int :: "nat \<Rightarrow> string \<Rightarrow> int" where
  "read_int base t = (if t \<noteq> [] \<and> hd t = CHR ''-'' then - int (read_nat base (tl t)) else int (read_nat base t))"

lemma digit_val_digits: "d < 16 \<Longrightarrow> digit_val (digits ! d) = d"
  by (auto simp: digit_val_def digits_def less_Suc_eq numeral_eq_Suc)

lemma digits_not_minus: "d < 16 \<Longrightarrow> digits ! d \<noteq> CHR ''-''"
  by (auto simp: digits_def less_Suc_eq numeral_eq_Suc)

lemma read_nat_snoc: "read_nat base (t @ [c]) = read_nat base t * base + digit_val c"
  by (simp add: read_nat_def)

lemma int_digits_nonempty: "int_digits x base \<noteq> []"
  by (subst int_digits.simps) simp

lemma read_int_digits:
  "1 < base \<Longrightarrow> base \<le> 16 \<Longrightarrow> read_nat base (rev (int_digits x base)) = x"
proof (induction x base rule: int_digits.induct)
  case (1 x base)
  then have "x mod base < 16" by (meson less_le_trans mod_less_divisor less_trans zero_less_one)
  then have d: "digit_val (digits ! (x mod base)) = x mod base" by (rule digit_val_digits)
  show ?case
  proof (cases "x div base = 0")
    case True
    then have "x mod base = x" using 1 by (simp add: div_eq_0_iff)
    with True d show ?thesis by (subst int_digits.simps) (simp add: read_nat_def)
  next
    case False
    then show ?thesis
      using 1 d by (subst int_digits.simps) (simp add: read_nat_snoc)
  qed
qed

lemma int_digits_set: "1 < base \<Longrightarrow> base \<le> 16 \<Longrightarrow> c \<in> set (int_digits x base) \<Longrightarrow> c \<noteq> CHR ''-''"
proof (induction x base rule: int_digits.induct)
  case (1 x base)
  then have "x mod base < 16" by (meson less_le_trans mod_less_divisor less_trans zero_less_one)
  then have "digits ! (x mod base) \<noteq> CHR ''-''" by (rule digits_not_minus)
  with 1 show ?case by (subst (asm) (2) int_digits.simps) (auto split: if_splits)
qed

lemma hd_rev_digits: "1 < base \<Longrightarrow> base \<le> 16 \<Longrightarrow> hd (rev (int_digits x base)) \<noteq> CHR ''-''"
  by (metis hd_in_set int_digits_nonempty int_digits_set rev_is_Nil_conv set_rev)

lemma int_digits_length:
  "1 < base \<Longrightarrow> length (int_digits x base) \<le> Suc k \<longleftrightarrow> x < base ^ Suc k"
proof (induction x base arbitrary: k rule: int_digits.induct)
  case (1 x base)
  show ?case
  proof (cases "x div base = 0")
    case True
    then have "x < base" using 1 by (simp add: div_eq_0_iff)
    also have "base \<le> base ^ Suc k" using 1 by (intro self_le_power) auto
    finally show ?thesis using True by (subst int_digits.simps) simp
  next
    case False
    then have ne: "length (int_digits (x div base) base) \<ge> 1" by (simp add: Suc_leI int_digits_nonempty)
    show ?thesis
    proof (cases k)
      case 0
      with False ne 1 show ?thesis by (subst int_digits.simps) (auto simp: div_eq_0_iff)
    next
      case (Suc j)
      have "length (int_digits x base) \<le> Suc k \<longleftrightarrow> length (int_digits (x div base) base) \<le> Suc j"
        using False 1 Suc by (subst int_digits.simps) auto
      also have "\<dots> \<longleftrightarrow> x div base < base ^ Suc j" using False 1 by simp
      also have "\<dots> \<longleftrightarrow> x < base ^ Suc j * base" using 1 by (simp add: div_less_iff_less_mult)
      finally show ?thesis using Suc by (simp add: mult.commute)
    qed
  qed
qed

lemma uint_mod_sint: "uint (w :: u64) = sint w mod 2 ^ 64"
  by (simp add: uint_sint take_bit_eq_mod)

lemma unat_neg_sint: "(w :: u64) <s 0 \<Longrightarrow> uint (- w) = - sint w"
proof -
  assume "w <s 0"
  then have s: "sint w < 0" by (simp add: word_sless_alt)
  have b: "sint w \<ge> - (2 ^ 63)" using sint_greater_eq [of w] by simp
  have "uint (- w) = (- uint w) mod 2 ^ 64" by (simp add: uint_word_ariths)
  also have "\<dots> = (- sint w) mod 2 ^ 64" by (simp add: uint_mod_sint mod_minus_eq)
  also have "\<dots> = - sint w" using s b by (intro mod_pos_pos_trivial) auto
  finally show ?thesis .
qed

lemma unat_pos_sint: "\<not> (w :: u64) <s 0 \<Longrightarrow> uint w = sint w"
proof -
  assume "\<not> w <s 0"
  then have s: "sint w \<ge> 0" by (simp add: word_sless_alt)
  have b: "sint w < 2 ^ 63" using sint_less [of w] by simp
  show ?thesis unfolding uint_mod_sint using s b by (intro mod_pos_pos_trivial) auto
qed

lemma printint_loop_digits: "1 < base \<Longrightarrow> printint_loop x base buf = fit (buf @ int_digits x base)"
proof (induction x base buf rule: printint_loop.induct)
  case (1 x base buf)
  let ?d = "digits ! (x mod base)"
  have e: "int_digits x base = ?d # (if x div base = 0 then [] else int_digits (x div base) base)"
    using "1.prems" by (subst int_digits.simps) simp
  show ?case
  proof (cases "length buf < 16")
    case True
    then have b: "buf_put buf ?d = Some (buf @ [?d])" by (simp add: buf_put_def)
    show ?thesis using "1.IH" [OF b] "1.prems" True b e by (subst printint_loop.simps) (auto simp: fit_def)
  next
    case False
    then have "buf_put buf ?d = None" by (simp add: buf_put_def)
    then show ?thesis using False e by (subst printint_loop.simps) (simp add: fit_def)
  qed
qed

text \<open>What \<open>printint\<close> would put into a buffer without a bound.\<close>

definition num_text :: "u64 \<Rightarrow> nat \<Rightarrow> bool \<Rightarrow> string" where
  "num_text xx base sign =
     (let neg = sign \<and> xx <s 0; x = (if neg then - xx else xx)
      in int_digits (unat x) base @ (if neg then ''-'' else []))"

lemma printint_buf_fit: "1 < base \<Longrightarrow> printint_buf xx base sign = fit (num_text xx base sign)"
  by (auto simp: printint_buf_def num_text_def Let_def printint_loop_digits fit_def buf_put_def)

lemma num_text_neg:
  "sign \<Longrightarrow> xx <s 0 \<Longrightarrow> num_text xx base sign = int_digits (unat (- xx)) base @ ''-''"
  by (simp add: num_text_def)

lemma num_text_pos:
  "\<not> (sign \<and> xx <s 0) \<Longrightarrow> num_text xx base sign = int_digits (unat xx) base"
  by (auto simp: num_text_def Let_def)

lemma buf_length_pos: "\<not> (sign \<and> xx <s 0) \<Longrightarrow> 1 < base \<Longrightarrow> length (num_text xx base sign) \<le> Suc k \<longleftrightarrow> uint xx < int base ^ Suc k"
proof -
  assume a: "\<not> (sign \<and> xx <s 0)" "1 < base"
  have "unat xx < base ^ Suc k \<longleftrightarrow> int (unat xx) < int (base ^ Suc k)" by (rule of_nat_less_iff [symmetric])
  also have "\<dots> \<longleftrightarrow> uint xx < int base ^ Suc k" by (simp only: of_nat_power uint_nat)
  finally show ?thesis using int_digits_length [OF a(2), of "unat xx" k] num_text_pos [OF a(1), of base] by simp
qed

lemma buf_length_neg: "xx <s 0 \<Longrightarrow> 1 < base \<Longrightarrow> length (num_text xx base True) \<le> Suc (Suc k) \<longleftrightarrow> - sint xx < int base ^ Suc k"
proof -
  assume a: "xx <s 0" "1 < base"
  have "unat (- xx) < base ^ Suc k \<longleftrightarrow> int (unat (- xx)) < int (base ^ Suc k)" by (rule of_nat_less_iff [symmetric])
  also have "\<dots> \<longleftrightarrow> - sint xx < int base ^ Suc k" by (simp only: of_nat_power uint_nat [symmetric] unat_neg_sint [OF a(1)])
  finally show ?thesis
    using int_digits_length [OF a(2), of "unat (- xx)" k] num_text_neg [OF TrueI a(1), of base] by simp
qed

lemma num_text_read:
  assumes "1 < base" "base \<le> 16"
  shows "read_int base (rev (num_text xx base sign)) = (if sign then sint xx else uint xx)"
proof (cases "sign \<and> xx <s 0")
  case True
  then show ?thesis
    using assms by (simp add: num_text_neg read_int_def read_int_digits unat_neg_sint)
next
  case False
  then show ?thesis
    using assms hd_rev_digits [of base "unat xx"]
    by (auto simp: num_text_pos read_int_def read_int_digits unat_pos_sint)
qed

lemma hex_fits: "length (num_text xx 16 False) \<le> 16"
  using buf_length_pos [of False xx 16 15] uint_lt2p [of xx] by simp

lemma unsigned_fits: "length (num_text xx 10 False) \<le> 16 \<longleftrightarrow> uint xx < 10 ^ 16"
  using buf_length_pos [of False xx 10 15] by simp

lemma signed_fits: "length (num_text xx 10 True) \<le> 16 \<longleftrightarrow> - (10 ^ 15) < sint xx \<and> sint xx < 10 ^ 16"
proof (cases "xx <s 0")
  case True
  then have "sint xx < 0" by (simp add: word_sless_alt)
  with True show ?thesis using buf_length_neg [of xx 10 14] by auto
next
  case False
  then have "uint xx = sint xx" "0 \<le> sint xx" by (simp_all add: unat_pos_sint word_sless_alt)
  with False show ?thesis using buf_length_pos [of True xx 10 15] by auto
qed

lemma sint_scast32: "sint (scast (v :: u32) :: u64) = sint v"
  by (rule sint_up_scast) (simp add: is_up)

section \<open>Properties\<close>

text \<open>
  C30: the number a user reads on the console is the number that was passed. In base 16 \<open>printint\<close> prints every 64-bit number,
  in base 10 every number whose text fits into its buffer of 16 characters, and reading the text back gives the signed value of
  the argument when \<open>sign\<close> is set and the unsigned value otherwise. For all other numbers it writes past the buffer.
\<close>

theorem printint_roundtrip:
  "(if - (10 ^ 15) < sint xx \<and> sint xx < 10 ^ 16
    then \<exists>t. printint xx 10 True = Some t \<and> read_int 10 t = sint xx else printint xx 10 True = None)
   \<and> (if uint xx < 10 ^ 16 then \<exists>t. printint xx 10 False = Some t \<and> read_int 10 t = uint xx else printint xx 10 False = None)
   \<and> (\<exists>t. printint xx 16 False = Some t \<and> read_int 16 t = uint xx)"
proof (intro conjI)
  have p: "printint xx base sign = map_option rev (fit (num_text xx base sign))" if "1 < base" for base sign
    using that by (simp add: printint_def printint_buf_fit)
  show "if - (10 ^ 15) < sint xx \<and> sint xx < 10 ^ 16
    then \<exists>t. printint xx 10 True = Some t \<and> read_int 10 t = sint xx else printint xx 10 True = None"
    using signed_fits [of xx] num_text_read [of 10 xx True] by (auto simp: p fit_def)
  show "if uint xx < 10 ^ 16 then \<exists>t. printint xx 10 False = Some t \<and> read_int 10 t = uint xx else printint xx 10 False = None"
    using unsigned_fits [of xx] num_text_read [of 10 xx False] by (auto simp: p fit_def)
  show "\<exists>t. printint xx 16 False = Some t \<and> read_int 16 t = uint xx"
    using hex_fits [of xx] num_text_read [of 16 xx False] by (auto simp: p fit_def)
qed

text \<open>
  C31: the 16-character buffer of \<open>printint\<close>. It holds every hexadecimal number and everything that
  \<open>%d\<close> prints, but a decimal number fits exactly when it is below \<open>10 ^ 16\<close> (above \<open>- 10 ^ 15\<close> when negative), so \<open>%ld\<close> and \<open>%lu\<close>
  can write past the buffer, and so does \<open>%u\<close> on every negative \<open>int\<close>, which is sign-extended to 64 bits.
\<close>

theorem printint_buffer:
  "(\<exists>buf. printint_buf xx 16 False = Some buf \<and> length buf \<le> 16)
   \<and> (\<exists>buf. printint_buf (scast (v :: u32)) 10 True = Some buf \<and> length buf \<le> 11)
   \<and> (printint_buf xx 10 False \<noteq> None \<longleftrightarrow> uint xx < 10 ^ 16)
   \<and> (printint_buf xx 10 True \<noteq> None \<longleftrightarrow> - (10 ^ 15) < sint xx \<and> sint xx < 10 ^ 16)
   \<and> (printint_buf (scast v) 10 False \<noteq> None \<longleftrightarrow> 0 \<le> sint v)"
proof -
  have sv: "sint (scast v :: u64) = sint v" "- (2 ^ 31) \<le> sint v" "sint v < 2 ^ 31"
    using sint_greater_eq [of v] sint_less [of v] by (simp_all add: sint_scast32)
  have dd: "length (num_text (scast v) 10 True) \<le> 11"
  proof (cases "(scast v :: u64) <s 0")
    case True
    then show ?thesis using buf_length_neg [of "scast v" 10 9] sv by auto
  next
    case False
    then have "uint (scast v :: u64) = sint v" using unat_pos_sint [OF False] sv by simp
    with False show ?thesis using buf_length_pos [of True "scast v" 10 10] sv by auto
  qed
  have uu: "uint (scast v :: u64) < 10 ^ 16 \<longleftrightarrow> 0 \<le> sint v"
  proof (cases "0 \<le> sint v")
    case True
    have "uint (scast v :: u64) = sint v mod 2 ^ 64" unfolding uint_mod_sint sv by simp
    also have "\<dots> = sint v" using sv True by (intro mod_pos_pos_trivial) auto
    finally have "uint (scast v :: u64) = sint v" .
    then show ?thesis using sv True by auto
  next
    case False
    have "uint (scast v :: u64) = (sint v + 2 ^ 64) mod 2 ^ 64" unfolding uint_mod_sint sv by simp
    also have "\<dots> = sint v + 2 ^ 64" using sv False by (intro mod_pos_pos_trivial) auto
    finally have "uint (scast v :: u64) = sint v + 2 ^ 64" .
    then show ?thesis using sv False by auto
  qed
  have f: "fit buf \<noteq> None \<longleftrightarrow> length buf \<le> 16" for buf by (simp add: fit_def)
  have hex: "fit (num_text xx 16 False) = Some (num_text xx 16 False)" using hex_fits by (simp add: fit_def)
  have dec: "fit (num_text (scast v) 10 True) = Some (num_text (scast v) 10 True)" using dd by (simp add: fit_def)
  have p: "printint_buf w 10 sign = fit (num_text w 10 sign)" "printint_buf w 16 sign = fit (num_text w 16 sign)" for w sign
    by (simp_all add: printint_buf_fit)
  show ?thesis unfolding p f hex dec unsigned_fits signed_fits uu using hex_fits [of xx] dd by simp
qed

end
