(* ===== verification/Console.thy ===== *)
theory Console
  imports Kprintf
begin

text \<open>
  Console input and output (\<open>console.c\<close>), the UART interrupt and \<open>procdump\<close>. Input bytes go through
  a ring of 128 bytes with three free-running 32-bit counters: read, write (committed) and edit.
\<close>

definition INPUT_BUF_SIZE :: nat where "INPUT_BUF_SIZE = 128"

definition ctrl :: "byte \<Rightarrow> byte" where "ctrl x = x - 0x40"

definition upd_cons :: "(console \<Rightarrow> console) \<Rightarrow> (unit, 'z dev_st_scheme) kern" where
  "upd_cons f = upd (\<lambda>s. s\<lparr>cons := f (cons s)\<rparr>)"

text \<open>
  Sleeping inside a loop: the routine leaves through \<open>Switch\<close> and starts its loop anew, with its local
  variables as they are, after \<open>sleep_resume\<close>.
\<close>

definition sleep_retry :: "chan \<Rightarrow> lockid \<Rightarrow> ('a, 'z sched_st_scheme) kern" where
  "sleep_retry c lk = andthen (sleep_on c lk) diverge"

section \<open>The process list\<close>

definition state_name :: "procstate \<Rightarrow> string" where
  "state_name st = (case st of UNUSED \<Rightarrow> ''unused'' | USED \<Rightarrow> ''used'' | SLEEPING \<Rightarrow> ''sleep ''
     | RUNNABLE \<Rightarrow> ''runble'' | RUNNING \<Rightarrow> ''run   '' | ZOMBIE \<Rightarrow> ''zombie'')"

definition chars :: "byte list \<Rightarrow> string" where
  "chars bs = map (\<lambda>b. char_of (unat b)) bs"

definition procdump :: "(unit, 'z dev_st_scheme) kern" where
  "procdump =
     andthen (printf [CHR 0x0A] []) (
     mfor [0..<NPROC] (\<lambda>p.
       bind (gets (\<lambda>s. procs s p)) (\<lambda>q.
       if state q = UNUSED then ret () else
       andthen (printf ''%d %s %s'' [Arg_int (pid q), Arg_str (Some (state_name (state q))), Arg_str (Some (chars (cstr (pname q) 16)))]) (
       andthen (printf [CHR 0x0A] []) (ret ())))))"

section \<open>Reading and writing\<close>

fun consolewrite_loop :: "source \<Rightarrow> nat \<Rightarrow> nat \<Rightarrow> (int, 'z dev_st_scheme) kern" where
  "consolewrite_loop src i 0 = ret (int i)"
| "consolewrite_loop src i (Suc k) =
     bind (either_copyin (source_add src i) 1) (\<lambda>(e, bs).
     if e = -1 then ret (int i) else
     andthen (uartputc (hd bs)) (
     consolewrite_loop src (i + 1) k))"

definition consolewrite :: "source \<Rightarrow> int \<Rightarrow> (int, 'z dev_st_scheme) kern" where
  "consolewrite src n = consolewrite_loop src 0 (nat n)"

text \<open>
  The loop of \<open>consoleread\<close> with \<open>n\<close> bytes to go returns the final \<open>n\<close>, or \<open>None\<close> when the process was
  killed while waiting.
\<close>

fun consoleread_loop :: "nat \<Rightarrow> dest \<Rightarrow> nat \<Rightarrow> (nat option, 'z dev_st_scheme) kern" where
  "consoleread_loop target dst 0 = ret (Some 0)"
| "consoleread_loop target dst (Suc n) =
     bind (gets cons) (\<lambda>k.
     if cons_r k = cons_w k then
       bind myproc (\<lambda>p. bind (is_killed p) (\<lambda>dead.
       if dead then andthen (k_release Cons_lock) (ret None)
       else sleep_retry Chan_cons_r Cons_lock))
     else
       let c = cbuf k (unat (cons_r k) mod INPUT_BUF_SIZE) in
       andthen (upd_cons (\<lambda>k. k\<lparr>cons_r := cons_r k + 1\<rparr>)) (
       if c = ctrl 0x44 then
         andthen (if Suc n < target then upd_cons (\<lambda>k. k\<lparr>cons_r := cons_r k - 1\<rparr>) else ret ()) (
         ret (Some (Suc n)))
       else
         bind (either_copyout dst [c]) (\<lambda>e.
         if e = -1 then ret (Some (Suc n)) else
         if c = 0x0a then ret (Some n) else
         consoleread_loop target (dest_add dst 1) n)))"

definition consoleread :: "dest \<Rightarrow> int \<Rightarrow> (int, 'z dev_st_scheme) kern" where
  "consoleread dst n =
     andthen (k_acquire Cons_lock) (
     bind (consoleread_loop (nat n) dst (nat n)) (\<lambda>r.
     case r of None \<Rightarrow> ret (-1)
     | Some m \<Rightarrow> andthen (k_release Cons_lock) (ret (int (nat n - m)))))"

section \<open>The input interrupt\<close>

text \<open>Control-U: at most \<open>cons.e - cons.w\<close> bytes are erased.\<close>

fun kill_line :: "nat \<Rightarrow> (unit, 'z dev_st_scheme) kern" where
  "kill_line fuel =
     bind (gets cons) (\<lambda>k.
     if cons_e k \<noteq> cons_w k \<and> cbuf k (unat (cons_e k - 1) mod INPUT_BUF_SIZE) \<noteq> 0x0a then
       (case fuel of 0 \<Rightarrow> diverge | Suc fuel' \<Rightarrow>
        andthen (upd_cons (\<lambda>k. k\<lparr>cons_e := cons_e k - 1\<rparr>)) (
        andthen (consputc None) (
        kill_line fuel')))
     else ret ())"

declare kill_line.simps [simp del]

definition cons_default :: "byte \<Rightarrow> (unit, 'z dev_st_scheme) kern" where
  "cons_default c0 =
     bind (gets cons) (\<lambda>k.
     if c0 \<noteq> 0 \<and> unat (cons_e k - cons_r k) < INPUT_BUF_SIZE then
       let c = (if c0 = 0x0d then 0x0a else c0) in
       andthen (consputc (Some c)) (
       andthen (upd_cons (\<lambda>k. k\<lparr>cbuf := (cbuf k)(unat (cons_e k) mod INPUT_BUF_SIZE := c), cons_e := cons_e k + 1\<rparr>)) (
       bind (gets cons) (\<lambda>k.
       if c = 0x0a \<or> c = ctrl 0x44 \<or> unat (cons_e k - cons_r k) = INPUT_BUF_SIZE then
         andthen (upd_cons (\<lambda>k. k\<lparr>cons_w := cons_e k\<rparr>)) (
         wakeup Chan_cons_r)
       else ret ())))
     else ret ())"

definition consoleintr :: "byte \<Rightarrow> (unit, 'z dev_st_scheme) kern" where
  "consoleintr c =
     andthen (k_acquire Cons_lock) (
     andthen
       (if c = ctrl 0x50 then procdump
        else if c = ctrl 0x55 then bind (gets (\<lambda>s. unat (cons_e (cons s) - cons_w (cons s)))) kill_line
        else if c = ctrl 0x48 \<or> c = 0x7f then
          bind (gets cons) (\<lambda>k.
          if cons_e k \<noteq> cons_w k then
            andthen (upd_cons (\<lambda>k. k\<lparr>cons_e := cons_e k - 1\<rparr>)) (consputc None)
          else ret ())
        else cons_default c) (
     k_release Cons_lock))"

text \<open>\<open>uartintr\<close> handles every byte that has arrived, then sends buffered output.\<close>

fun uartintr_loop :: "nat \<Rightarrow> (unit, 'z dev_st_scheme) kern" where
  "uartintr_loop fuel =
     bind uartgetc (\<lambda>co. case co of None \<Rightarrow> ret () | Some c \<Rightarrow>
       (case fuel of 0 \<Rightarrow> diverge | Suc fuel' \<Rightarrow> andthen (consoleintr c) (uartintr_loop fuel')))"

declare uartintr_loop.simps [simp del]

definition uartintr :: "(unit, 'z dev_st_scheme) kern" where
  "uartintr =
     andthen (bind (getu (\<lambda>u. length (rx_bytes u))) uartintr_loop) (
     andthen (k_acquire Uart_tx_lock) (
     andthen uartstart (
     k_release Uart_tx_lock)))"

section \<open>Echoing\<close>

text \<open>How many more characters the device will accept, and what echoing may change.\<close>

definition ready :: "'z dev_st_scheme \<Rightarrow> nat" where
  "ready s = length (filter id (lsr_idle (uart s)))"

definition echoed :: "'z dev_st_scheme \<Rightarrow> 'z dev_st_scheme \<Rightarrow> bool" where
  "echoed s t \<longleftrightarrow> (\<exists>a b. t = s\<lparr>uart := (uart s)\<lparr>lsr_idle := a, reg_log := b\<rparr>\<rparr>)"

lemma echoed_refl: "echoed s s"
  unfolding echoed_def by (intro exI [of _ "lsr_idle (uart s)"] exI [of _ "reg_log (uart s)"]) simp

lemma echoed_trans: "echoed s t \<Longrightarrow> echoed t u \<Longrightarrow> echoed s u"
  by (auto simp: echoed_def; blast)

lemma echoed_cons: "echoed s t \<Longrightarrow> echoed (s\<lparr>cons := k\<rparr>) (t\<lparr>cons := k\<rparr>)"
proof -
  assume "echoed s t"
  then obtain a b where "t = s\<lparr>uart := (uart s)\<lparr>lsr_idle := a, reg_log := b\<rparr>\<rparr>" by (auto simp: echoed_def)
  then show ?thesis unfolding echoed_def by (intro exI [of _ a] exI [of _ b]) simp
qed

lemma filter_dropWhile: "filter id xs \<noteq> [] \<Longrightarrow> \<exists>ys. dropWhile Not xs = True # ys \<and> length (filter id xs) = Suc (length (filter id ys))"
  by (induction xs) auto

lemma sync_run:
  assumes "\<not> panicked s" and "0 < ready s"
  shows "\<exists>t. uartputc_sync c s = Ok () t \<and> echoed s t \<and> ready s = Suc (ready t)"
proof -
  from filter_dropWhile [of "lsr_idle (uart s)"] assms(2) obtain ys where
    y: "dropWhile Not (lsr_idle (uart s)) = True # ys" "length (filter id (lsr_idle (uart s))) = Suc (length (filter id ys))"
    by (auto simp: ready_def)
  let ?t = "s\<lparr>uart := (uart s)\<lparr>lsr_idle := ys, reg_log := reg_log (uart s) @ [(THR, c)]\<rparr>\<rparr>"
  have "uartputc_sync c s = Ok () ?t"
    using assms(1) y(1) by (simp add: uartputc_sync_def exec_simps getu_def upd_uart_def write_reg_def)
  moreover have "echoed s ?t" by (auto simp: echoed_def)
  ultimately show ?thesis using y(2) by (intro exI [of _ ?t]) (simp add: ready_def)
qed

lemma echoed_fields:
  assumes "echoed s t"
  shows "held t = held s" "depth t = depth s" "curp t = curp s" "procs t = procs s" "mem t = mem s" "cons t = cons s"
    "panicked t = panicked s" "dev_st.more t = dev_st.more s" "uart_tx_buf (uart t) = uart_tx_buf (uart s)"
    "uart_tx_w (uart t) = uart_tx_w (uart s)" "uart_tx_r (uart t) = uart_tx_r (uart s)" "rx_bytes (uart t) = rx_bytes (uart s)"
  using assms by (auto simp: echoed_def)

lemma consputc_run:
  assumes "\<not> panicked s" and "3 \<le> ready s"
  shows "\<exists>t. consputc co s = Ok () t \<and> echoed s t \<and> ready s \<le> ready t + 3"
proof (cases co)
  case (Some c)
  from sync_run [of s c] assms obtain t where "uartputc_sync c s = Ok () t" "echoed s t" "ready s = Suc (ready t)" by auto
  with Some show ?thesis by (intro exI [of _ t]) (simp add: consputc_def)
next
  case None
  from sync_run [of s 8] assms obtain t where t: "uartputc_sync 8 s = Ok () t" "echoed s t" "ready s = Suc (ready t)" by auto
  from sync_run [of t "0x20"] assms t echoed_fields(7) [OF t(2)] obtain u where
    u: "uartputc_sync 0x20 t = Ok () u" "echoed t u" "ready t = Suc (ready u)" by auto
  from sync_run [of u 8] assms t u echoed_fields(7) [OF t(2)] echoed_fields(7) [OF u(2)] obtain v where
    v: "uartputc_sync 8 u = Ok () v" "echoed u v" "ready u = Suc (ready v)" by auto
  have "echoed s v" using t(2) u(2) v(2) echoed_trans by blast
  with None t u v show ?thesis by (intro exI [of _ v]) (simp add: consputc_def exec_simps)
qed

section \<open>The input buffer is two lists\<close>

interpretation cons_ring: ring_buffer INPUT_BUF_SIZE "TYPE(32)"
  by unfold_locales (simp_all add: INPUT_BUF_SIZE_def)

text \<open>The bytes a reader may take, and the line being edited.\<close>

definition lines :: "console \<Rightarrow> byte list" where
  "lines k = cons_ring.items (cbuf k) (cons_r k) (cons_w k)"

definition edit :: "console \<Rightarrow> byte list" where
  "edit k = cons_ring.items (cbuf k) (cons_w k) (cons_e k)"

definition EOF :: byte where "EOF = ctrl 0x44"

definition cons_ok :: "console \<Rightarrow> bool" where
  "cons_ok k \<longleftrightarrow> unat (cons_w k - cons_r k) \<le> unat (cons_e k - cons_r k) \<and> unat (cons_e k - cons_r k) \<le> INPUT_BUF_SIZE
     \<and> 0x0a \<notin> set (edit k)"

lemma cons_total:
  assumes "cons_ok k"
  shows "unat (cons_e k - cons_r k) = length (lines k) + length (edit k)"
proof -
  have "unat (cons_e k - cons_w k) = unat (cons_e k - cons_r k) - unat (cons_w k - cons_r k)"
    using assms cons_ring.fill_split [of "cons_w k" "cons_r k" "cons_e k"] by (simp add: cons_ok_def)
  then show ?thesis using assms by (simp add: lines_def edit_def cons_ok_def)
qed

lemma edit_empty: "cons_e k = cons_w k \<longleftrightarrow> edit k = []"
  by (auto simp: edit_def cons_ring.items_Nil_iff)

section \<open>The line editor\<close>

text \<open>The line discipline, as a function on the committed bytes and the line being edited.\<close>

definition editor :: "byte \<Rightarrow> byte list \<times> byte list \<Rightarrow> byte list \<times> byte list" where
  "editor c = (\<lambda>(ls, ed).
     if c = ctrl 0x55 then (ls, [])
     else if c = ctrl 0x48 \<or> c = 0x7f then (ls, butlast ed)
     else if c = 0 \<or> length ls + length ed \<ge> INPUT_BUF_SIZE then (ls, ed)
     else let d = (if c = 0x0d then 0x0a else c) in
       if d = 0x0a \<or> d = EOF \<or> length ls + length ed + 1 = INPUT_BUF_SIZE then (ls @ ed @ [d], [])
       else (ls, ed @ [d]))"

definition unpush :: "console \<Rightarrow> console" where
  "unpush k = k\<lparr>cons_e := cons_e k - 1\<rparr>"

lemma unpush_ok:
  assumes "cons_ok k" and "edit k \<noteq> []"
  shows "cons_ok (unpush k)" "lines (unpush k) = lines k" "edit (unpush k) = butlast (edit k)" "cons_r (unpush k) = cons_r k" "cons_w (unpush k) = cons_w k"
proof -
  have ne: "cons_w k \<noteq> cons_e k" using assms(2) edit_empty [of k] by auto
  show e: "edit (unpush k) = butlast (edit k)" using cons_ring.items_unpush [OF ne] by (simp add: edit_def unpush_def)
  show "lines (unpush k) = lines k" "cons_r (unpush k) = cons_r k" "cons_w (unpush k) = cons_w k" by (simp_all add: lines_def unpush_def)
  have t: "unat (cons_e k - cons_r k) = length (lines k) + length (edit k)" by (rule cons_total [OF assms(1)])
  then have "unat (cons_e k - cons_r k) \<noteq> 0" using assms(2) by simp
  then have "cons_r k \<noteq> cons_e k" by auto
  then have "unat (cons_e k - 1 - cons_r k) = unat (cons_e k - cons_r k) - 1" by (rule cons_ring.fill_unpush)
  moreover have "length (lines k) = unat (cons_w k - cons_r k)" by (simp add: lines_def)
  moreover have "0x0a \<notin> set (butlast (edit k))" using assms(1) by (auto simp: cons_ok_def dest: in_set_butlastD)
  ultimately show "cons_ok (unpush k)"
    using assms t e by (cases "edit k") (auto simp: cons_ok_def unpush_def)
qed

lemma edit_last:
  assumes "edit k \<noteq> []"
  shows "cbuf k (unat (cons_e k - 1) mod INPUT_BUF_SIZE) = last (edit k)"
proof -
  have ne: "cons_w k \<noteq> cons_e k" using assms edit_empty [of k] by auto
  have "unat (cons_e k - cons_w k) = Suc (unat (cons_e k - 1 - cons_w k))"
    using ne cons_ring.fill_unpush [OF ne] assms by (simp add: edit_def cons_ring.items_def)
  then show ?thesis
    using cons_ring.unat_split [of "cons_e k - 1" "cons_w k"] by (simp add: edit_def cons_ring.items_def)
qed

lemma kill_line_run:
  assumes "cons_ok (cons s)" and "\<not> panicked s" and "3 * length (edit (cons s)) \<le> ready s"
  shows "\<exists>t. kill_line (length (edit (cons s))) s = Ok () t \<and> echoed (s\<lparr>cons := cons t\<rparr>) t \<and> cons_ok (cons t)
    \<and> lines (cons t) = lines (cons s) \<and> edit (cons t) = [] \<and> cons_r (cons t) = cons_r (cons s)"
  using assms
proof (induction "length (edit (cons s))" arbitrary: s)
  case 0
  then have "cons_e (cons s) = cons_w (cons s)" by (simp add: edit_empty)
  with 0 show ?case by (intro exI [of _ s]) (subst kill_line.simps, simp add: exec_simps echoed_refl)
next
  case (Suc n)
  let ?k = "cons s" and ?s = "s\<lparr>cons := unpush (cons s)\<rparr>"
  have ne: "edit ?k \<noteq> []" using Suc.hyps(2) by auto
  then have c: "cons_e ?k \<noteq> cons_w ?k" by (simp add: edit_empty)
  have l: "last (edit ?k) \<noteq> 0x0a" using Suc.prems(1) ne last_in_set unfolding cons_ok_def by metis
  have rs: "ready ?s = ready s" by (simp add: ready_def)
  from consputc_run [of ?s None] Suc.prems Suc.hyps(2) rs obtain t where
    t: "consputc None ?s = Ok () t" "echoed ?s t" "ready ?s \<le> ready t + 3" by auto
  note f = echoed_fields [OF t(2)]
  have ct: "cons t = unpush ?k" using f(6) by simp
  have n: "n = length (edit (cons t))" using unpush_ok(3) [OF Suc.prems(1) ne] Suc.hyps(2) ct by simp
  have "\<exists>u. kill_line (length (edit (cons t))) t = Ok () u \<and> echoed (t\<lparr>cons := cons u\<rparr>) u \<and> cons_ok (cons u)
    \<and> lines (cons u) = lines (cons t) \<and> edit (cons u) = [] \<and> cons_r (cons u) = cons_r (cons t)"
    by (rule Suc.hyps(1) [OF n]) (use Suc.prems Suc.hyps(2) unpush_ok(1) [OF Suc.prems(1) ne] ct n t(3) rs f(7) in simp_all)
  then obtain u where u: "kill_line n t = Ok () u" "echoed (t\<lparr>cons := cons u\<rparr>) u" "cons_ok (cons u)"
    "lines (cons u) = lines (cons t)" "edit (cons u) = []" "cons_r (cons u) = cons_r (cons t)" using n by auto
  have "kill_line (Suc n) s = Ok () u"
    using c l edit_last [OF ne] t(1) u(1) by (subst kill_line.simps) (simp add: exec_simps upd_cons_def unpush_def)
  moreover have "echoed (s\<lparr>cons := cons u\<rparr>) u"
    using echoed_trans [OF echoed_cons [OF t(2), of "cons u"] u(2)] by simp
  ultimately show ?case
    using u ct unpush_ok [OF Suc.prems(1) ne] Suc.hyps(2) by (intro exI [of _ u]) simp
qed

definition put :: "byte \<Rightarrow> console \<Rightarrow> console" where
  "put c k = k\<lparr>cbuf := (cbuf k)(unat (cons_e k) mod INPUT_BUF_SIZE := c), cons_e := cons_e k + 1\<rparr>"

lemma put_ok:
  assumes "cons_ok k" and "length (lines k) + length (edit k) < INPUT_BUF_SIZE"
  shows "lines (put c k) = lines k" "edit (put c k) = edit k @ [c]" "cons_r (put c k) = cons_r k" "cons_w (put c k) = cons_w k"
    "unat (cons_e (put c k) - cons_r k) = length (lines k) + length (edit k) + 1"
    "unat (cons_w k - cons_r k) \<le> unat (cons_e (put c k) - cons_r k)"
proof -
  note t = cons_total [OF assms(1)]
  let ?d = "(cbuf k)(unat (cons_e k) mod INPUT_BUF_SIZE := c)"
  have lw: "unat (cons_w k - cons_r k) \<le> unat (cons_e k - cons_r k)" using assms(1) by (simp add: cons_ok_def)
  have e1: "unat (cons_e k + 1 - cons_r k) = unat (cons_e k - cons_r k) + 1"
    by (rule cons_ring.fill_push) (use t assms(2) in simp)
  have le: "unat (cons_e k - cons_w k) < INPUT_BUF_SIZE" using assms(2) by (simp add: edit_def)
  have a: "cons_ring.items ?d (cons_r k) (cons_e k + 1) = cons_ring.items (cbuf k) (cons_r k) (cons_e k) @ [c]"
    by (rule cons_ring.items_push) (use t assms(2) in simp)
  show ed: "edit (put c k) = edit k @ [c]"
    unfolding edit_def put_def using cons_ring.items_push [OF le] by simp
  have "cons_ring.items ?d (cons_r k) (cons_e k + 1) = cons_ring.items ?d (cons_r k) (cons_w k) @ cons_ring.items ?d (cons_w k) (cons_e k + 1)"
    by (rule cons_ring.items_split) (use lw e1 in simp)
  moreover have "cons_ring.items (cbuf k) (cons_r k) (cons_e k) = lines k @ edit k"
    unfolding lines_def edit_def by (rule cons_ring.items_split [OF lw])
  ultimately show "lines (put c k) = lines k"
    using a ed by (simp add: lines_def edit_def put_def)
  show "cons_r (put c k) = cons_r k" "cons_w (put c k) = cons_w k" by (simp_all add: put_def)
  show "unat (cons_e (put c k) - cons_r k) = length (lines k) + length (edit k) + 1" using e1 t by (simp add: put_def)
  show "unat (cons_w k - cons_r k) \<le> unat (cons_e (put c k) - cons_r k)" using e1 lw by (simp add: put_def)
qed

lemma put_keep:
  assumes "cons_ok k" and "length (lines k) + length (edit k) + 1 \<le> INPUT_BUF_SIZE" and "c \<noteq> 0x0a"
  shows "cons_ok (put c k)"
proof -
  have l: "length (lines k) + length (edit k) < INPUT_BUF_SIZE" using assms(2) by simp
  show ?thesis using put_ok [OF assms(1) l, of c] assms by (simp add: cons_ok_def)
qed

definition commit_line :: "byte \<Rightarrow> console \<Rightarrow> console" where
  "commit_line c k = (put c k)\<lparr>cons_w := cons_e (put c k)\<rparr>"

lemma commit_ok:
  assumes "cons_ok k" and "length (lines k) + length (edit k) + 1 \<le> INPUT_BUF_SIZE"
  shows "cons_ok (commit_line c k)" "lines (commit_line c k) = lines k @ edit k @ [c]" "edit (commit_line c k) = []"
    "cons_r (commit_line c k) = cons_r k"
proof -
  have l: "length (lines k) + length (edit k) < INPUT_BUF_SIZE" using assms(2) by simp
  note p = put_ok [OF assms(1) l, of c]
  show e: "edit (commit_line c k) = []" by (simp add: commit_line_def edit_def)
  have "cons_ring.items (cbuf (put c k)) (cons_r k) (cons_e (put c k)) = lines (put c k) @ edit (put c k)"
    unfolding lines_def edit_def p(3,4) by (rule cons_ring.items_split [OF p(6)])
  then show "lines (commit_line c k) = lines k @ edit k @ [c]" using p(1,2,3) by (simp add: commit_line_def lines_def)
  show "cons_r (commit_line c k) = cons_r k" using p(3) by (simp add: commit_line_def)
  show "cons_ok (commit_line c k)" using e p(3,5) assms(2) by (simp add: cons_ok_def commit_line_def edit_def)
qed

text \<open>The default branch of \<open>consoleintr\<close>.\<close>

definition ends_line :: "byte \<Rightarrow> console \<Rightarrow> bool" where
  "ends_line c k \<longleftrightarrow> c = 0x0a \<or> c = EOF \<or> length (lines k) + length (edit k) + 1 = INPUT_BUF_SIZE"

lemma cons_default_run:
  assumes "cons_ok (cons s)" and "\<not> panicked s" and "3 \<le> ready s" and "plocks_free s"
    and "c \<noteq> 0" "length (lines (cons s)) + length (edit (cons s)) < INPUT_BUF_SIZE"
  defines "d \<equiv> (if c = 0x0d then 0x0a else c)"
  shows "\<exists>u. echoed s u \<and> cons_default c s =
    Ok () (if ends_line d (cons s) then wake_upto NPROC Chan_cons_r (u\<lparr>cons := commit_line d (cons s)\<rparr>)
           else u\<lparr>cons := put d (cons s)\<rparr>)"
proof -
  let ?k = "cons s"
  from consputc_run [OF assms(2,3), of "Some d"] obtain u where u: "consputc (Some d) s = Ok () u" "echoed s u" by auto
  note f = echoed_fields [OF u(2)]
  have room: "unat (cons_e ?k - cons_r ?k) < INPUT_BUF_SIZE" using cons_total [OF assms(1)] assms(6) by simp
  have tot: "unat (cons_e (put d ?k) - cons_r (put d ?k)) = length (lines ?k) + length (edit ?k) + 1"
    using put_ok(3,5) [OF assms(1,6), of d] by simp
  have pl: "plocks_free (u\<lparr>cons := commit_line d ?k\<rparr>)" using assms(4) f(1) by (simp add: plocks_free_def)
  let ?ut = "u\<lparr>cons := put d ?k\<rparr>"
  have "cons_default c s = (bind (gets cons) (\<lambda>k.
       if d = 0x0a \<or> d = ctrl 0x44 \<or> unat (cons_e k - cons_r k) = INPUT_BUF_SIZE then
         andthen (upd_cons (\<lambda>k. k\<lparr>cons_w := cons_e k\<rparr>)) (wakeup Chan_cons_r)
       else ret ())) ?ut"
    using assms(5) room u(1) f(6) by (simp add: cons_default_def exec_simps d_def [symmetric] upd_cons_def put_def Let_def)
  also have "\<dots> = Ok () (if ends_line d ?k then wake_upto NPROC Chan_cons_r (u\<lparr>cons := commit_line d ?k\<rparr>) else ?ut)"
    using tot wakeup_run [OF pl, of Chan_cons_r]
    by (auto simp: ends_line_def EOF_def exec_simps upd_cons_def commit_line_def)
  finally show ?thesis using u(2) by blast
qed

lemma editor_default:
  assumes "c \<noteq> ctrl 0x55" "c \<noteq> ctrl 0x48" "c \<noteq> 0x7f" "c \<noteq> 0" "length (lines k) + length (edit k) < INPUT_BUF_SIZE"
  shows "editor c (lines k, edit k) = (let d = (if c = 0x0d then 0x0a else c) in
    if ends_line d k then (lines k @ edit k @ [d], []) else (lines k, edit k @ [d]))"
  using assms by (simp add: editor_def ends_line_def Let_def)

section \<open>Properties\<close>

text \<open>
  C24: the console's line discipline. With the input buffer well formed, the console lock free and a device that
  accepts the echo, the interrupt handler returns for every input byte except control-P, keeps the buffer well formed
  (read index up to write index up to edit index, at most 128 bytes in all, no newline in the line being edited), and does to
  the committed input and the line being edited what the editor specification says: a byte is appended, a backspace removes the
  last one, control-U all of them, a newline, an end-of-file or the last free slot commits the line; input beyond 128 bytes is dropped. When it
  commits a line no reader is left asleep.
\<close>

theorem console_refines_editor:
  assumes "cons_ok (cons s)" and "c \<noteq> ctrl 0x50" and "\<not> panicked s" and "3 * INPUT_BUF_SIZE \<le> ready s"
    and "\<not> held s Cons_lock" and "\<forall>p. \<not> held s (Proc_lock p)"
  shows "\<exists>t. consoleintr c s = Ok () t \<and> cons_ok (cons t)
    \<and> (lines (cons t), edit (cons t)) = editor c (lines (cons s), edit (cons s))
    \<and> cons_r (cons t) = cons_r (cons s) \<and> held t = held s \<and> depth t = depth s \<and> mem t = mem s
    \<and> dev_st.more t = dev_st.more s
    \<and> (lines (cons t) \<noteq> lines (cons s) \<longrightarrow> no_sleeper Chan_cons_r t)"
proof -
  let ?k = "cons s" and ?s = "s\<lparr>held := (held s)(Cons_lock := True), depth := depth s + 1\<rparr>"
  have tot: "length (lines ?k) + length (edit ?k) \<le> INPUT_BUF_SIZE"
    using assms(1) cons_total [OF assms(1)] by (simp add: cons_ok_def)
  have rs: "ready ?s = ready s" by (simp add: ready_def)
  have pl: "plocks_free ?s" using assms(6) by (simp add: plocks_free_def)
  let ?body = "if c = ctrl 0x50 then procdump
        else if c = ctrl 0x55 then bind (gets (\<lambda>s. unat (cons_e (cons s) - cons_w (cons s)))) kill_line
        else if c = ctrl 0x48 \<or> c = 0x7f then
          bind (gets cons) (\<lambda>k.
          if cons_e k \<noteq> cons_w k then
            andthen (upd_cons (\<lambda>k. k\<lparr>cons_e := cons_e k - 1\<rparr>)) (consputc None)
          else ret ())
        else cons_default c"
  have fin: "?thesis" if b: "?body ?s = Ok () t" and h: "held t = held ?s" "depth t = depth ?s" "mem t = mem s" "dev_st.more t = dev_st.more s"
    and k: "cons_ok (cons t)" "(lines (cons t), edit (cons t)) = editor c (lines ?k, edit ?k)" "cons_r (cons t) = cons_r ?k"
      "lines (cons t) \<noteq> lines ?k \<longrightarrow> no_sleeper Chan_cons_r t" for t
  proof -
    let ?t = "t\<lparr>held := (held t)(Cons_lock := False), depth := depth t - 1\<rparr>"
    have hs: "(held s)(Cons_lock := False) = held s" using assms(5) by (rule held_same)
    have "consoleintr c s = Ok () ?t"
      unfolding consoleintr_def using b h(1,2) assms(5) by (simp add: exec_simps)
    moreover have "held ?t = held s" "depth ?t = depth s" using h(1,2) hs by simp_all
    moreover have "no_sleeper Chan_cons_r ?t = no_sleeper Chan_cons_r t" by (simp add: no_sleeper_def)
    ultimately show ?thesis using h(3,4) k by (intro exI [of _ ?t]) simp
  qed
  consider (kill) "c = ctrl 0x55" | (bsp) "c \<noteq> ctrl 0x55" "c = ctrl 0x48 \<or> c = 0x7f"
    | (skip) "c \<noteq> ctrl 0x55" "c \<noteq> ctrl 0x48" "c \<noteq> 0x7f" "c = 0 \<or> length (lines ?k) + length (edit ?k) = INPUT_BUF_SIZE"
    | (plain) "c \<noteq> ctrl 0x55" "c \<noteq> ctrl 0x48" "c \<noteq> 0x7f" "c \<noteq> 0" "length (lines ?k) + length (edit ?k) < INPUT_BUF_SIZE"
    using tot by linarith
  then show ?thesis
  proof cases
    case kill
    have "3 * length (edit (cons ?s)) \<le> ready ?s" using tot assms(4) rs by simp
    with kill_line_run [of ?s] assms(1,3) obtain t where t: "kill_line (length (edit ?k)) ?s = Ok () t" "echoed (?s\<lparr>cons := cons t\<rparr>) t"
      "cons_ok (cons t)" "lines (cons t) = lines ?k" "edit (cons t) = []" "cons_r (cons t) = cons_r ?k" by auto
    note f = echoed_fields [OF t(2)]
    show ?thesis
      by (rule fin [of t]) (use kill t f assms(2) in \<open>simp_all add: exec_simps editor_def edit_def\<close>)
  next
    case bsp
    show ?thesis
    proof (cases "edit ?k = []")
      case True
      then have "cons_e ?k = cons_w ?k" by (simp add: edit_empty)
      then show ?thesis
        using bsp assms(1,2) True by (intro fin [of ?s]) (simp_all add: exec_simps editor_def)
    next
      case False
      let ?u = "?s\<lparr>cons := unpush ?k\<rparr>"
      have ne: "cons_e ?k \<noteq> cons_w ?k" using False by (simp add: edit_empty)
      have "3 \<le> ready ?u" using assms(4) by (simp add: ready_def INPUT_BUF_SIZE_def)
      then obtain t where t: "consputc None ?u = Ok () t" "echoed ?u t" using consputc_run [of ?u None] assms(3) by auto
      note f = echoed_fields [OF t(2)]
      show ?thesis
        by (rule fin [of t]) (use bsp t f ne assms(2) unpush_ok [OF assms(1) False] in
          \<open>simp_all add: exec_simps editor_def upd_cons_def unpush_def\<close>)
    qed
  next
    case skip
    have "\<not> (c \<noteq> 0 \<and> unat (cons_e ?k - cons_r ?k) < INPUT_BUF_SIZE)" using skip cons_total [OF assms(1)] by auto
    then have "cons_default c ?s = Ok () ?s" by (auto simp: cons_default_def exec_simps)
    then show ?thesis using skip assms(1,2) by (intro fin [of ?s]) (auto simp: editor_def)
  next
    case plain
    define d where "d = (if c = 0x0d then 0x0a else c)"
    have ed: "editor c (lines ?k, edit ?k) = (if ends_line d ?k then (lines ?k @ edit ?k @ [d], []) else (lines ?k, edit ?k @ [d]))"
      using editor_default [OF plain] unfolding Let_def d_def .
    have "3 \<le> ready ?s" using assms(4) rs by (simp add: INPUT_BUF_SIZE_def)
    with cons_default_run [of ?s c] plain assms(1,3) pl obtain u where u: "echoed ?s u"
      "cons_default c ?s = Ok () (if ends_line d ?k then wake_upto NPROC Chan_cons_r (u\<lparr>cons := commit_line d ?k\<rparr>)
         else u\<lparr>cons := put d ?k\<rparr>)" unfolding d_def by auto
    note f = echoed_fields [OF u(1)]
    have fit: "length (lines ?k) + length (edit ?k) + 1 \<le> INPUT_BUF_SIZE" using plain(5) by simp
    show ?thesis
    proof (cases "ends_line d ?k")
      case True
      let ?t = "wake_upto NPROC Chan_cons_r (u\<lparr>cons := commit_line d ?k\<rparr>)"
      have "cons ?t = commit_line d ?k" "mem ?t = mem s" "dev_st.more ?t = dev_st.more s" using f by (simp_all add: wake_upto_def)
      then show ?thesis
        using True u(2) plain assms(2) f commit_ok [OF assms(1) fit, of d] wake_no_sleeper
        by (intro fin [of ?t]) (simp_all add: ed)
    next
      case False
      have "d \<noteq> 0x0a" using False by (auto simp: ends_line_def)
      then show ?thesis
        using False u(2) plain assms(2) f put_ok [OF assms(1) plain(5), of d] put_keep [OF assms(1) fit, of d]
        by (intro fin [of "u\<lparr>cons := put d ?k\<rparr>"]) (simp_all add: ed)
    qed
  qed
qed

definition cons_demo :: dev_st where
  "cons_demo = (dev_start ())\<lparr>uart := uart0\<lparr>lsr_idle := replicate 400 True\<rparr>, cons := cons0\<lparr>cbuf := (\<lambda>_. 0x61), cons_w := 2, cons_e := 3\<rparr>\<rparr>"

theorem console_refines_editor_witness:
  "\<exists>t. consoleintr 0x0d cons_demo = Ok () t \<and> lines (cons t) = [0x61, 0x61, 0x61, 0x0a] \<and> edit (cons t) = []"
proof -
  have k: "lines (cons cons_demo) = [0x61, 0x61]" "edit (cons cons_demo) = [0x61]"
    by (simp_all add: cons_demo_def cons0_def lines_def edit_def cons_ring.items_def upt_rec)
  have "cons_ok (cons cons_demo)" using k(2) by (simp add: cons_ok_def cons_demo_def cons0_def INPUT_BUF_SIZE_def)
  moreover have "3 * INPUT_BUF_SIZE \<le> ready cons_demo" by (simp add: cons_demo_def uart0_def ready_def INPUT_BUF_SIZE_def)
  moreover have "\<not> panicked cons_demo" "\<not> held cons_demo l" for l
    using dev_start_ok(1,7) [of "()"] by (simp_all add: cons_demo_def quiet_def)
  ultimately show ?thesis
    using console_refines_editor [of cons_demo "0x0d"] k by (auto simp: editor_def ctrl_def INPUT_BUF_SIZE_def Let_def)
qed

end
