(* ===== verification/Pipe.thy ===== *)
theory Pipe
  imports Console
begin

text \<open>
  Pipes (\<open>pipe.c\<close>): a ring of 512 bytes with free-running 32-bit counters. A pipe is named by the address of its page.
  A routine that has to wait leaves through \<open>Switch\<close> and continues with the loop given here.
\<close>

definition PIPESIZE :: nat where "PIPESIZE = 512"

record pipe =
  pdata :: bytes
  nread :: u32
  nwrite :: u32
  readopen :: bool
  writeopen :: bool

record pipe_st = dev_st +
  pipes :: "nat \<Rightarrow> pipe"

definition upd_pipe :: "nat \<Rightarrow> (pipe \<Rightarrow> pipe) \<Rightarrow> (unit, 'z pipe_st_scheme) kern" where
  "upd_pipe pi f = upd (\<lambda>s. s\<lparr>pipes := (pipes s)(pi := f (pipes s pi))\<rparr>)"

definition getp :: "nat \<Rightarrow> (pipe \<Rightarrow> 'a) \<Rightarrow> ('a, 'z pipe_st_scheme) kern" where
  "getp pi f = gets (\<lambda>s. f (pipes s pi))"

definition pipeclose :: "nat \<Rightarrow> bool \<Rightarrow> (unit, 'z pipe_st_scheme) kern" where
  "pipeclose pi writable =
     andthen (k_acquire (Pipe_lock pi)) (
     andthen
       (if writable then andthen (upd_pipe pi (\<lambda>p. p\<lparr>writeopen := False\<rparr>)) (wakeup (Chan_nread pi))
        else andthen (upd_pipe pi (\<lambda>p. p\<lparr>readopen := False\<rparr>)) (wakeup (Chan_nwrite pi))) (
     bind (getp pi id) (\<lambda>p.
     if \<not> readopen p \<and> \<not> writeopen p then
       andthen (k_release (Pipe_lock pi)) (kfree pi)
     else k_release (Pipe_lock pi))))"

definition pipewrite_end :: "nat \<Rightarrow> nat \<Rightarrow> (int, 'z pipe_st_scheme) kern" where
  "pipewrite_end pi i =
     andthen (wakeup (Chan_nread pi)) (
     andthen (k_release (Pipe_lock pi)) (
     ret (int i)))"

text \<open>The loop of \<open>pipewrite\<close>: \<open>i\<close> bytes written, \<open>k = n - i\<close> to go.\<close>

fun pipewrite_loop :: "nat \<Rightarrow> u64 \<Rightarrow> nat \<Rightarrow> nat \<Rightarrow> (int, 'z pipe_st_scheme) kern" where
  "pipewrite_loop pi addr i 0 = pipewrite_end pi i"
| "pipewrite_loop pi addr i (Suc k) =
     bind (getp pi id) (\<lambda>p.
     bind myproc (\<lambda>me. bind (is_killed me) (\<lambda>dead.
     if \<not> readopen p \<or> dead then andthen (k_release (Pipe_lock pi)) (ret (-1)) else
     if nwrite p = nread p + word_of_nat PIPESIZE then
       andthen (wakeup (Chan_nread pi)) (sleep_retry (Chan_nwrite pi) (Pipe_lock pi))
     else
       bind my_pagetable (\<lambda>pt.
       bind (copyin pt (addr + word_of_nat i) 1) (\<lambda>(e, bs).
       if e = -1 then pipewrite_end pi i else
       andthen (upd_pipe pi (\<lambda>p. p\<lparr>pdata := (pdata p)(unat (nwrite p) mod PIPESIZE := hd bs), nwrite := nwrite p + 1\<rparr>)) (
       pipewrite_loop pi addr (i + 1) k))))))"

definition pipewrite :: "nat \<Rightarrow> u64 \<Rightarrow> int \<Rightarrow> (int, 'z pipe_st_scheme) kern" where
  "pipewrite pi addr n = andthen (k_acquire (Pipe_lock pi)) (pipewrite_loop pi addr 0 (nat n))"

text \<open>The copying loop of \<open>piperead\<close>: \<open>i\<close> bytes copied, \<open>k = n - i\<close> to go; it returns the final \<open>i\<close>.\<close>

fun piperead_loop :: "nat \<Rightarrow> u64 \<Rightarrow> nat \<Rightarrow> nat \<Rightarrow> (nat, 'z pipe_st_scheme) kern" where
  "piperead_loop pi addr i 0 = ret i"
| "piperead_loop pi addr i (Suc k) =
     bind (getp pi id) (\<lambda>p.
     if nread p = nwrite p then ret i else
     andthen (upd_pipe pi (\<lambda>p. p\<lparr>nread := nread p + 1\<rparr>)) (
     bind my_pagetable (\<lambda>pt.
     bind (copyout pt (addr + word_of_nat i) [pdata p (unat (nread p) mod PIPESIZE)]) (\<lambda>e.
     if e = -1 then ret i else piperead_loop pi addr (i + 1) k))))"

text \<open>\<open>piperead\<close> after the lock is taken, and again after each wait.\<close>

definition piperead_wait :: "nat \<Rightarrow> u64 \<Rightarrow> int \<Rightarrow> (int, 'z pipe_st_scheme) kern" where
  "piperead_wait pi addr n =
     bind (getp pi id) (\<lambda>p.
     if nread p = nwrite p \<and> writeopen p then
       bind myproc (\<lambda>me. bind (is_killed me) (\<lambda>dead.
       if dead then andthen (k_release (Pipe_lock pi)) (ret (-1))
       else sleep_retry (Chan_nread pi) (Pipe_lock pi)))
     else
       bind (piperead_loop pi addr 0 (nat n)) (\<lambda>i.
       andthen (wakeup (Chan_nwrite pi)) (
       andthen (k_release (Pipe_lock pi)) (
       ret (int i)))))"

definition piperead :: "nat \<Rightarrow> u64 \<Rightarrow> int \<Rightarrow> (int, 'z pipe_st_scheme) kern" where
  "piperead pi addr n = andthen (k_acquire (Pipe_lock pi)) (piperead_wait pi addr n)"

section \<open>A pipe is a bounded queue of bytes\<close>

interpretation pipe_ring: ring_buffer PIPESIZE "TYPE(32)"
  by unfold_locales (simp_all add: PIPESIZE_def)

definition pcontents :: "pipe \<Rightarrow> byte list" where
  "pcontents p = pipe_ring.items (pdata p) (nread p) (nwrite p)"

definition pipe_ok :: "pipe \<Rightarrow> bool" where
  "pipe_ok p \<longleftrightarrow> length (pcontents p) \<le> PIPESIZE"

definition push :: "byte \<Rightarrow> pipe \<Rightarrow> pipe" where
  "push c p = p\<lparr>pdata := (pdata p)(unat (nwrite p) mod PIPESIZE := c), nwrite := nwrite p + 1\<rparr>"

lemma push_contents: "length (pcontents p) < PIPESIZE \<Longrightarrow> pcontents (push c p) = pcontents p @ [c]"
  by (simp add: pcontents_def push_def pipe_ring.items_push)

lemma push_fields [simp]: "readopen (push c p) = readopen p" "writeopen (push c p) = writeopen p" "nread (push c p) = nread p"
  by (simp_all add: push_def)

lemma push_all:
  "length (pcontents p) + length bs \<le> PIPESIZE \<Longrightarrow> pcontents (fold push bs p) = pcontents p @ bs"
  "readopen (fold push bs p) = readopen p" "writeopen (fold push bs p) = writeopen p"
  by (induction bs arbitrary: p) (simp_all add: push_contents)

lemma full_iff:
  assumes "pipe_ok p"
  shows "nwrite p = nread p + word_of_nat PIPESIZE \<longleftrightarrow> length (pcontents p) = PIPESIZE"
proof -
  have "nwrite p = nread p + word_of_nat PIPESIZE \<longleftrightarrow> nwrite p - nread p = word_of_nat PIPESIZE"
    by (auto simp: algebra_simps)
  also have "\<dots> \<longleftrightarrow> unat (nwrite p - nread p) = PIPESIZE"
    by (simp add: word_unat_eq_iff unat_of_nat PIPESIZE_def)
  finally show ?thesis by (simp add: pcontents_def)
qed

lemma empty_iff: "nread p = nwrite p \<longleftrightarrow> pcontents p = []"
  by (simp add: pcontents_def pipe_ring.items_Nil_iff)

section \<open>Writing\<close>

definition writer_ok :: "nat \<Rightarrow> nat \<Rightarrow> 'z pipe_st_scheme \<Rightarrow> bool" where
  "writer_ok pi me s \<longleftrightarrow> curp s = Some me \<and> plocks_free s \<and> held s (Pipe_lock pi) \<and> depth s = 1
     \<and> user_ok s (pagetable (procs s me)) \<and> pipe_ok (pipes s pi)"

definition pushed :: "nat \<Rightarrow> byte list \<Rightarrow> 'z pipe_st_scheme \<Rightarrow> 'z pipe_st_scheme" where
  "pushed pi bs s = s\<lparr>pipes := (pipes s)(pi := fold push bs (pipes s pi))\<rparr>"

lemma pushed_Nil: "pushed pi [] s = s"
  by (simp add: pushed_def)

lemma pushed_Cons: "pushed pi (c # bs) s = pushed pi bs (pushed pi [c] s)"
  by (simp add: pushed_def)

lemma pushed_fields [simp]:
  "held (pushed pi bs s) = held s" "depth (pushed pi bs s) = depth s" "curp (pushed pi bs s) = curp s"
  "procs (pushed pi bs s) = procs s" "mem (pushed pi bs s) = mem s" "freelist (pushed pi bs s) = freelist s" "lay (pushed pi bs s) = lay s"
  "pipes (pushed pi bs s) pi = fold push bs (pipes s pi)" "q \<noteq> pi \<Longrightarrow> pipes (pushed pi bs s) q = pipes s q"
  by (simp_all add: pushed_def)

lemma writer_ok_pushed:
  "writer_ok pi me s \<Longrightarrow> length (pcontents (pipes s pi)) + length bs \<le> PIPESIZE \<Longrightarrow> writer_ok pi me (pushed pi bs s)"
  using user_ok_cong [of "pushed pi bs s" s]
  by (simp add: writer_ok_def plocks_free_def pipe_ok_def push_all)

lemma pipewrite_step:
  assumes w: "writer_ok pi me s" and o: "readopen (pipes s pi)" "\<not> killed (procs s me)"
    and room: "length (pcontents (pipes s pi)) < PIPESIZE"
    and c: "ubyte s (pagetable (procs s me)) (addr + word_of_nat i) = Some c" "unat addr + i < 2 ^ 38"
  shows "pipewrite_loop pi addr i (Suc k) s = pipewrite_loop pi addr (i + 1) k (pushed pi [c] s)"
proof -
  have "copyin (word_of_nat (pagetable (procs s me))) (addr + word_of_nat i) 1 s = Ok (0, [c]) s"
    using w c by (intro copyin_byte) (simp_all add: writer_ok_def unat_add_small)
  moreover have "nwrite (pipes s pi) \<noteq> nread (pipes s pi) + word_of_nat PIPESIZE"
    using full_iff [of "pipes s pi"] w room by (simp add: writer_ok_def)
  ultimately show ?thesis
    using w o by (simp add: exec_simps getp_def upd_pipe_def writer_ok_def plocks_free_def pushed_def push_def)
qed

lemma pipewrite_fill:
  assumes "writer_ok pi me s" and "readopen (pipes s pi)" "\<not> killed (procs s me)"
    and "length (pcontents (pipes s pi)) + length bs \<le> PIPESIZE"
    and "\<forall>j < length bs. unat addr + (i + j) < 2 ^ 38 \<and> ubyte s (pagetable (procs s me)) (addr + word_of_nat (i + j)) = Some (bs ! j)"
  shows "pipewrite_loop pi addr i (length bs + k) s = pipewrite_loop pi addr (i + length bs) k (pushed pi bs s)"
  using assms
proof (induction bs arbitrary: i s)
  case Nil
  then show ?case by (simp add: pushed_Nil)
next
  case (Cons c bs)
  let ?t = "pushed pi [c] s"
  have room: "length (pcontents (pipes s pi)) < PIPESIZE" using Cons.prems by simp
  have "pipewrite_loop pi addr i (Suc (length bs + k)) s = pipewrite_loop pi addr (i + 1) (length bs + k) ?t"
    using Cons.prems(5) [rule_format, of 0] by (intro pipewrite_step [OF Cons.prems(1-3) room]) simp_all
  also have "\<dots> = pipewrite_loop pi addr (i + 1 + length bs) k (pushed pi bs ?t)"
  proof (rule Cons.IH)
    show "writer_ok pi me ?t" using room by (intro writer_ok_pushed [OF Cons.prems(1)]) simp
    show "\<forall>j < length bs. unat addr + (i + 1 + j) < 2 ^ 38 \<and> ubyte ?t (pagetable (procs ?t me)) (addr + word_of_nat (i + 1 + j)) = Some (bs ! j)"
    proof (intro allI impI)
      fix j assume "j < length bs"
      then show "unat addr + (i + 1 + j) < 2 ^ 38 \<and> ubyte ?t (pagetable (procs ?t me)) (addr + word_of_nat (i + 1 + j)) = Some (bs ! j)"
        using Cons.prems(5) [rule_format, of "Suc j"] by (simp add: ubyte_cong [of ?t s])
    qed
  qed (use Cons.prems room in \<open>simp_all add: push_contents\<close>)
  finally show ?case by (simp add: pushed_Cons [of pi c bs])
qed

lemma wake_pipes [simp]: "pipes (wake_upto n c s) = pipes s"
  by (simp add: wake_upto_def)

lemma pipewrite_end_run:
  "writer_ok pi me s \<Longrightarrow> pipewrite_end pi i s =
     Ok (int i) ((wake_upto NPROC (Chan_nread pi) s)\<lparr>held := (held s)(Pipe_lock pi := False), depth := 0\<rparr>)"
  by (simp add: pipewrite_end_def writer_ok_def exec_simps)

lemma pipewrite_blocks:
  assumes "writer_ok pi me s" and "readopen (pipes s pi)" "\<not> killed (procs s me)" and "length (pcontents (pipes s pi)) = PIPESIZE"
  defines "w \<equiv> wake_upto NPROC (Chan_nread pi) s"
  shows "pipewrite_loop pi addr i (Suc k) s = Switch (w\<lparr>held := (held s)(Proc_lock me := True, Pipe_lock pi := False),
     procs := (procs w)(me := (procs w me)\<lparr>chan := Chan_nwrite pi, state := SLEEPING\<rparr>)\<rparr>)"
proof -
  have f: "nwrite (pipes s pi) = nread (pipes s pi) + word_of_nat PIPESIZE"
    using full_iff [of "pipes s pi"] assms(1,4) by (simp add: writer_ok_def)
  then show ?thesis
    using assms(1-3) by (simp add: exec_simps getp_def sleep_retry_def writer_ok_def plocks_free_def w_def)
qed

section \<open>Reading\<close>

definition pop :: "pipe \<Rightarrow> pipe" where
  "pop p = p\<lparr>nread := nread p + 1\<rparr>"

lemma pop_contents: "pcontents p \<noteq> [] \<Longrightarrow> pcontents p = pdata p (unat (nread p) mod PIPESIZE) # pcontents (pop p)"
  using pipe_ring.items_pop [of "nread p" "nwrite p" "pdata p"] empty_iff [of p] by (simp add: pcontents_def pop_def)

definition reader_ok :: "nat \<Rightarrow> nat \<Rightarrow> 'z pipe_st_scheme \<Rightarrow> bool" where
  "reader_ok pt me s \<longleftrightarrow> curp s = Some me \<and> pagetable (procs s me) = pt \<and> user_ok s pt"

definition same_but :: "nat \<Rightarrow> 'z pipe_st_scheme \<Rightarrow> 'z pipe_st_scheme \<Rightarrow> bool" where
  "same_but pi s t \<longleftrightarrow> t = s\<lparr>mem := mem t, pipes := pipes t\<rparr> \<and> (\<forall>q. q \<noteq> pi \<longrightarrow> pipes t q = pipes s q)"

lemma same_but_fields:
  assumes "same_but pi s t"
  shows "held t = held s" "depth t = depth s" "curp t = curp s" "procs t = procs s"
proof -
  have t: "t = s\<lparr>mem := mem t, pipes := pipes t\<rparr>" using assms by (simp add: same_but_def)
  show "held t = held s" "depth t = depth s" "curp t = curp s" "procs t = procs s"
    using arg_cong [OF t, of held] arg_cong [OF t, of depth] arg_cong [OF t, of curp] arg_cong [OF t, of procs] by simp_all
qed

lemma piperead_copies:
  assumes "reader_ok pt me s" and "\<forall>j < k. unat addr + (i + j) < 2 ^ 38 \<and> uwritable s pt (addr + word_of_nat (i + j))"
  shows "\<exists>t. piperead_loop pi addr i k s = Ok (i + min k (length (pcontents (pipes s pi)))) t \<and> same_but pi s t \<and> reader_ok pt me t
    \<and> pcontents (pipes t pi) = drop k (pcontents (pipes s pi))
    \<and> (\<forall>j < min k (length (pcontents (pipes s pi))). ubyte t pt (addr + word_of_nat (i + j)) = Some (pcontents (pipes s pi) ! j))
    \<and> (\<forall>y. (\<forall>j < min k (length (pcontents (pipes s pi))). y \<noteq> addr + word_of_nat (i + j)) \<longrightarrow> ubyte t pt y = ubyte s pt y)
    \<and> readopen (pipes t pi) = readopen (pipes s pi) \<and> writeopen (pipes t pi) = writeopen (pipes s pi)"
  using assms
proof (induction k arbitrary: i s)
  case 0
  then show ?case by (intro exI [of _ s]) (simp add: exec_simps same_but_def)
next
  case (Suc k)
  let ?p = "pipes s pi"
  show ?case
  proof (cases "pcontents ?p = []")
    case True
    then show ?thesis using Suc.prems empty_iff [of ?p]
      by (intro exI [of _ s]) (simp add: exec_simps getp_def same_but_def)
  next
    case False
    let ?c = "pdata ?p (unat (nread ?p) mod PIPESIZE)" and ?s = "s\<lparr>pipes := (pipes s)(pi := pop ?p)\<rparr>"
    have cs: "pcontents ?p = ?c # pcontents (pop ?p)" by (rule pop_contents) (rule False)
    have a: "unat addr + i < 2 ^ 38" "uwritable s pt (addr + word_of_nat i)" using Suc.prems(2) [rule_format, of 0] by simp_all
    have r: "reader_ok pt me ?s" using Suc.prems(1) user_ok_cong [of ?s s pt] by (simp add: reader_ok_def)
    obtain t where t: "copyout (word_of_nat pt) (addr + word_of_nat i) [?c] ?s = Ok 0 t" "t = ?s\<lparr>mem := mem t\<rparr>" "user_ok t pt"
        "ubyte t pt (addr + word_of_nat i) = Some ?c" "\<forall>y. y \<noteq> addr + word_of_nat i \<longrightarrow> ubyte t pt y = ubyte ?s pt y"
        "\<forall>y. uwritable t pt y = uwritable ?s pt y"
      using copyout_byte [of ?s pt "addr + word_of_nat i" ?c] a r unat_add_small [OF a(1)] uwritable_cong [of ?s s pt]
      by (auto simp: reader_ok_def)
    have pt: "pipes t = (pipes s)(pi := pop ?p)" "procs t = procs s" "curp t = curp s" by (subst t(2), simp)+
    have rt: "reader_ok pt me t" using r t(3) pt by (simp add: reader_ok_def)
    have w: "\<forall>j < k. unat addr + (Suc i + j) < 2 ^ 38 \<and> uwritable t pt (addr + word_of_nat (Suc i + j))"
    proof (intro allI impI)
      fix j assume "j < k"
      then show "unat addr + (Suc i + j) < 2 ^ 38 \<and> uwritable t pt (addr + word_of_nat (Suc i + j))"
        using Suc.prems(2) [rule_format, of "Suc j"] t(6) uwritable_cong [of ?s s pt] by simp
    qed
    from Suc.IH [OF rt w] obtain u where u: "piperead_loop pi addr (Suc i) k t = Ok (Suc i + min k (length (pcontents (pop ?p)))) u"
        "same_but pi t u" "reader_ok pt me u" "pcontents (pipes u pi) = drop k (pcontents (pop ?p))"
        "\<forall>j < min k (length (pcontents (pop ?p))). ubyte u pt (addr + word_of_nat (Suc i + j)) = Some (pcontents (pop ?p) ! j)"
        "\<forall>y. (\<forall>j < min k (length (pcontents (pop ?p))). y \<noteq> addr + word_of_nat (Suc i + j)) \<longrightarrow> ubyte u pt y = ubyte t pt y"
        "readopen (pipes u pi) = readopen (pop ?p)" "writeopen (pipes u pi) = writeopen (pop ?p)"
      unfolding pt by auto
    have ne: "nread ?p \<noteq> nwrite ?p" using False by (simp add: empty_iff)
    have run: "piperead_loop pi addr i (Suc k) s = Ok (Suc i + min k (length (pcontents (pop ?p)))) u"
      using ne u(1) t(1) Suc.prems(1) by (simp add: exec_simps getp_def upd_pipe_def reader_ok_def pop_def)
    let ?m = "min k (length (pcontents (pop ?p)))"
    have m: "min (Suc k) (length (pcontents ?p)) = Suc ?m" by (subst cs) simp
    have d: "addr + word_of_nat i \<noteq> addr + word_of_nat (Suc i + j)" if "j < ?m" for j
    proof -
      have "unat (addr + word_of_nat (Suc i + j)) = unat addr + (Suc i + j)" using w that by (intro unat_add_small) simp
      then have "unat (addr + word_of_nat i) \<noteq> unat (addr + word_of_nat (Suc i + j))" unfolding unat_add_small [OF a(1)] by linarith
      then show ?thesis by metis
    qed
    have um: "u = t\<lparr>mem := mem u, pipes := pipes u\<rparr>" "\<forall>q. q \<noteq> pi \<longrightarrow> pipes u q = pipes t q" using u(2) by (simp_all add: same_but_def)
    have "u = s\<lparr>mem := mem u, pipes := pipes u\<rparr>" by (subst um(1), subst t(2)) simp
    then have sb: "same_but pi s u" using um(2) pt(1) by (simp add: same_but_def)
    show ?thesis
    proof (intro exI [of _ u] conjI allI impI)
      show "piperead_loop pi addr i (Suc k) s = Ok (i + min (Suc k) (length (pcontents ?p))) u" using run m by simp
      show "pcontents (pipes u pi) = drop (Suc k) (pcontents ?p)" by (subst cs) (simp add: u(4))
    next
      fix j assume "j < min (Suc k) (length (pcontents ?p))"
      then have j: "j < Suc ?m" using m by simp
      show "ubyte u pt (addr + word_of_nat (i + j)) = Some (pcontents ?p ! j)"
      proof (cases j)
        case 0
        then show ?thesis using u(6) [rule_format, of "addr + word_of_nat i"] d t(4) by (subst cs) simp
      next
        case (Suc l)
        then show ?thesis using u(5) [rule_format, of l] j by (subst cs) simp
      qed
    next
      fix y assume y: "\<forall>j < min (Suc k) (length (pcontents ?p)). y \<noteq> addr + word_of_nat (i + j)"
      have "ubyte u pt y = ubyte t pt y"
      proof (rule u(6) [rule_format])
        fix j assume "j < ?m"
        then show "y \<noteq> addr + word_of_nat (Suc i + j)" using y [rule_format, of "Suc j"] m by simp
      qed
      moreover have "ubyte t pt y = ubyte ?s pt y" using t(5) y [rule_format, of 0] m by simp
      ultimately show "ubyte u pt y = ubyte s pt y" using ubyte_cong [of ?s s pt y] by simp
    qed (use sb u(3,7,8) in \<open>simp_all add: pop_def\<close>)
  qed
qed

section \<open>Properties\<close>

text \<open>
  C28: a pipe is a first-in first-out queue of at most 512 bytes, written without losing or reordering anything. When the
  reading end is open and the writer is not killed, \<open>pipewrite\<close> appends the bytes of the user's buffer in order: all of them,
  and returns their number, when there is room; otherwise it fills the pipe and goes to sleep on \<open>nwrite\<close>, with the pipe's lock
  free, to continue with the remaining bytes. Either way every process that sleeps waiting to read has been made runnable, and
  no other pipe and no memory is changed.
\<close>

theorem pipewrite_fifo:
  assumes "quiet s" and "curp s = Some me" and "user_ok s (pagetable (procs s me))"
    and "user_bytes s (pagetable (procs s me)) addr bs"
    and "pipe_ok (pipes s pi)" and "readopen (pipes s pi)" and "\<not> killed (procs s me)"
  shows "let room = PIPESIZE - length (pcontents (pipes s pi)) in
    \<exists>t. pcontents (pipes t pi) = pcontents (pipes s pi) @ take room bs \<and> pipe_ok (pipes t pi)
      \<and> (\<forall>q. q \<noteq> pi \<longrightarrow> pipes t q = pipes s q) \<and> mem t = mem s \<and> no_sleeper (Chan_nread pi) t
      \<and> (if length bs \<le> room then pipewrite pi addr (int (length bs)) s = Ok (int (length bs)) t \<and> quiet t
         else pipewrite pi addr (int (length bs)) s = Switch t \<and> held t = (\<lambda>l. l = Proc_lock me)
           \<and> state (procs t me) = SLEEPING \<and> chan (procs t me) = Chan_nwrite pi)"
proof -
  let ?c = "pcontents (pipes s pi)" and ?s = "s\<lparr>held := (held s)(Pipe_lock pi := True), depth := 1\<rparr>"
  define room where "room = PIPESIZE - length ?c"
  let ?bs = "take room bs"
  let ?u = "pushed pi ?bs ?s"
  have le: "length ?c \<le> PIPESIZE" using assms(5) by (simp add: pipe_ok_def)
  have w: "writer_ok pi me ?s" using assms user_ok_cong [of ?s s] by (simp add: writer_ok_def plocks_free_def)
  have fit: "length (pcontents (pipes ?s pi)) + length ?bs \<le> PIPESIZE" using le by (simp add: room_def)
  have b: "\<forall>j < length ?bs. unat addr + (0 + j) < 2 ^ 38 \<and> ubyte ?s (pagetable (procs ?s me)) (addr + word_of_nat (0 + j)) = Some (?bs ! j)"
    using assms(4) ubyte_cong [of ?s s] by (simp add: user_bytes_def)
  have wu: "writer_ok pi me ?u" by (rule writer_ok_pushed [OF w fit])
  have cu: "pcontents (fold push ?bs (pipes s pi)) = ?c @ ?bs" using push_all(1) [of "pipes s pi" ?bs] fit by simp
  have lb: "length bs = length ?bs + (length bs - room)" by simp
  have run: "pipewrite pi addr (int (length bs)) s = pipewrite_loop pi addr (length ?bs) (length bs - room) ?u"
  proof -
    have "pipewrite pi addr (int (length bs)) s = pipewrite_loop pi addr 0 (length ?bs + (length bs - room)) ?s"
      using assms(1) lb by (simp add: pipewrite_def exec_simps)
    then show ?thesis using pipewrite_fill [OF w _ _ fit b, of "length bs - room"] assms(6,7) by simp
  qed
  show ?thesis
  proof (cases "length bs \<le> room")
    case True
    let ?t = "(wake_upto NPROC (Chan_nread pi) ?u)\<lparr>held := (held ?u)(Pipe_lock pi := False), depth := 0\<rparr>"
    have "pipewrite pi addr (int (length bs)) s = Ok (int (length bs)) ?t"
      using run True pipewrite_end_run [OF wu] by simp
    moreover have "no_sleeper (Chan_nread pi) ?t"
      using wake_no_sleeper [of "Chan_nread pi" ?u] by (simp add: no_sleeper_def)
    moreover have "quiet ?t" using assms(2) quiet_held [OF assms(1)] by (simp add: quiet_def)
    ultimately show ?thesis
      using True cu fit unfolding room_def [symmetric] Let_def by (intro exI [of _ ?t]) (simp add: pipe_ok_def)
  next
    case False
    then obtain k where k: "length bs - room = Suc k" by (metis Suc_diff_Suc not_le)
    let ?w = "wake_upto NPROC (Chan_nread pi) ?u"
    let ?t = "?w\<lparr>held := (held ?u)(Proc_lock me := True, Pipe_lock pi := False),
       procs := (procs ?w)(me := (procs ?w me)\<lparr>chan := Chan_nwrite pi, state := SLEEPING\<rparr>)\<rparr>"
    have full: "length (pcontents (pipes ?u pi)) = PIPESIZE" using cu False le by (simp add: room_def)
    have "pipewrite pi addr (int (length bs)) s = Switch ?t"
      unfolding run k by (rule pipewrite_blocks [OF wu _ _ full]) (use assms(6,7) push_all in simp_all)
    moreover have "no_sleeper (Chan_nread pi) ?t"
      using wake_no_sleeper [of "Chan_nread pi" ?u] assms(2) by (auto simp: no_sleeper_def)
    moreover have "held ?t = (\<lambda>l. l = Proc_lock me)" by (rule ext) (simp add: quiet_held [OF assms(1)])
    ultimately show ?thesis
      using False cu fit unfolding room_def [symmetric] Let_def by (intro exI [of _ ?t]) (simp add: pipe_ok_def)
  qed
qed

text \<open>
  C29: reading takes the oldest bytes first. When the pipe is not empty, or has no writer left, \<open>piperead\<close> copies the first
  \<open>min(n, available)\<close> bytes to the user's buffer, removes exactly those from the pipe, makes every waiting writer runnable and
  returns their number, which is 0 at end of file; no other user byte changes. When the pipe is empty and still has a
  writer, it returns -1 to a killed process, and otherwise sleeps on \<open>nread\<close> with the pipe's lock free.
\<close>

theorem piperead_fifo:
  assumes "quiet s" and "curp s = Some me" and "user_ok s pt" and "pagetable (procs s me) = pt"
    and "\<forall>j < n. unat addr + j < 2 ^ 38 \<and> uwritable s pt (addr + word_of_nat j)"
  shows "let c = pcontents (pipes s pi) in if c = [] \<and> writeopen (pipes s pi)
    then (if killed (procs s me) then piperead pi addr (int n) s = Ok (-1) s
          else \<exists>t. piperead pi addr (int n) s = Switch t \<and> pipes t = pipes s \<and> mem t = mem s \<and> held t = (\<lambda>l. l = Proc_lock me)
            \<and> state (procs t me) = SLEEPING \<and> chan (procs t me) = Chan_nread pi)
    else \<exists>t. piperead pi addr (int n) s = Ok (int (min n (length c))) t \<and> quiet t
        \<and> pcontents (pipes t pi) = drop n c \<and> (\<forall>q. q \<noteq> pi \<longrightarrow> pipes t q = pipes s q)
        \<and> user_bytes t pt addr (take n c) \<and> user_ok t pt
        \<and> (\<forall>y. (\<forall>j < min n (length c). y \<noteq> addr + word_of_nat j) \<longrightarrow> ubyte t pt y = ubyte s pt y)
        \<and> no_sleeper (Chan_nwrite pi) t"
proof -
  let ?s = "s\<lparr>held := (held s)(Pipe_lock pi := True), depth := 1\<rparr>"
  define c where "c = pcontents (pipes s pi)"
  have run: "piperead pi addr (int n) s = piperead_wait pi addr (int n) ?s"
    using assms(1) by (simp add: piperead_def exec_simps)
  show ?thesis
  proof (cases "c = [] \<and> writeopen (pipes s pi)")
    case True
    then have e: "nread (pipes s pi) = nwrite (pipes s pi)" by (simp add: empty_iff c_def)
    have same: "s\<lparr>held := held s, depth := 0\<rparr> = s" using assms(1) by (simp add: quiet_def)
    show ?thesis
    proof (cases "killed (procs s me)")
      case k: True
      then have "piperead pi addr (int n) s = Ok (-1) s"
        unfolding run using e True assms(1,2) same by (simp add: piperead_wait_def getp_def exec_simps)
      then show ?thesis using True k by (simp add: c_def [symmetric])
    next
      case k: False
      then have "piperead pi addr (int n) s = Switch (?s\<lparr>held := (held s)(Pipe_lock pi := True, Proc_lock me := True, Pipe_lock pi := False),
         procs := (procs s)(me := (procs s me)\<lparr>chan := Chan_nread pi, state := SLEEPING\<rparr>)\<rparr>)" (is "_ = Switch ?t")
        unfolding run using e True assms(1,2) by (simp add: piperead_wait_def getp_def exec_simps sleep_retry_def)
      moreover have "held ?t = (\<lambda>l. l = Proc_lock me)" by (rule ext) (simp add: quiet_held [OF assms(1)])
      ultimately show ?thesis using True k by (auto simp: c_def [symmetric])
    qed
  next
    case False
    then have ne: "\<not> (nread (pipes s pi) = nwrite (pipes s pi) \<and> writeopen (pipes s pi))" by (simp add: empty_iff c_def)
    have r: "reader_ok pt me ?s" using assms(2-4) user_ok_cong [of ?s s pt] assms(1) by (simp add: reader_ok_def)
    have wr: "\<forall>j < n. unat addr + (0 + j) < 2 ^ 38 \<and> uwritable ?s pt (addr + word_of_nat (0 + j))"
      using assms(5) uwritable_cong [of ?s s pt] by simp
    from piperead_copies [OF r wr, of pi] obtain t where
      t: "piperead_loop pi addr 0 n ?s = Ok (min n (length c)) t" "same_but pi ?s t" "reader_ok pt me t"
        "pcontents (pipes t pi) = drop n c" "\<forall>j < min n (length c). ubyte t pt (addr + word_of_nat j) = Some (c ! j)"
        "\<forall>y. (\<forall>j < min n (length c). y \<noteq> addr + word_of_nat j) \<longrightarrow> ubyte t pt y = ubyte s pt y"
      using ubyte_cong [of ?s s pt] by (auto simp: c_def)
    have th: "held t = (held s)(Pipe_lock pi := True)" "depth t = 1" "curp t = curp s"
      using same_but_fields [OF t(2)] by simp_all
    let ?w = "wake_upto NPROC (Chan_nwrite pi) t"
    let ?t = "?w\<lparr>held := (held t)(Pipe_lock pi := False), depth := 0\<rparr>"
    have "plocks_free t" using th(1) assms(1) by (simp add: plocks_free_def)
    then have "piperead pi addr (int n) s = Ok (int (min n (length c))) ?t"
      unfolding run using ne t(1) th by (auto simp: piperead_wait_def getp_def exec_simps)
    moreover have "quiet ?t" using th assms(2) quiet_held [OF assms(1)] by (simp add: quiet_def)
    moreover have "user_bytes ?t pt addr (take n c)"
      using t(5) assms(5) ubyte_cong [of ?t t pt] by (simp add: user_bytes_def)
    moreover have "user_ok ?t pt" using t(3) user_ok_cong [of ?t t pt] th(1) by (simp add: reader_ok_def)
    moreover have "\<forall>y. (\<forall>j < min n (length c). y \<noteq> addr + word_of_nat j) \<longrightarrow> ubyte ?t pt y = ubyte s pt y"
      using t(6) ubyte_cong [of ?t t pt] by simp
    moreover have "no_sleeper (Chan_nwrite pi) ?t"
      using wake_no_sleeper [of "Chan_nwrite pi" t] by (simp add: no_sleeper_def)
    moreover have "\<forall>q. q \<noteq> pi \<longrightarrow> pipes ?t q = pipes s q" using t(2) by (simp add: same_but_def)
    ultimately show ?thesis using False t(4) unfolding c_def [symmetric] Let_def if_not_P [OF False] by (intro exI [of _ ?t]) simp
  qed
qed

section \<open>Witnesses\<close>

definition pipe_demo :: pipe_st where
  "pipe_demo = dev_start \<lparr>pipes = (\<lambda>_. \<lparr>pdata = (\<lambda>_. 7), nread = 0, nwrite = 1, readopen = True, writeopen = True\<rparr>)\<rparr>"

lemma pipe_demo_ok: "quiet pipe_demo" "curp pipe_demo = Some 0" "user_ok pipe_demo 0x80030000" "procs pipe_demo 0 = run_proc"
  "pcontents (pipes pipe_demo pi) = [7]" "readopen (pipes pipe_demo pi)"
  by (simp_all add: pipe_demo_def dev_start_ok) (simp_all add: dev_start_def fs_start_def bio_start_def pcontents_def pipe_ring.items_def)

lemma demo_addr: "i < 64 \<Longrightarrow> unat (0x10 + word_of_nat i :: u64) = 16 + i"
  by (simp add: unat_word_ariths unat_of_nat)

theorem pipewrite_fifo_witness:
  "\<exists>t. pipewrite 5 0x10 2 pipe_demo = Ok 2 t \<and> pcontents (pipes t 5) = [7, 0, 0]"
proof -
  have "user_bytes pipe_demo 0x80030000 0x10 [0, 0]"
    by (auto simp: user_bytes_def pipe_demo_def dev_start_def fs_start_user demo_addr less_Suc_eq)
  with pipewrite_fifo [of pipe_demo 0 "0x10" "[0, 0]" 5] pipe_demo_ok show ?thesis
    by (auto simp: pipe_ok_def PIPESIZE_def)
qed

theorem piperead_fifo_witness:
  "\<exists>t. piperead 5 0x10 4 pipe_demo = Ok 1 t \<and> pcontents (pipes t 5) = [] \<and> ubyte t 0x80030000 0x10 = Some 7"
proof -
  have "\<forall>j < 4. unat (0x10 :: u64) + j < 2 ^ 38 \<and> uwritable pipe_demo 0x80030000 (0x10 + word_of_nat j)"
    by (auto simp: pipe_demo_def dev_start_def fs_start_user demo_addr)
  with piperead_fifo [of pipe_demo 0 "0x80030000" 4 "0x10" 5] pipe_demo_ok show ?thesis
    by (auto simp: user_bytes_def)
qed

end
