(* ===== verification/File.thy ===== *)
theory File
  imports Pipe
begin

text \<open>
  Open files (\<open>file.c\<close>): the table of reference-counted file structures, and reading, writing, closing and
  inspecting a file, which dispatch to pipes, devices and inodes. \<open>pipealloc\<close> and \<open>consoleinit\<close>, which touch the
  file table and the device switch, are here too. A file pointer is an index into \<open>ftable.file\<close>.
\<close>

definition NFILE :: nat where "NFILE = 100"
definition NDEV :: int where "NDEV = 10"
definition CONSOLE :: int where "CONSOLE = 1"

datatype fd_type = FD_NONE | FD_PIPE | FD_INODE | FD_DEVICE

record file_obj =
  ftype :: fd_type
  fref :: int
  readable :: bool
  writable :: bool
  fpipe :: nat
  fip :: "nat option"
  foff :: nat
  fmajor :: int

text \<open>The only driver of the kernel; a null function pointer is \<open>None\<close>.\<close>

datatype driver = Console_driver

record devsw_entry =
  dev_read :: "driver option"
  dev_write :: "driver option"

record file_st = pipe_st +
  files :: "nat \<Rightarrow> file_obj"
  devsw :: "int \<Rightarrow> devsw_entry"

definition upd_file :: "nat \<Rightarrow> (file_obj \<Rightarrow> file_obj) \<Rightarrow> (unit, 'z file_st_scheme) kern" where
  "upd_file f g = upd (\<lambda>s. s\<lparr>files := (files s)(f := g (files s f))\<rparr>)"

definition getf :: "nat \<Rightarrow> (file_obj \<Rightarrow> 'a) \<Rightarrow> ('a, 'z file_st_scheme) kern" where
  "getf f g = gets (\<lambda>s. g (files s f))"

definition consoleinit :: "(unit, 'z file_st_scheme) kern" where
  "consoleinit =
     andthen uartinit (
     andthen (upd (\<lambda>s. s\<lparr>devsw := (devsw s)(CONSOLE := (devsw s CONSOLE)\<lparr>dev_read := Some Console_driver\<rparr>)\<rparr>)) (
     upd (\<lambda>s. s\<lparr>devsw := (devsw s)(CONSOLE := (devsw s CONSOLE)\<lparr>dev_write := Some Console_driver\<rparr>)\<rparr>)))"

section \<open>The file table\<close>

definition file_free :: "(nat \<Rightarrow> file_obj) \<Rightarrow> nat option" where
  "file_free F = List.find (\<lambda>f. fref (F f) = 0) [0..<NFILE]"

definition filealloc :: "(nat option, 'z file_st_scheme) kern" where
  "filealloc =
     andthen (k_acquire Ftable_lock) (
     bind (gets files) (\<lambda>F.
     case file_free F of
       Some f \<Rightarrow>
         andthen (upd_file f (\<lambda>g. g\<lparr>fref := 1\<rparr>)) (
         andthen (k_release Ftable_lock) (
         ret (Some f)))
     | None \<Rightarrow> andthen (k_release Ftable_lock) (ret None)))"

definition filedup :: "nat \<Rightarrow> (nat, 'z file_st_scheme) kern" where
  "filedup f =
     andthen (k_acquire Ftable_lock) (
     bind (getf f fref) (\<lambda>r.
     if r < 1 then panic ''filedup'' else
     andthen (upd_file f (\<lambda>g. g\<lparr>fref := wrap32 (fref g + 1)\<rparr>)) (
     andthen (k_release Ftable_lock) (
     ret f))))"

definition the_ip :: "nat option \<Rightarrow> (nat, 'z file_st_scheme) kern" where
  "the_ip ipo = (case ipo of None \<Rightarrow> panic ''kerneltrap'' | Some ip \<Rightarrow> ret ip)"

definition fileclose :: "nat \<Rightarrow> (unit, 'z file_st_scheme) kern" where
  "fileclose f =
     andthen (k_acquire Ftable_lock) (
     bind (getf f fref) (\<lambda>r.
     if r < 1 then panic ''fileclose'' else
     andthen (upd_file f (\<lambda>g. g\<lparr>fref := wrap32 (fref g - 1)\<rparr>)) (
     bind (getf f id) (\<lambda>ff.
     if fref ff > 0 then k_release Ftable_lock else
     andthen (upd_file f (\<lambda>g. g\<lparr>fref := 0\<rparr>)) (
     andthen (upd_file f (\<lambda>g. g\<lparr>ftype := FD_NONE\<rparr>)) (
     andthen (k_release Ftable_lock) (
     if ftype ff = FD_PIPE then pipeclose (fpipe ff) (writable ff)
     else if ftype ff = FD_INODE \<or> ftype ff = FD_DEVICE then
       andthen begin_op (
       bind (the_ip (fip ff)) (\<lambda>ip.
       andthen (iput ip) (
       end_op)))
     else ret ())))))))"

section \<open>Metadata, reading, writing\<close>

text \<open>\<open>struct stat\<close> as bytes; the four bytes of padding before \<open>size\<close> are zero here.\<close>

definition stat_bytes :: "stat_info \<Rightarrow> byte list" where
  "stat_bytes st = le_enc 4 (st_dev st) @ le_enc 4 (st_ino st) @ le_enc 2 (nat16 (st_type st)) @ le_enc 2 (nat16 (st_nlink st))
     @ [0, 0, 0, 0] @ le_enc 8 (st_size st)"

definition filestat :: "nat \<Rightarrow> u64 \<Rightarrow> (int, 'z file_st_scheme) kern" where
  "filestat f addr =
     bind (getf f id) (\<lambda>g.
     if ftype g = FD_INODE \<or> ftype g = FD_DEVICE then
       andthen (ilock (fip g)) (
       bind (the_ip (fip g)) (\<lambda>ip.
       bind (stati ip) (\<lambda>st.
       andthen (iunlock (fip g)) (
       bind my_pagetable (\<lambda>pt.
       bind (copyout pt addr (stat_bytes st)) (\<lambda>e.
       ret (if e < 0 then -1 else 0)))))))
     else ret (-1))"

definition fileread :: "nat \<Rightarrow> u64 \<Rightarrow> int \<Rightarrow> (int, 'z file_st_scheme) kern" where
  "fileread f addr n =
     bind (getf f id) (\<lambda>g.
     if \<not> readable g then ret (-1) else
     case ftype g of
       FD_PIPE \<Rightarrow> piperead (fpipe g) addr n
     | FD_DEVICE \<Rightarrow>
         bind (gets devsw) (\<lambda>D.
         if fmajor g < 0 \<or> fmajor g \<ge> NDEV then ret (-1) else
         case dev_read (D (fmajor g)) of None \<Rightarrow> ret (-1)
         | Some Console_driver \<Rightarrow> consoleread (To_user addr) n)
     | FD_INODE \<Rightarrow>
         andthen (ilock (fip g)) (
         bind (the_ip (fip g)) (\<lambda>ip.
         bind (readi ip (To_user addr) (foff g) (nat32 n)) (\<lambda>(r, _).
         andthen (if r > 0 then upd_file f (\<lambda>g. g\<lparr>foff := (foff g + nat r) mod 2 ^ 32\<rparr>) else ret ()) (
         andthen (iunlock (fip g)) (
         ret r)))))
     | FD_NONE \<Rightarrow> panic ''fileread'')"

definition write_max :: nat where
  "write_max = nat (((MAXOPBLOCKS - 1 - 1 - 2) div 2) * int BSIZE)"

text \<open>One transaction of \<open>filewrite\<close>, and its loop with \<open>i\<close> bytes written and \<open>k = n - i\<close> to go; the loop returns the final \<open>i\<close>.\<close>

definition filewrite_chunk :: "nat \<Rightarrow> u64 \<Rightarrow> nat \<Rightarrow> (int, 'z file_st_scheme) kern" where
  "filewrite_chunk f a n1 =
     andthen begin_op (
     bind (getf f fip) (\<lambda>ipo.
     andthen (ilock ipo) (
     bind (the_ip ipo) (\<lambda>ip.
     bind (getf f foff) (\<lambda>off.
     bind (writei ip (From_user a) off n1) (\<lambda>r.
     andthen (if r > 0 then upd_file f (\<lambda>g. g\<lparr>foff := (foff g + nat r) mod 2 ^ 32\<rparr>) else ret ()) (
     andthen (iunlock ipo) (
     andthen end_op (
     ret r)))))))))"

lemma write_max_eq: "write_max = 3072"
  by (simp add: write_max_def MAXOPBLOCKS_def BSIZE_def)

function filewrite_loop :: "nat \<Rightarrow> u64 \<Rightarrow> nat \<Rightarrow> nat \<Rightarrow> (nat, 'z file_st_scheme) kern" where
  "filewrite_loop f addr i k =
     (if k = 0 then ret i else
      bind (filewrite_chunk f (addr + word_of_nat i) (min k write_max)) (\<lambda>r.
      if r \<noteq> int (min k write_max) then ret i else
      filewrite_loop f addr (i + min k write_max) (k - min k write_max)))"
  by auto
termination
  by (relation "measure (\<lambda>(f, addr, i, k). k)") (auto simp: write_max_eq)

declare filewrite_loop.simps [simp del]

definition filewrite :: "nat \<Rightarrow> u64 \<Rightarrow> int \<Rightarrow> (int, 'z file_st_scheme) kern" where
  "filewrite f addr n =
     bind (getf f id) (\<lambda>g.
     if \<not> writable g then ret (-1) else
     case ftype g of
       FD_PIPE \<Rightarrow> pipewrite (fpipe g) addr n
     | FD_DEVICE \<Rightarrow>
         bind (gets devsw) (\<lambda>D.
         if fmajor g < 0 \<or> fmajor g \<ge> NDEV then ret (-1) else
         case dev_write (D (fmajor g)) of None \<Rightarrow> ret (-1)
         | Some Console_driver \<Rightarrow> consolewrite (From_user addr) n)
     | FD_INODE \<Rightarrow>
         bind (filewrite_loop f addr 0 (nat n)) (\<lambda>i.
         ret (if int i = n then n else -1))
     | FD_NONE \<Rightarrow> panic ''filewrite'')"

section \<open>Creating a pipe\<close>

definition pipealloc_bad :: "nat option \<Rightarrow> nat option \<Rightarrow> ((nat \<times> nat) option, 'z file_st_scheme) kern" where
  "pipealloc_bad f0 f1 =
     andthen (case f0 of Some f \<Rightarrow> fileclose f | None \<Rightarrow> ret ()) (
     andthen (case f1 of Some f \<Rightarrow> fileclose f | None \<Rightarrow> ret ()) (
     ret None))"

text \<open>\<open>None\<close> is the result -1. The fields of the pipe and of the two files are set one by one in the code, before anyone else can see them.\<close>

definition pipealloc :: "((nat \<times> nat) option, 'z file_st_scheme) kern" where
  "pipealloc =
     bind filealloc (\<lambda>f0. case f0 of None \<Rightarrow> pipealloc_bad None None | Some a \<Rightarrow>
     bind filealloc (\<lambda>f1. case f1 of None \<Rightarrow> pipealloc_bad f0 None | Some b \<Rightarrow>
     bind kalloc (\<lambda>pi. if pi = 0 then pipealloc_bad f0 f1 else
     andthen (upd_pipe pi (\<lambda>p. p\<lparr>readopen := True, writeopen := True, nwrite := 0, nread := 0\<rparr>)) (
     andthen (upd_file a (\<lambda>g. g\<lparr>ftype := FD_PIPE, readable := True, writable := False, fpipe := pi\<rparr>)) (
     andthen (upd_file b (\<lambda>g. g\<lparr>ftype := FD_PIPE, readable := False, writable := True, fpipe := pi\<rparr>)) (
     ret (Some (a, b))))))))"

end
