(* ===== verification/Proc.thy ===== *)
theory Proc
  imports File
begin

text \<open>
  The life of a process (the rest of \<open>proc.c\<close>): allocation, page tables, \<open>fork\<close>, \<open>exit\<close>, \<open>wait\<close>, and a round of
  the scheduler. The trapframe is the page at \<open>p->trapframe\<close> of the physical memory.
\<close>

definition NOFILE :: nat where "NOFILE = 16"

definition getproc :: "nat \<Rightarrow> (proc \<Rightarrow> 'a) \<Rightarrow> ('a, 'z sched_st_scheme) kern" where
  "getproc p f = gets (\<lambda>s. f (procs s p))"

section \<open>The trapframe\<close>

text \<open>Offsets of \<open>struct trapframe\<close>, whose size is 288 bytes.\<close>

definition tf_kernel_satp :: nat where "tf_kernel_satp = 0"
definition tf_kernel_sp :: nat where "tf_kernel_sp = 8"
definition tf_kernel_trap :: nat where "tf_kernel_trap = 16"
definition tf_epc :: nat where "tf_epc = 24"
definition tf_kernel_hartid :: nat where "tf_kernel_hartid = 32"
definition tf_sp :: nat where "tf_sp = 48"
definition tf_a :: "nat \<Rightarrow> nat" where "tf_a i = 112 + 8 * i"
definition TF_SIZE :: nat where "TF_SIZE = 288"

definition tf_load :: "nat \<Rightarrow> nat \<Rightarrow> (u64, 'z mem_st_scheme) kern" where
  "tf_load p off = bind (getproc p trapframe) (\<lambda>tf. gets (\<lambda>s. word_of_nat (le_get (mem s) (tf + off) 8)))"

definition tf_store :: "nat \<Rightarrow> nat \<Rightarrow> u64 \<Rightarrow> (unit, 'z mem_st_scheme) kern" where
  "tf_store p off v = bind (getproc p trapframe) (\<lambda>tf. store_mem (\<lambda>m. le_put m (tf + off) 8 (unat v)))"

section \<open>Allocation\<close>

definition procinit :: "(unit, 'z sched_st_scheme) kern" where
  "procinit = mfor [0..<NPROC] (\<lambda>p. upd_proc p (\<lambda>q. q\<lparr>state := UNUSED, kstack := KSTACK p\<rparr>))"

definition proc_pagetable :: "nat \<Rightarrow> (u64, 'z mem_st_scheme) kern" where
  "proc_pagetable p =
     bind uvmcreate (\<lambda>pt.
     if pt = 0 then ret 0 else
     bind (gets lay) (\<lambda>L.
     bind (mappages pt TRAMPOLINE PGSZ (word_of_nat (trampoline L)) (PTE_R OR PTE_X)) (\<lambda>e.
     if e < 0 then andthen (uvmfree pt 0) (ret 0) else
     bind (getproc p trapframe) (\<lambda>tf.
     bind (mappages pt TRAPFRAME PGSZ (word_of_nat tf) (PTE_R OR PTE_W)) (\<lambda>e.
     if e < 0 then
       andthen (uvmunmap pt TRAMPOLINE 1 False) (
       andthen (uvmfree pt 0) (ret 0))
     else ret pt)))))"

definition proc_freepagetable :: "u64 \<Rightarrow> u64 \<Rightarrow> (unit, 'z mem_st_scheme) kern" where
  "proc_freepagetable pt n =
     andthen (uvmunmap pt TRAMPOLINE 1 False) (
     andthen (uvmunmap pt TRAPFRAME 1 False) (
     uvmfree pt n))"

definition freeproc :: "nat \<Rightarrow> (unit, 'z mem_st_scheme) kern" where
  "freeproc p =
     bind (getproc p trapframe) (\<lambda>tf.
     andthen (if tf \<noteq> 0 then kfree tf else ret ()) (
     andthen (upd_proc p (\<lambda>q. q\<lparr>trapframe := 0\<rparr>)) (
     bind (getproc p id) (\<lambda>q.
     andthen (if pagetable q \<noteq> 0 then proc_freepagetable (word_of_nat (pagetable q)) (sz q) else ret ()) (
     upd_proc p (\<lambda>q. q\<lparr>pagetable := 0, sz := 0, pid := 0, parent := None, pname := (pname q)(0 := 0),
       chan := Chan_null, killed := False, xstate := 0, state := UNUSED\<rparr>))))))"

text \<open>The search of \<open>allocproc\<close> stops with the lock of the process it found held.\<close>

fun allocproc_scan :: "nat list \<Rightarrow> (nat option, 'z sched_st_scheme) kern" where
  "allocproc_scan [] = ret None"
| "allocproc_scan (p # ps) =
     andthen (k_acquire (Proc_lock p)) (
     bind (getproc p state) (\<lambda>st.
     if st = UNUSED then ret (Some p) else
     andthen (k_release (Proc_lock p)) (allocproc_scan ps)))"

definition allocproc_fail :: "nat \<Rightarrow> (nat option, 'z mem_st_scheme) kern" where
  "allocproc_fail p =
     andthen (freeproc p) (
     andthen (k_release (Proc_lock p)) (
     ret None))"

definition allocproc :: "(nat option, 'z mem_st_scheme) kern" where
  "allocproc =
     bind (allocproc_scan [0..<NPROC]) (\<lambda>found. case found of None \<Rightarrow> ret None | Some p \<Rightarrow>
     bind allocpid (\<lambda>i.
     andthen (upd_proc p (\<lambda>q. q\<lparr>pid := i\<rparr>)) (
     andthen (upd_proc p (\<lambda>q. q\<lparr>state := USED\<rparr>)) (
     bind kalloc (\<lambda>tf.
     andthen (upd_proc p (\<lambda>q. q\<lparr>trapframe := tf\<rparr>)) (
     if tf = 0 then allocproc_fail p else
     bind (proc_pagetable p) (\<lambda>pt.
     andthen (upd_proc p (\<lambda>q. q\<lparr>pagetable := unat pt\<rparr>)) (
     if pt = 0 then allocproc_fail p else
     bind (gets lay) (\<lambda>L.
     andthen (upd_proc p (\<lambda>q. q\<lparr>ctxt := \<lparr>ra = forkret_va L, sp = kstack q + PGSZ, sregs = (\<lambda>_. 0)\<rparr>\<rparr>)) (
     ret (Some p)))))))))))"

definition initcode :: "byte list" where
  "initcode = [
  0x17, 0x05, 0x00, 0x00, 0x13, 0x05, 0x45, 0x02,
  0x97, 0x05, 0x00, 0x00, 0x93, 0x85, 0x35, 0x02,
  0x93, 0x08, 0x70, 0x00, 0x73, 0x00, 0x00, 0x00,
  0x93, 0x08, 0x20, 0x00, 0x73, 0x00, 0x00, 0x00,
  0xef, 0xf0, 0x9f, 0xff, 0x2f, 0x69, 0x6e, 0x69,
  0x74, 0x00, 0x00, 0x24, 0x00, 0x00, 0x00, 0x00,
  0x00, 0x00, 0x00, 0x00]"

text \<open>A string literal as a C array.\<close>

definition c_str :: "string \<Rightarrow> bytes" where
  "c_str t = (\<lambda>i. if i < length t then of_char (t ! i) else 0)"

definition userinit :: "(unit, 'z fs_st_scheme) kern" where
  "userinit =
     bind allocproc (\<lambda>po.
     andthen (upd (\<lambda>s. s\<lparr>initproc := po\<rparr>)) (
     case po of None \<Rightarrow> panic ''kerneltrap'' | Some p \<Rightarrow>
     bind (getproc p pagetable) (\<lambda>pt.
     andthen (uvmfirst (word_of_nat pt) initcode) (
     andthen (upd_proc p (\<lambda>q. q\<lparr>sz := PGSZ\<rparr>)) (
     andthen (tf_store p tf_epc 0) (
     andthen (tf_store p tf_sp PGSZ) (
     andthen (upd_proc p (\<lambda>q. q\<lparr>pname := safestrcpy (pname q) (c_str ''initcode'') 16\<rparr>)) (
     bind (namei [SLASH]) (\<lambda>ip.
     andthen (upd_proc p (\<lambda>q. q\<lparr>cwd := ip\<rparr>)) (
     andthen (upd_proc p (\<lambda>q. q\<lparr>state := RUNNABLE\<rparr>)) (
     k_release (Proc_lock p))))))))))))"

definition growproc :: "int \<Rightarrow> (int, 'z mem_st_scheme) kern" where
  "growproc n =
     bind myproc (\<lambda>p.
     bind (getproc p id) (\<lambda>q.
     if n > 0 then
       bind (uvmalloc (word_of_nat (pagetable q)) (sz q) (sz q + word_of_int n) PTE_W) (\<lambda>m.
       if m = 0 then ret (-1) else
       andthen (upd_proc p (\<lambda>q. q\<lparr>sz := m\<rparr>)) (ret 0))
     else if n < 0 then
       bind (uvmdealloc (word_of_nat (pagetable q)) (sz q) (sz q + word_of_int n)) (\<lambda>m.
       andthen (upd_proc p (\<lambda>q. q\<lparr>sz := m\<rparr>)) (ret 0))
     else ret 0))"

section \<open>Fork\<close>

definition fork_files :: "nat \<Rightarrow> nat \<Rightarrow> (unit, 'z file_st_scheme) kern" where
  "fork_files p np = mfor [0..<NOFILE] (\<lambda>i.
     bind (getproc p (\<lambda>q. ofile q i)) (\<lambda>fo. case fo of None \<Rightarrow> ret () | Some f \<Rightarrow>
       bind (filedup f) (\<lambda>g. upd_proc np (\<lambda>q. q\<lparr>ofile := (ofile q)(i := Some g)\<rparr>))))"

definition fork :: "(int, 'z file_st_scheme) kern" where
  "fork =
     bind myproc (\<lambda>p.
     bind allocproc (\<lambda>npo. case npo of None \<Rightarrow> ret (-1) | Some np \<Rightarrow>
     bind (getproc p id) (\<lambda>q.
     bind (getproc np pagetable) (\<lambda>npt.
     bind (uvmcopy (word_of_nat (pagetable q)) (word_of_nat npt) (sz q)) (\<lambda>e.
     if e < 0 then
       andthen (freeproc np) (
       andthen (k_release (Proc_lock np)) (ret (-1)))
     else
     andthen (upd_proc np (\<lambda>r. r\<lparr>sz := sz q\<rparr>)) (
     bind (getproc np trapframe) (\<lambda>ntf.
     andthen (store_mem (\<lambda>m. put_bytes m ntf (get_bytes m (trapframe q) TF_SIZE))) (
     andthen (tf_store np (tf_a 0) 0) (
     andthen (fork_files p np) (
     bind (getproc p cwd) (\<lambda>co. bind (the_ip co) (\<lambda>c. bind (idup c) (\<lambda>c'.
     andthen (upd_proc np (\<lambda>r. r\<lparr>cwd := Some c'\<rparr>)) (
     andthen (upd_proc np (\<lambda>r. r\<lparr>pname := safestrcpy (pname r) (pname q) 16\<rparr>)) (
     bind (getproc np pid) (\<lambda>i.
     andthen (k_release (Proc_lock np)) (
     andthen (k_acquire Wait_lock) (
     andthen (upd_proc np (\<lambda>r. r\<lparr>parent := Some p\<rparr>)) (
     andthen (k_release Wait_lock) (
     andthen (k_acquire (Proc_lock np)) (
     andthen (upd_proc np (\<lambda>r. r\<lparr>state := RUNNABLE\<rparr>)) (
     andthen (k_release (Proc_lock np)) (
     ret (int32 (unat i)))))))))))))))))))))))))"

section \<open>Exit and wait\<close>

definition chan_of :: "nat option \<Rightarrow> chan" where
  "chan_of po = (case po of None \<Rightarrow> Chan_null | Some p \<Rightarrow> Chan_proc p)"

definition reparent :: "nat \<Rightarrow> (unit, 'z sched_st_scheme) kern" where
  "reparent p = mfor [0..<NPROC] (\<lambda>pp.
     bind (getproc pp parent) (\<lambda>par.
     if par = Some p then
       bind (gets initproc) (\<lambda>ini.
       andthen (upd_proc pp (\<lambda>q. q\<lparr>parent := ini\<rparr>)) (wakeup (chan_of ini)))
     else ret ()))"

definition exit_files :: "nat \<Rightarrow> (unit, 'z file_st_scheme) kern" where
  "exit_files p = mfor [0..<NOFILE] (\<lambda>fd.
     bind (getproc p (\<lambda>q. ofile q fd)) (\<lambda>fo. case fo of None \<Rightarrow> ret () | Some f \<Rightarrow>
       andthen (fileclose f) (upd_proc p (\<lambda>q. q\<lparr>ofile := (ofile q)(fd := None)\<rparr>))))"

text \<open>The part of \<open>exit\<close> under \<open>wait_lock\<close>.\<close>

definition exit_tail :: "nat \<Rightarrow> u32 \<Rightarrow> (unit, 'z sched_st_scheme) kern" where
  "exit_tail p status =
     andthen (k_acquire Wait_lock) (
     andthen (reparent p) (
     bind (getproc p parent) (\<lambda>par.
     andthen (wakeup (chan_of par)) (
     andthen (k_acquire (Proc_lock p)) (
     andthen (upd_proc p (\<lambda>q. q\<lparr>xstate := status\<rparr>)) (
     andthen (upd_proc p (\<lambda>q. q\<lparr>state := ZOMBIE\<rparr>)) (
     andthen (k_release Wait_lock) (
     andthen sched (
     panic ''zombie exit'')))))))))"

definition exit :: "u32 \<Rightarrow> (unit, 'z file_st_scheme) kern" where
  "exit status =
     bind myproc (\<lambda>p.
     bind (gets initproc) (\<lambda>ini.
     if ini = Some p then panic ''init exiting'' else
     andthen (exit_files p) (
     andthen begin_op (
     bind (getproc p cwd) (\<lambda>co. bind (the_ip co) (\<lambda>c.
     andthen (iput c) (
     andthen end_op (
     andthen (upd_proc p (\<lambda>q. q\<lparr>cwd := None\<rparr>)) (
     exit_tail p status)))))))))"

text \<open>
  One scan of \<open>wait\<close> through the process table: \<open>Inl r\<close> when it returns \<open>r\<close> to the caller, otherwise \<open>Inr havekids\<close>.
\<close>

fun wait_scan :: "nat list \<Rightarrow> nat \<Rightarrow> u64 \<Rightarrow> bool \<Rightarrow> (int + bool, 'z mem_st_scheme) kern" where
  "wait_scan [] p addr havekids = ret (Inr havekids)"
| "wait_scan (pp # pps) p addr havekids =
     bind (getproc pp parent) (\<lambda>par.
     if par \<noteq> Some p then wait_scan pps p addr havekids else
     andthen (k_acquire (Proc_lock pp)) (
     bind (getproc pp id) (\<lambda>q.
     if state q = ZOMBIE then
       bind (if addr = 0 then ret 0 else
             bind (getproc p pagetable) (\<lambda>pt. copyout (word_of_nat pt) addr (le_enc 4 (unat (xstate q))))) (\<lambda>e.
       if e < 0 then
         andthen (k_release (Proc_lock pp)) (
         andthen (k_release Wait_lock) (ret (Inl (-1))))
       else
         andthen (freeproc pp) (
         andthen (k_release (Proc_lock pp)) (
         andthen (k_release Wait_lock) (
         ret (Inl (int32 (unat (pid q))))))))
     else
       andthen (k_release (Proc_lock pp)) (wait_scan pps p addr True))))"

text \<open>The body of the endless loop of \<open>wait\<close>, entered with \<open>wait_lock\<close> held.\<close>

definition wait_loop :: "nat \<Rightarrow> u64 \<Rightarrow> (int, 'z mem_st_scheme) kern" where
  "wait_loop p addr =
     bind (wait_scan [0..<NPROC] p addr False) (\<lambda>r. case r of
       Inl i \<Rightarrow> ret i
     | Inr havekids \<Rightarrow>
         bind (if havekids then is_killed p else ret True) (\<lambda>stop.
         if stop then andthen (k_release Wait_lock) (ret (-1))
         else sleep_retry (Chan_proc p) Wait_lock))"

definition wait :: "u64 \<Rightarrow> (int, 'z mem_st_scheme) kern" where
  "wait addr =
     bind myproc (\<lambda>p.
     andthen (k_acquire Wait_lock) (
     wait_loop p addr))"

section \<open>The scheduler\<close>

text \<open>
  One pass of \<open>scheduler\<close> over the process table. \<open>run p\<close> stands for what happens between the \<open>swtch\<close> to process \<open>p\<close>
  and the \<open>swtch\<close> back. The result is \<open>found\<close>.
\<close>

fun scheduler_pass :: "(nat \<Rightarrow> (unit, 'z sched_st_scheme) kern) \<Rightarrow> nat list \<Rightarrow> bool \<Rightarrow> (bool, 'z sched_st_scheme) kern" where
  "scheduler_pass run [] found = ret found"
| "scheduler_pass run (p # ps) found =
     andthen (k_acquire (Proc_lock p)) (
     bind (getproc p state) (\<lambda>st.
     bind (if st = RUNNABLE then
             andthen (upd_proc p (\<lambda>q. q\<lparr>state := RUNNING\<rparr>)) (
             andthen (upd (\<lambda>s. s\<lparr>curp := Some p\<rparr>)) (
             andthen (run p) (
             andthen (upd (\<lambda>s. s\<lparr>curp := None\<rparr>)) (
             ret True))))
           else ret found) (\<lambda>found'.
     andthen (k_release (Proc_lock p)) (
     scheduler_pass run ps found'))))"

definition scheduler_round :: "(nat \<Rightarrow> (unit, 'z sched_st_scheme) kern) \<Rightarrow> (bool, 'z sched_st_scheme) kern" where
  "scheduler_round run =
     andthen (upd (\<lambda>s. s\<lparr>curp := None\<rparr>)) (
     scheduler_pass run [0..<NPROC] False)"

end
