(* ===== verification/Exec.thy ===== *)
theory Exec
  imports Proc
begin

text \<open>
  \<open>exec.c\<close>: building a new user image from an ELF file, with every error path that gives the memory back, and
  committing to it. A path and an argument string are the lists of their bytes without the NUL.
\<close>

definition ELF_MAGIC :: nat where "ELF_MAGIC = 0x464C457F"
definition ELF_PROG_LOAD :: nat where "ELF_PROG_LOAD = 1"
definition MAXARG :: nat where "MAXARG = 32"
definition USERSTACK :: u64 where "USERSTACK = 2"

section \<open>ELF headers\<close>

record elfhdr =
  e_magic :: nat
  e_entry :: u64
  e_phoff :: u64
  e_phnum :: nat

definition dec_elf :: "byte list \<Rightarrow> elfhdr" where
  "dec_elf bs = \<lparr>e_magic = le_dec (take 4 bs), e_entry = word_of_nat (le_dec (take 8 (drop 24 bs))),
     e_phoff = word_of_nat (le_dec (take 8 (drop 32 bs))), e_phnum = le_dec (take 2 (drop 56 bs))\<rparr>"

record proghdr =
  ph_type :: nat
  ph_flags :: u32
  ph_off :: u64
  ph_vaddr :: u64
  ph_filesz :: u64
  ph_memsz :: u64

definition dec_ph :: "byte list \<Rightarrow> proghdr" where
  "dec_ph bs = \<lparr>ph_type = le_dec (take 4 bs), ph_flags = word_of_nat (le_dec (take 4 (drop 4 bs))),
     ph_off = word_of_nat (le_dec (take 8 (drop 8 bs))), ph_vaddr = word_of_nat (le_dec (take 8 (drop 16 bs))),
     ph_filesz = word_of_nat (le_dec (take 8 (drop 32 bs))), ph_memsz = word_of_nat (le_dec (take 8 (drop 40 bs)))\<rparr>"

definition flags2perm :: "u32 \<Rightarrow> u64" where
  "flags2perm fl = (let perm = (if fl AND 1 \<noteq> 0 then PTE_X else 0) in if fl AND 2 \<noteq> 0 then perm OR PTE_W else perm)"

section \<open>Loading\<close>

text \<open>
  The loop of \<open>loadseg\<close>; \<open>offset\<close>, \<open>sz\<close> and \<open>i\<close> are 32-bit unsigned. Without wrap-around of \<open>i\<close> it makes
  at most \<open>sz / PGSIZE + 1\<close> iterations.
\<close>

fun loadseg_loop :: "nat \<Rightarrow> u64 \<Rightarrow> u64 \<Rightarrow> nat \<Rightarrow> u32 \<Rightarrow> u32 \<Rightarrow> u32 \<Rightarrow> (int, 'z fs_st_scheme) kern" where
  "loadseg_loop k pt va ip offset n i =
     (if \<not> i < n then ret 0 else
      case k of 0 \<Rightarrow> diverge | Suc k' \<Rightarrow>
      bind (walkaddr pt (va + ucast i)) (\<lambda>pa.
      if pa = 0 then panic ''loadseg: address should exist'' else
      let m = (if unat (n - i) < PGSIZE then unat (n - i) else PGSIZE) in
      bind (readi ip (To_mem (unat pa)) (unat (offset + i)) m) (\<lambda>(r, _).
      if r \<noteq> int m then ret (-1) else
      loadseg_loop k' pt va ip offset n (i + word_of_nat PGSIZE))))"

declare loadseg_loop.simps [simp del]

definition loadseg :: "u64 \<Rightarrow> u64 \<Rightarrow> nat \<Rightarrow> u32 \<Rightarrow> u32 \<Rightarrow> (int, 'z fs_st_scheme) kern" where
  "loadseg pt va ip offset n = loadseg_loop (unat n div PGSIZE + 1) pt va ip offset n 0"

text \<open>The program headers in turn: \<open>Inr sz\<close> when all are loaded, \<open>Inl sz\<close> on the way to \<open>bad\<close>.\<close>

fun exec_load :: "nat \<Rightarrow> u32 \<Rightarrow> u64 \<Rightarrow> nat \<Rightarrow> u64 \<Rightarrow> (u64 + u64, 'z fs_st_scheme) kern" where
  "exec_load 0 off pt ip n = ret (Inr n)"
| "exec_load (Suc k) off pt ip n =
     bind (readi ip To_var (unat off) 56) (\<lambda>(r, bs).
     let ph = dec_ph bs in
     if r \<noteq> 56 then ret (Inl n) else
     if ph_type ph \<noteq> ELF_PROG_LOAD then exec_load k (off + 56) pt ip n else
     if ph_memsz ph < ph_filesz ph then ret (Inl n) else
     if ph_vaddr ph + ph_memsz ph < ph_vaddr ph then ret (Inl n) else
     if ph_vaddr ph mod PGSZ \<noteq> 0 then ret (Inl n) else
     bind (uvmalloc pt n (ph_vaddr ph + ph_memsz ph) (flags2perm (ph_flags ph))) (\<lambda>n1.
     if n1 = 0 then ret (Inl n) else
     bind (loadseg pt (ph_vaddr ph) ip (ucast (ph_off ph)) (ucast (ph_filesz ph))) (\<lambda>e.
     if e < 0 then ret (Inl n1) else
     exec_load k (off + 56) pt ip n1)))"

section \<open>The stack\<close>

text \<open>Pushing the argument strings: the final \<open>usp\<close> and the pointers of \<open>ustack\<close>, or \<open>None\<close> on the way to \<open>bad\<close>.\<close>

fun exec_push :: "byte list list \<Rightarrow> u64 \<Rightarrow> u64 \<Rightarrow> u64 \<Rightarrow> u64 list \<Rightarrow> ((u64 \<times> u64 list) option, 'z mem_st_scheme) kern" where
  "exec_push [] pt stackbase usp ustack = ret (Some (usp, ustack))"
| "exec_push (a # as) pt stackbase usp ustack =
     (if length ustack \<ge> MAXARG then ret None else
      let usp1 = usp - word_of_nat (length a + 1); usp2 = usp1 - usp1 mod 16 in
      if usp2 < stackbase then ret None else
      bind (copyout pt usp2 (a @ [0])) (\<lambda>e.
      if e < 0 then ret None else
      exec_push as pt stackbase usp2 (ustack @ [usp2])))"

definition exec_bad :: "u64 \<Rightarrow> u64 \<Rightarrow> nat option \<Rightarrow> (int, 'z fs_st_scheme) kern" where
  "exec_bad pt n ipo =
     andthen (if pt \<noteq> 0 then proc_freepagetable pt n else ret ()) (
     andthen (case ipo of Some ip \<Rightarrow> andthen (iunlockput ip) end_op | None \<Rightarrow> ret ()) (
     ret (-1)))"

definition last_elem :: "byte list \<Rightarrow> byte list" where
  "last_elem path = rev (takeWhile (\<lambda>c. c \<noteq> SLASH) (rev path))"

definition bytes_str :: "byte list \<Rightarrow> bytes" where
  "bytes_str bs = (\<lambda>i. if i < length bs then bs ! i else 0)"

text \<open>From the new page table and the arguments on the new stack to the committed image.\<close>

definition exec_commit :: "nat \<Rightarrow> byte list \<Rightarrow> u64 \<Rightarrow> u64 \<Rightarrow> u64 \<Rightarrow> u64 \<Rightarrow> u64 \<Rightarrow> nat \<Rightarrow> (int, 'z fs_st_scheme) kern" where
  "exec_commit p path pt n usp entry oldsz argc =
     andthen (tf_store p (tf_a 1) usp) (
     andthen (upd_proc p (\<lambda>q. q\<lparr>pname := safestrcpy (pname q) (bytes_str (last_elem path)) 16\<rparr>)) (
     bind (getproc p pagetable) (\<lambda>oldpt.
     andthen (upd_proc p (\<lambda>q. q\<lparr>pagetable := unat pt\<rparr>)) (
     andthen (upd_proc p (\<lambda>q. q\<lparr>sz := n\<rparr>)) (
     andthen (tf_store p tf_epc entry) (
     andthen (tf_store p tf_sp usp) (
     andthen (proc_freepagetable (word_of_nat oldpt) oldsz) (
     ret (int argc)))))))))"

definition exec_stack :: "nat \<Rightarrow> byte list \<Rightarrow> byte list list \<Rightarrow> u64 \<Rightarrow> u64 \<Rightarrow> u64 \<Rightarrow> (int, 'z fs_st_scheme) kern" where
  "exec_stack p path argv pt entry n0 =
     bind (getproc p sz) (\<lambda>oldsz.
     let n = PGUP n0 in
     bind (uvmalloc pt n (n + (USERSTACK + 1) * PGSZ) PTE_W) (\<lambda>n1.
     if n1 = 0 then exec_bad pt n None else
     andthen (uvmclear pt (n1 - (USERSTACK + 1) * PGSZ)) (
     let stackbase = n1 - USERSTACK * PGSZ in
     bind (exec_push argv pt stackbase n1 []) (\<lambda>r. case r of None \<Rightarrow> exec_bad pt n1 None | Some (usp, ustack) \<Rightarrow>
     let usp1 = usp - word_of_nat ((length ustack + 1) * 8); usp2 = usp1 - usp1 mod 16 in
     if usp2 < stackbase then exec_bad pt n1 None else
     bind (copyout pt usp2 (concat (map (\<lambda>a. le_enc 8 (unat a)) (ustack @ [0])))) (\<lambda>e.
     if e < 0 then exec_bad pt n1 None else
     exec_commit p path pt n1 usp2 entry oldsz (length ustack))))))"

definition exec :: "byte list \<Rightarrow> byte list list \<Rightarrow> (int, 'z fs_st_scheme) kern" where
  "exec path argv =
     bind myproc (\<lambda>p.
     andthen begin_op (
     bind (namei path) (\<lambda>ipo. case ipo of None \<Rightarrow> andthen end_op (ret (-1)) | Some ip \<Rightarrow>
     andthen (ilock (Some ip)) (
     bind (readi ip To_var 0 64) (\<lambda>(r, bs).
     let elf = dec_elf bs in
     if r \<noteq> 64 then exec_bad 0 0 (Some ip) else
     if e_magic elf \<noteq> ELF_MAGIC then exec_bad 0 0 (Some ip) else
     bind (proc_pagetable p) (\<lambda>pt.
     if pt = 0 then exec_bad 0 0 (Some ip) else
     bind (exec_load (e_phnum elf) (ucast (e_phoff elf)) pt ip 0) (\<lambda>r. case r of
       Inl n \<Rightarrow> exec_bad pt n (Some ip)
     | Inr n \<Rightarrow>
         andthen (iunlockput ip) (
         andthen end_op (
         exec_stack p path argv pt (e_entry elf) n))))))))) "

end
