(* ===== verification/Sysargs.thy ===== *)
theory Sysargs
  imports Exec
begin

text \<open>
  Fetching system call arguments (\<open>syscall.c\<close>): from the saved registers in the trapframe, and through pointers into
  user memory. A fetched string is the list of its bytes without the NUL.
\<close>

definition fetchaddr :: "u64 \<Rightarrow> (int \<times> u64, 'z mem_st_scheme) kern" where
  "fetchaddr addr =
     bind myproc (\<lambda>p.
     bind (getproc p id) (\<lambda>q.
     if addr \<ge> sz q \<or> addr + 8 > sz q then ret (-1, 0) else
     bind (copyin (word_of_nat (pagetable q)) addr 8) (\<lambda>(e, bs).
     ret (if e \<noteq> 0 then (-1, 0) else (0, word_of_nat (le_dec bs))))))"

definition fetchstr :: "u64 \<Rightarrow> nat \<Rightarrow> (int \<times> byte list, 'z mem_st_scheme) kern" where
  "fetchstr addr maxn =
     bind myproc (\<lambda>p.
     bind (getproc p pagetable) (\<lambda>pt.
     bind (copyinstr (word_of_nat pt) addr maxn) (\<lambda>(e, bs).
     if e < 0 then ret (-1, []) else
     let str = takeWhile (\<lambda>b. b \<noteq> 0) bs in ret (int (length str), str))))"

definition argraw :: "nat \<Rightarrow> (u64, 'z mem_st_scheme) kern" where
  "argraw n = bind myproc (\<lambda>p. if n < 6 then tf_load p (tf_a n) else panic ''argraw'')"

definition argint :: "nat \<Rightarrow> (u32, 'z mem_st_scheme) kern" where
  "argint n = bind (argraw n) (\<lambda>v. ret (ucast v))"

definition argaddr :: "nat \<Rightarrow> (u64, 'z mem_st_scheme) kern" where
  "argaddr n = argraw n"

definition argstr :: "nat \<Rightarrow> nat \<Rightarrow> (int \<times> byte list, 'z mem_st_scheme) kern" where
  "argstr n maxn = bind (argaddr n) (\<lambda>addr. fetchstr addr maxn)"

end
