(* ===== verification/Sysproc.thy ===== *)
theory Sysproc
  imports Sysargs
begin

text \<open>The system calls on processes (\<open>sysproc.c\<close>). The result is the value stored in \<open>a0\<close>.\<close>

definition sys_exit :: "(u64, 'z file_st_scheme) kern" where
  "sys_exit = bind (argint 0) (\<lambda>n. andthen (exit n) (ret 0))"

definition sys_getpid :: "(u64, 'z sched_st_scheme) kern" where
  "sys_getpid = bind myproc (\<lambda>p. bind (getproc p pid) (\<lambda>i. ret (scast i)))"

definition sys_fork :: "(u64, 'z file_st_scheme) kern" where
  "sys_fork = bind fork (\<lambda>r. ret (word_of_int r))"

definition sys_wait :: "(u64, 'z mem_st_scheme) kern" where
  "sys_wait = bind (argaddr 0) (\<lambda>a. bind (wait a) (\<lambda>r. ret (word_of_int r)))"

definition sys_sbrk :: "(u64, 'z mem_st_scheme) kern" where
  "sys_sbrk =
     bind (argint 0) (\<lambda>n.
     bind myproc (\<lambda>p.
     bind (getproc p sz) (\<lambda>addr.
     bind (growproc (sint n)) (\<lambda>r.
     ret (if r < 0 then -1 else addr)))))"

text \<open>The loop of \<open>sys_sleep\<close>; the comparison is unsigned.\<close>

definition sys_sleep_loop :: "u32 \<Rightarrow> u32 \<Rightarrow> (u64, 'z sched_st_scheme) kern" where
  "sys_sleep_loop ticks0 n =
     bind (gets ticks) (\<lambda>t.
     if t - ticks0 < n then
       bind myproc (\<lambda>p. bind (is_killed p) (\<lambda>dead.
       if dead then andthen (k_release Ticks_lock) (ret (-1))
       else sleep_retry Chan_ticks Ticks_lock))
     else andthen (k_release Ticks_lock) (ret 0))"

definition sys_sleep :: "(u64, 'z mem_st_scheme) kern" where
  "sys_sleep =
     bind (argint 0) (\<lambda>n0.
     let n = (if n0 <s 0 then 0 else n0) in
     andthen (k_acquire Ticks_lock) (
     bind (gets ticks) (\<lambda>ticks0.
     sys_sleep_loop ticks0 n)))"

definition sys_kill :: "(u64, 'z mem_st_scheme) kern" where
  "sys_kill = bind (argint 0) (\<lambda>i. bind (kill i) (\<lambda>r. ret (word_of_int r)))"

definition sys_uptime :: "(u64, 'z sched_st_scheme) kern" where
  "sys_uptime =
     andthen (k_acquire Ticks_lock) (
     bind (gets ticks) (\<lambda>x.
     andthen (k_release Ticks_lock) (
     ret (ucast x))))"

end
