(* ===== verification/Sysfile.thy ===== *)
theory Sysfile
  imports Sysargs
begin

text \<open>
  The system calls on files (\<open>sysfile.c\<close>). The result is the value stored in \<open>a0\<close>; -1 is \<open>2 ^ 64 - 1\<close>.
\<close>

definition MAXPATH :: nat where "MAXPATH = 128"
definition O_WRONLY :: u32 where "O_WRONLY = 1"
definition O_RDWR :: u32 where "O_RDWR = 2"
definition O_CREATE :: u32 where "O_CREATE = 0x200"
definition O_TRUNC :: u32 where "O_TRUNC = 0x400"

section \<open>Descriptors\<close>

definition argfd :: "nat \<Rightarrow> ((nat \<times> nat) option, 'z mem_st_scheme) kern" where
  "argfd n =
     bind (argint n) (\<lambda>fd.
     if fd <s 0 \<or> unat fd \<ge> NOFILE then ret None else
     bind myproc (\<lambda>p.
     bind (getproc p (\<lambda>q. ofile q (unat fd))) (\<lambda>fo.
     ret (map_option (\<lambda>f. (unat fd, f)) fo))))"

definition fd_free :: "(nat \<Rightarrow> nat option) \<Rightarrow> nat option" where
  "fd_free ofs = List.find (\<lambda>fd. ofs fd = None) [0..<NOFILE]"

definition fdalloc :: "nat \<Rightarrow> (nat option, 'z sched_st_scheme) kern" where
  "fdalloc f =
     bind myproc (\<lambda>p.
     bind (getproc p ofile) (\<lambda>ofs.
     case fd_free ofs of
       Some fd \<Rightarrow> andthen (upd_proc p (\<lambda>q. q\<lparr>ofile := (ofile q)(fd := Some f)\<rparr>)) (ret (Some fd))
     | None \<Rightarrow> ret None))"

definition sys_dup :: "(u64, 'z file_st_scheme) kern" where
  "sys_dup =
     bind (argfd 0) (\<lambda>a. case a of None \<Rightarrow> ret (-1) | Some (_, f) \<Rightarrow>
     bind (fdalloc f) (\<lambda>fdo. case fdo of None \<Rightarrow> ret (-1) | Some fd \<Rightarrow>
     andthen (filedup f) (
     ret (word_of_nat fd))))"

definition sys_read :: "(u64, 'z file_st_scheme) kern" where
  "sys_read =
     bind (argaddr 1) (\<lambda>p.
     bind (argint 2) (\<lambda>n.
     bind (argfd 0) (\<lambda>a. case a of None \<Rightarrow> ret (-1) | Some (_, f) \<Rightarrow>
     bind (fileread f p (sint n)) (\<lambda>r. ret (word_of_int r)))))"

definition sys_write :: "(u64, 'z file_st_scheme) kern" where
  "sys_write =
     bind (argaddr 1) (\<lambda>p.
     bind (argint 2) (\<lambda>n.
     bind (argfd 0) (\<lambda>a. case a of None \<Rightarrow> ret (-1) | Some (_, f) \<Rightarrow>
     bind (filewrite f p (sint n)) (\<lambda>r. ret (word_of_int r)))))"

definition clear_fd :: "nat \<Rightarrow> (unit, 'z sched_st_scheme) kern" where
  "clear_fd fd = bind myproc (\<lambda>p. upd_proc p (\<lambda>q. q\<lparr>ofile := (ofile q)(fd := None)\<rparr>))"

definition sys_close :: "(u64, 'z file_st_scheme) kern" where
  "sys_close =
     bind (argfd 0) (\<lambda>a. case a of None \<Rightarrow> ret (-1) | Some (fd, f) \<Rightarrow>
     andthen (clear_fd fd) (
     andthen (fileclose f) (
     ret 0)))"

definition sys_fstat :: "(u64, 'z file_st_scheme) kern" where
  "sys_fstat =
     bind (argaddr 1) (\<lambda>st.
     bind (argfd 0) (\<lambda>a. case a of None \<Rightarrow> ret (-1) | Some (_, f) \<Rightarrow>
     bind (filestat f st) (\<lambda>r. ret (word_of_int r))))"

section \<open>Links\<close>

definition end_fail :: "(u64, 'z fs_st_scheme) kern" where
  "end_fail = andthen end_op (ret (-1))"

definition put_fail :: "nat \<Rightarrow> (u64, 'z fs_st_scheme) kern" where
  "put_fail ip = andthen (iunlockput ip) end_fail"

definition add_nlink :: "nat \<Rightarrow> int \<Rightarrow> (unit, 'z fs_st_scheme) kern" where
  "add_nlink ip d = upd_inode ip (\<lambda>n. n\<lparr>inlink := wrap16 (inlink n + d)\<rparr>)"

definition sys_link_bad :: "nat \<Rightarrow> (u64, 'z fs_st_scheme) kern" where
  "sys_link_bad ip =
     andthen (ilock (Some ip)) (
     andthen (add_nlink ip (-1)) (
     andthen (iupdate ip) (
     andthen (iunlockput ip) (
     end_fail))))"

definition sys_link :: "(u64, 'z fs_st_scheme) kern" where
  "sys_link =
     bind (argstr 0 MAXPATH) (\<lambda>(r0, old). if r0 < 0 then ret (-1) else
     bind (argstr 1 MAXPATH) (\<lambda>(r1, new). if r1 < 0 then ret (-1) else
     andthen begin_op (
     bind (namei old) (\<lambda>ipo. case ipo of None \<Rightarrow> end_fail | Some ip \<Rightarrow>
     andthen (ilock (Some ip)) (
     bind (geti ip itype) (\<lambda>t.
     if t = T_DIR then put_fail ip else
     andthen (add_nlink ip 1) (
     andthen (iupdate ip) (
     andthen (iunlock (Some ip)) (
     bind (nameiparent new (\<lambda>_. 0)) (\<lambda>(dpo, name). case dpo of None \<Rightarrow> sys_link_bad ip | Some dp \<Rightarrow>
     andthen (ilock (Some dp)) (
     bind (geti dp idev) (\<lambda>ddev. bind (geti ip id) (\<lambda>n.
     bind (if ddev \<noteq> idev n then ret (-1) else dirlink dp name (inum n)) (\<lambda>e.
     if e < 0 then andthen (iunlockput dp) (sys_link_bad ip) else
     andthen (iunlockput dp) (
     andthen (iput ip) (
     andthen end_op (
     ret 0)))))))))))))))))"

text \<open>\<open>isdirempty\<close> skips the entries for the directory itself and its parent.\<close>

fun isdirempty_from :: "nat list \<Rightarrow> nat \<Rightarrow> (bool, 'z fs_st_scheme) kern" where
  "isdirempty_from [] dp = ret True"
| "isdirempty_from (off # offs) dp =
     bind (readi dp To_var off 16) (\<lambda>(r, de).
     if r \<noteq> 16 then panic ''isdirempty: readi'' else
     if de_inum de \<noteq> 0 then ret False else isdirempty_from offs dp)"

definition isdirempty :: "nat \<Rightarrow> (bool, 'z fs_st_scheme) kern" where
  "isdirempty dp = bind (geti dp isize) (\<lambda>n. isdirempty_from (drop 2 (dir_offs n)) dp)"

text \<open>The part of \<open>sys_unlink\<close> after the entry was found: \<open>ip\<close> is locked, \<open>dp\<close> is locked.\<close>

definition unlink_entry :: "nat \<Rightarrow> nat \<Rightarrow> nat \<Rightarrow> (u64, 'z fs_st_scheme) kern" where
  "unlink_entry dp ip off =
     bind (geti ip id) (\<lambda>n.
     if inlink n < 1 then panic ''unlink: nlink < 1'' else
     bind (if itype n = T_DIR then isdirempty ip else ret True) (\<lambda>empty.
     if itype n = T_DIR \<and> \<not> empty then andthen (iunlockput ip) (put_fail dp) else
     bind (writei dp (From_var (replicate 16 0)) off 16) (\<lambda>r.
     if r \<noteq> 16 then panic ''unlink: writei'' else
     andthen (if itype n = T_DIR then andthen (add_nlink dp (-1)) (iupdate dp) else ret ()) (
     andthen (iunlockput dp) (
     andthen (add_nlink ip (-1)) (
     andthen (iupdate ip) (
     andthen (iunlockput ip) (
     andthen end_op (
     ret 0)))))))))"

definition sys_unlink :: "(u64, 'z fs_st_scheme) kern" where
  "sys_unlink =
     bind (argstr 0 MAXPATH) (\<lambda>(r0, path). if r0 < 0 then ret (-1) else
     andthen begin_op (
     bind (nameiparent path (\<lambda>_. 0)) (\<lambda>(dpo, name). case dpo of None \<Rightarrow> end_fail | Some dp \<Rightarrow>
     andthen (ilock (Some dp)) (
     if namecmp name (c_str ''.'') = 0 \<or> namecmp name (c_str ''..'') = 0 then put_fail dp else
     bind (dirlookup dp name) (\<lambda>found. case found of None \<Rightarrow> put_fail dp | Some (ip, off) \<Rightarrow>
     andthen (ilock (Some ip)) (
     unlink_entry dp ip off))))))"

section \<open>Creating and opening\<close>

definition create_fail :: "nat \<Rightarrow> nat \<Rightarrow> (nat option, 'z fs_st_scheme) kern" where
  "create_fail ip dp =
     andthen (upd_inode ip (\<lambda>n. n\<lparr>inlink := 0\<rparr>)) (
     andthen (iupdate ip) (
     andthen (iunlockput ip) (
     andthen (iunlockput dp) (
     ret None))))"

text \<open>The entries for the directory itself and its parent; a negative result is a failure.\<close>

definition create_dots :: "nat \<Rightarrow> nat \<Rightarrow> (int, 'z fs_st_scheme) kern" where
  "create_dots ip dp =
     bind (geti ip inum) (\<lambda>i.
     bind (dirlink ip (c_str ''.'') i) (\<lambda>e.
     if e < 0 then ret e else
     bind (geti dp inum) (\<lambda>d. dirlink ip (c_str ''..'') d)))"

definition create_new :: "nat \<Rightarrow> bytes \<Rightarrow> int \<Rightarrow> int \<Rightarrow> int \<Rightarrow> (nat option, 'z fs_st_scheme) kern" where
  "create_new dp name type major minor =
     bind (geti dp idev) (\<lambda>dev.
     bind (ialloc dev type) (\<lambda>ipo. case ipo of None \<Rightarrow> andthen (iunlockput dp) (ret None) | Some ip \<Rightarrow>
     andthen (ilock (Some ip)) (
     andthen (upd_inode ip (\<lambda>n. n\<lparr>imajor := major, iminor := minor, inlink := 1\<rparr>)) (
     andthen (iupdate ip) (
     bind (if type = T_DIR then create_dots ip dp else ret 0) (\<lambda>e.
     if e < 0 then create_fail ip dp else
     bind (geti ip inum) (\<lambda>i.
     bind (dirlink dp name i) (\<lambda>e.
     if e < 0 then create_fail ip dp else
     andthen (if type = T_DIR then andthen (add_nlink dp 1) (iupdate dp) else ret ()) (
     andthen (iunlockput dp) (
     ret (Some ip)))))))))))"

definition create :: "byte list \<Rightarrow> int \<Rightarrow> int \<Rightarrow> int \<Rightarrow> (nat option, 'z fs_st_scheme) kern" where
  "create path type major minor =
     bind (nameiparent path (\<lambda>_. 0)) (\<lambda>(dpo, name). case dpo of None \<Rightarrow> ret None | Some dp \<Rightarrow>
     andthen (ilock (Some dp)) (
     bind (dirlookup dp name) (\<lambda>found. case found of
       Some (ip, _) \<Rightarrow>
         andthen (iunlockput dp) (
         andthen (ilock (Some ip)) (
         bind (geti ip itype) (\<lambda>t.
         if type = T_FILE \<and> (t = T_FILE \<or> t = T_DEVICE) then ret (Some ip) else
         andthen (iunlockput ip) (ret None))))
     | None \<Rightarrow> create_new dp name type major minor)))"

text \<open>The inode to open, locked, or \<open>None\<close> when the call fails after \<open>end_op\<close>.\<close>

definition open_inode :: "byte list \<Rightarrow> u32 \<Rightarrow> (nat option, 'z fs_st_scheme) kern" where
  "open_inode path omode =
     (if omode AND O_CREATE \<noteq> 0 then
        bind (create path T_FILE 0 0) (\<lambda>ipo. case ipo of None \<Rightarrow> andthen end_op (ret None) | Some ip \<Rightarrow> ret (Some ip))
      else
        bind (namei path) (\<lambda>ipo. case ipo of None \<Rightarrow> andthen end_op (ret None) | Some ip \<Rightarrow>
        andthen (ilock (Some ip)) (
        bind (geti ip itype) (\<lambda>t.
        if t = T_DIR \<and> omode \<noteq> 0 then andthen (iunlockput ip) (andthen end_op (ret None))
        else ret (Some ip)))))"

definition open_setup :: "nat \<Rightarrow> nat \<Rightarrow> u32 \<Rightarrow> (unit, 'z file_st_scheme) kern" where
  "open_setup f ip omode =
     bind (geti ip id) (\<lambda>n.
     andthen (if itype n = T_DEVICE then upd_file f (\<lambda>g. g\<lparr>ftype := FD_DEVICE, fmajor := imajor n\<rparr>)
              else upd_file f (\<lambda>g. g\<lparr>ftype := FD_INODE, foff := 0\<rparr>)) (
     andthen (upd_file f (\<lambda>g. g\<lparr>fip := Some ip, readable := (omode AND O_WRONLY = 0),
                               writable := (omode AND O_WRONLY \<noteq> 0 \<or> omode AND O_RDWR \<noteq> 0)\<rparr>)) (
     if omode AND O_TRUNC \<noteq> 0 \<and> itype n = T_FILE then itrunc ip else ret ())))"

definition sys_open :: "(u64, 'z file_st_scheme) kern" where
  "sys_open =
     bind (argint 1) (\<lambda>omode.
     bind (argstr 0 MAXPATH) (\<lambda>(n, path). if n < 0 then ret (-1) else
     andthen begin_op (
     bind (open_inode path omode) (\<lambda>ipo. case ipo of None \<Rightarrow> ret (-1) | Some ip \<Rightarrow>
     bind (geti ip id) (\<lambda>i.
     if itype i = T_DEVICE \<and> (imajor i < 0 \<or> imajor i \<ge> NDEV) then put_fail ip else
     bind filealloc (\<lambda>fo. case fo of None \<Rightarrow> put_fail ip | Some f \<Rightarrow>
     bind (fdalloc f) (\<lambda>fdo. case fdo of None \<Rightarrow> andthen (fileclose f) (put_fail ip) | Some fd \<Rightarrow>
     andthen (open_setup f ip omode) (
     andthen (iunlock (Some ip)) (
     andthen end_op (
     ret (word_of_nat fd)))))))))))"

definition sys_mkdir :: "(u64, 'z fs_st_scheme) kern" where
  "sys_mkdir =
     andthen begin_op (
     bind (argstr 0 MAXPATH) (\<lambda>(r, path). if r < 0 then end_fail else
     bind (create path T_DIR 0 0) (\<lambda>ipo. case ipo of None \<Rightarrow> end_fail | Some ip \<Rightarrow>
     andthen (iunlockput ip) (
     andthen end_op (
     ret 0)))))"

definition sys_mknod :: "(u64, 'z fs_st_scheme) kern" where
  "sys_mknod =
     andthen begin_op (
     bind (argint 1) (\<lambda>major.
     bind (argint 2) (\<lambda>minor.
     bind (argstr 0 MAXPATH) (\<lambda>(r, path). if r < 0 then end_fail else
     bind (create path T_DEVICE (wrap16 (sint major)) (wrap16 (sint minor))) (\<lambda>ipo. case ipo of None \<Rightarrow> end_fail | Some ip \<Rightarrow>
     andthen (iunlockput ip) (
     andthen end_op (
     ret 0)))))))"

definition sys_chdir :: "(u64, 'z file_st_scheme) kern" where
  "sys_chdir =
     bind myproc (\<lambda>p.
     andthen begin_op (
     bind (argstr 0 MAXPATH) (\<lambda>(r, path). if r < 0 then end_fail else
     bind (namei path) (\<lambda>ipo. case ipo of None \<Rightarrow> end_fail | Some ip \<Rightarrow>
     andthen (ilock (Some ip)) (
     bind (geti ip itype) (\<lambda>t.
     if t \<noteq> T_DIR then put_fail ip else
     andthen (iunlock (Some ip)) (
     bind (getproc p cwd) (\<lambda>co. bind (the_ip co) (\<lambda>c.
     andthen (iput c) (
     andthen end_op (
     andthen (upd_proc p (\<lambda>q. q\<lparr>cwd := Some ip\<rparr>)) (
     ret 0))))))))))))"

section \<open>Exec and pipe\<close>

text \<open>
  The argument loop of \<open>sys_exec\<close>: whether it ended at a null pointer, the pages holding the strings, and the strings.
\<close>

fun sys_exec_args :: "nat \<Rightarrow> u64 \<Rightarrow> nat list \<Rightarrow> byte list list \<Rightarrow> (bool \<times> nat list \<times> byte list list, 'z mem_st_scheme) kern" where
  "sys_exec_args 0 uargv pgs strs = ret (False, pgs, strs)"
| "sys_exec_args (Suc k) uargv pgs strs =
     bind (fetchaddr (uargv + 8 * word_of_nat (length pgs))) (\<lambda>(e, uarg).
     if e < 0 then ret (False, pgs, strs) else
     if uarg = 0 then ret (True, pgs, strs) else
     bind kalloc (\<lambda>pg.
     if pg = 0 then ret (False, pgs, strs) else
     bind (fetchstr uarg PGSIZE) (\<lambda>(n, str).
     if n < 0 then ret (False, pgs @ [pg], strs) else
     andthen (store_mem (\<lambda>m. put_bytes m pg (str @ [0]))) (
     sys_exec_args k uargv (pgs @ [pg]) (strs @ [str])))))"

definition sys_exec :: "(u64, 'z fs_st_scheme) kern" where
  "sys_exec =
     bind (argaddr 1) (\<lambda>uargv.
     bind (argstr 0 MAXPATH) (\<lambda>(r, path). if r < 0 then ret (-1) else
     bind (sys_exec_args MAXARG uargv [] []) (\<lambda>(ok, pgs, strs).
     if ok then
       bind (exec path strs) (\<lambda>v.
       andthen (mfor pgs kfree) (
       ret (word_of_int v)))
     else andthen (mfor pgs kfree) (ret (-1)))))"

definition pipe_fail :: "nat \<Rightarrow> nat \<Rightarrow> (u64, 'z file_st_scheme) kern" where
  "pipe_fail rf wrf = andthen (fileclose rf) (andthen (fileclose wrf) (ret (-1)))"

definition sys_pipe :: "(u64, 'z file_st_scheme) kern" where
  "sys_pipe =
     bind (argaddr 0) (\<lambda>fdarray.
     bind pipealloc (\<lambda>r. case r of None \<Rightarrow> ret (-1) | Some (rf, wrf) \<Rightarrow>
     bind (fdalloc rf) (\<lambda>fd0o. case fd0o of None \<Rightarrow> pipe_fail rf wrf | Some fd0 \<Rightarrow>
     bind (fdalloc wrf) (\<lambda>fd1o. case fd1o of None \<Rightarrow> andthen (clear_fd fd0) (pipe_fail rf wrf) | Some fd1 \<Rightarrow>
     bind my_pagetable (\<lambda>pt.
     bind (copyout pt fdarray (le_enc 4 fd0)) (\<lambda>e0.
     bind (if e0 < 0 then ret e0 else copyout pt (fdarray + 4) (le_enc 4 fd1)) (\<lambda>e.
     if e < 0 then
       andthen (clear_fd fd0) (
       andthen (clear_fd fd1) (
       pipe_fail rf wrf))
     else ret 0)))))))"

end
