(* ===== verification/Syscall.thy ===== *)
theory Syscall
  imports Sysproc Sysfile
begin

text \<open>The table of system calls and \<open>syscall()\<close> (\<open>syscall.c\<close>, \<open>syscall.h\<close>).\<close>

definition syscalls :: "nat \<Rightarrow> (u64, 'z file_st_scheme) kern option" where
  "syscalls n =
     (if n = 1 then Some sys_fork else if n = 2 then Some sys_exit else if n = 3 then Some sys_wait
      else if n = 4 then Some sys_pipe else if n = 5 then Some sys_read else if n = 6 then Some sys_kill
      else if n = 7 then Some sys_exec else if n = 8 then Some sys_fstat else if n = 9 then Some sys_chdir
      else if n = 10 then Some sys_dup else if n = 11 then Some sys_getpid else if n = 12 then Some sys_sbrk
      else if n = 13 then Some sys_sleep else if n = 14 then Some sys_uptime else if n = 15 then Some sys_open
      else if n = 16 then Some sys_write else if n = 17 then Some sys_mknod else if n = 18 then Some sys_unlink
      else if n = 19 then Some sys_link else if n = 20 then Some sys_mkdir else if n = 21 then Some sys_close
      else None)"

definition syscall :: "(unit, 'z file_st_scheme) kern" where
  "syscall =
     bind myproc (\<lambda>p.
     bind (tf_load p (tf_a 7)) (\<lambda>a7.
     let num = (ucast a7 :: u32) in
     case (if 0 <s num \<and> num <s 22 then syscalls (unat num) else None) of
       Some handler \<Rightarrow> bind handler (\<lambda>r. tf_store p (tf_a 0) r)
     | None \<Rightarrow>
         bind (getproc p id) (\<lambda>q.
         andthen (printf (''%d %s: unknown sys call %d'' @ [CHR 0x0A])
                   [Arg_int (pid q), Arg_str (Some (chars (cstr (pname q) 16))), Arg_int num]) (
         tf_store p (tf_a 0) (-1)))))"

end
