(* ===== verification/Virtio.thy ===== *)
theory Virtio
  imports File
begin

text \<open>
  The disk driver (\<open>virtio_disk.c\<close>) at the level of its descriptor table and rings, and the device as the
  virtio specification describes it. The driver and the device only communicate through the shared rings and through
  the descriptors; \<open>disk_rw\<close> of the buffer cache is what its callers rely on.
\<close>

section \<open>Shared structures\<close>

definition NUM :: nat where "NUM = 8"
definition VRING_DESC_F_NEXT :: nat where "VRING_DESC_F_NEXT = 1"
definition VRING_DESC_F_WRITE :: nat where "VRING_DESC_F_WRITE = 2"
definition VIRTIO_BLK_T_IN :: nat where "VIRTIO_BLK_T_IN = 0"
definition VIRTIO_BLK_T_OUT :: nat where "VIRTIO_BLK_T_OUT = 1"

text \<open>The addresses the driver puts into descriptors: null, \<open>&disk.ops[i]\<close>, the data of a buffer, \<open>&disk.info[i].status\<close>.\<close>

datatype vaddr = V_null | V_op nat | V_data nat | V_status nat

record virtq_desc =
  daddr :: vaddr
  dlen :: nat
  dflags :: nat
  dnext :: nat

record virtio_blk_req =
  rtype :: nat
  rsector :: nat

record vdisk =
  desc :: "nat \<Rightarrow> virtq_desc"
  avail_idx :: u16
  avail_ring :: "nat \<Rightarrow> nat"
  used_dev_idx :: u16
  used_ring :: "nat \<Rightarrow> nat"
  vfree :: "nat \<Rightarrow> bool"
  used_idx :: u16
  info_b :: "nat \<Rightarrow> nat option"
  info_status :: "nat \<Rightarrow> byte"
  vops :: "nat \<Rightarrow> virtio_blk_req"
  bdisk :: "nat \<Rightarrow> bool"
  seen_idx :: u16
  vanswer :: "nat \<Rightarrow> u32"
  vwrites :: "(nat \<times> u32) list"

text \<open>
  \<open>bdisk i\<close> is \<open>b->disk\<close> of buffer \<open>i\<close>; \<open>seen_idx\<close> is how far the device has read the avail ring; \<open>vanswer\<close> is
  what the device answers when a register is read and \<open>vwrites\<close> the register writes it has received.
\<close>

record vio_st = file_st +
  vd :: vdisk

definition upd_vd :: "(vdisk \<Rightarrow> vdisk) \<Rightarrow> (unit, 'z vio_st_scheme) kern" where
  "upd_vd f = upd (\<lambda>s. s\<lparr>vd := f (vd s)\<rparr>)"

definition getv :: "(vdisk \<Rightarrow> 'a) \<Rightarrow> ('a, 'z vio_st_scheme) kern" where
  "getv f = gets (\<lambda>s. f (vd s))"

definition vreg_write :: "nat \<Rightarrow> u32 \<Rightarrow> (unit, 'z vio_st_scheme) kern" where
  "vreg_write r v = upd_vd (\<lambda>d. d\<lparr>vwrites := vwrites d @ [(r, v)]\<rparr>)"

definition desc0 :: virtq_desc where
  "desc0 = \<lparr>daddr = V_null, dlen = 0, dflags = 0, dnext = 0\<rparr>"

section \<open>Initialisation\<close>

definition VIRTIO_MMIO_STATUS :: nat where "VIRTIO_MMIO_STATUS = 0x70"
definition VIRTIO_CONFIG_S_FEATURES_OK :: u32 where "VIRTIO_CONFIG_S_FEATURES_OK = 8"

definition driver_features :: "u32 \<Rightarrow> u32" where
  "driver_features f = fold (\<lambda>b f. f AND NOT (push_bit b 1)) [5, 7, 11, 12, 27, 29, 28] f"

definition vqueue_regs :: "nat \<Rightarrow> nat \<Rightarrow> nat \<Rightarrow> (nat \<times> u32) list" where
  "vqueue_regs a b c = [(0x38, word_of_nat NUM),
     (0x80, word_of_nat a), (0x84, word_of_nat (a div 2 ^ 32)),
     (0x90, word_of_nat b), (0x94, word_of_nat (b div 2 ^ 32)),
     (0xa0, word_of_nat c), (0xa4, word_of_nat (c div 2 ^ 32)),
     (0x44, 1)]"

text \<open>The queue memory: three zeroed pages.\<close>

definition vqueue_alloc :: "(unit, 'z vio_st_scheme) kern" where
  "vqueue_alloc =
     bind kalloc (\<lambda>a. bind kalloc (\<lambda>b. bind kalloc (\<lambda>c.
     if a = 0 \<or> b = 0 \<or> c = 0 then panic ''virtio disk kalloc'' else
     andthen (store_mem (\<lambda>m. memset m a 0 PGSIZE)) (
     andthen (store_mem (\<lambda>m. memset m b 0 PGSIZE)) (
     andthen (store_mem (\<lambda>m. memset m c 0 PGSIZE)) (
     andthen (upd_vd (\<lambda>d. d\<lparr>desc := (\<lambda>_. desc0), avail_idx := 0, avail_ring := (\<lambda>_. 0), used_dev_idx := 0, used_ring := (\<lambda>_. 0)\<rparr>)) (
     mfor (vqueue_regs a b c) (\<lambda>(r, v). vreg_write r v))))))))"

definition virtio_disk_init :: "(unit, 'z vio_st_scheme) kern" where
  "virtio_disk_init =
     bind (getv vanswer) (\<lambda>R.
     if R 0 \<noteq> 0x74726976 \<or> R 4 \<noteq> 2 \<or> R 8 \<noteq> 2 \<or> R 0xc \<noteq> 0x554d4551 then panic ''could not find virtio disk'' else
     andthen (mfor [(VIRTIO_MMIO_STATUS, 0), (VIRTIO_MMIO_STATUS, 1), (VIRTIO_MMIO_STATUS, 3),
                    (0x20, driver_features (R 0x10)), (VIRTIO_MMIO_STATUS, 3 OR VIRTIO_CONFIG_S_FEATURES_OK)]
                   (\<lambda>(r, v). vreg_write r v)) (
     let status = R VIRTIO_MMIO_STATUS in
     if status AND VIRTIO_CONFIG_S_FEATURES_OK = 0 then panic ''virtio disk FEATURES_OK unset'' else
     andthen (vreg_write 0x30 0) (
     if R 0x44 \<noteq> 0 then panic ''virtio disk should not be ready'' else
     if R 0x34 = 0 then panic ''virtio disk has no queue 0'' else
     if unat (R 0x34) < NUM then panic ''virtio disk max queue too short'' else
     andthen vqueue_alloc (
     andthen (upd_vd (\<lambda>d. d\<lparr>vfree := (\<lambda>i. i < NUM \<or> vfree d i)\<rparr>)) (
     vreg_write VIRTIO_MMIO_STATUS (status OR 4))))))"

section \<open>Descriptors\<close>

definition alloc_desc :: "(nat option, 'z vio_st_scheme) kern" where
  "alloc_desc =
     bind (getv vfree) (\<lambda>fr.
     case List.find fr [0..<NUM] of
       Some i \<Rightarrow> andthen (upd_vd (\<lambda>d. d\<lparr>vfree := (vfree d)(i := False)\<rparr>)) (ret (Some i))
     | None \<Rightarrow> ret None)"

definition free_desc :: "nat \<Rightarrow> (unit, 'z vio_st_scheme) kern" where
  "free_desc i =
     (if i \<ge> NUM then panic ''free_desc 1'' else
      bind (getv (\<lambda>d. vfree d i)) (\<lambda>fr.
      if fr then panic ''free_desc 2'' else
      andthen (upd_vd (\<lambda>d. d\<lparr>desc := (desc d)(i := desc0)\<rparr>)) (
      andthen (upd_vd (\<lambda>d. d\<lparr>vfree := (vfree d)(i := True)\<rparr>)) (
      wakeup Chan_disk_free))))"

text \<open>A chain that does not end within \<open>NUM\<close> descriptors would run into a freed one.\<close>

fun free_chain_loop :: "nat \<Rightarrow> nat \<Rightarrow> (unit, 'z vio_st_scheme) kern" where
  "free_chain_loop 0 i = diverge"
| "free_chain_loop (Suc k) i =
     bind (getv (\<lambda>d. desc d i)) (\<lambda>e.
     andthen (free_desc i) (
     if odd (dflags e) then free_chain_loop k (dnext e) else ret ()))"

definition free_chain :: "nat \<Rightarrow> (unit, 'z vio_st_scheme) kern" where
  "free_chain i = free_chain_loop (NUM + 1) i"

text \<open>The loop of \<open>alloc3_desc\<close> with the descriptors found so far.\<close>

fun alloc3_loop :: "nat \<Rightarrow> nat list \<Rightarrow> (nat list option, 'z vio_st_scheme) kern" where
  "alloc3_loop 0 idx = ret (Some idx)"
| "alloc3_loop (Suc k) idx =
     bind alloc_desc (\<lambda>io. case io of
       Some i \<Rightarrow> alloc3_loop k (idx @ [i])
     | None \<Rightarrow> andthen (mfor idx free_desc) (ret None))"

definition alloc3_desc :: "(nat list option, 'z vio_st_scheme) kern" where
  "alloc3_desc = alloc3_loop 3 []"

section \<open>Requests\<close>

definition format_request :: "nat \<Rightarrow> bool \<Rightarrow> nat \<Rightarrow> nat \<Rightarrow> nat \<Rightarrow> nat \<Rightarrow> vdisk \<Rightarrow> vdisk" where
  "format_request b write sector i0 i1 i2 d = d\<lparr>
     vops := (vops d)(i0 := \<lparr>rtype = (if write then VIRTIO_BLK_T_OUT else VIRTIO_BLK_T_IN), rsector = sector\<rparr>),
     desc := (desc d)(
       i0 := \<lparr>daddr = V_op i0, dlen = 16, dflags = VRING_DESC_F_NEXT, dnext = i1\<rparr>,
       i1 := \<lparr>daddr = V_data b, dlen = BSIZE, dflags = (if write then 0 else VRING_DESC_F_WRITE) + VRING_DESC_F_NEXT, dnext = i2\<rparr>,
       i2 := \<lparr>daddr = V_status i0, dlen = 1, dflags = VRING_DESC_F_WRITE, dnext = 0\<rparr>),
     info_status := (info_status d)(i0 := 0xff),
     bdisk := (bdisk d)(b := True),
     info_b := (info_b d)(i0 := Some b)\<rparr>"

text \<open>Up to the wait: \<open>None\<close> when the process sleeps for free descriptors, then the loop starts anew.\<close>

definition virtio_submit :: "nat \<Rightarrow> bool \<Rightarrow> (nat, 'z vio_st_scheme) kern" where
  "virtio_submit b write =
     bind (getb b (\<lambda>c. blockno c * (BSIZE div 512) mod 2 ^ 32)) (\<lambda>sector.
     bind alloc3_desc (\<lambda>r. case r of
       None \<Rightarrow> sleep_retry Chan_disk_free Vdisk_lock
     | Some idx \<Rightarrow>
         andthen (upd_vd (format_request b write sector (idx ! 0) (idx ! 1) (idx ! 2))) (
         andthen (upd_vd (\<lambda>d. d\<lparr>avail_ring := (avail_ring d)(unat (avail_idx d) mod NUM := idx ! 0)\<rparr>)) (
         andthen (upd_vd (\<lambda>d. d\<lparr>avail_idx := avail_idx d + 1\<rparr>)) (
         andthen (vreg_write 0x50 0) (
         ret (idx ! 0)))))))"

text \<open>Waiting for the interrupt handler to say that the request has finished, and giving the descriptors back.\<close>

definition virtio_wait :: "nat \<Rightarrow> nat \<Rightarrow> (unit, 'z vio_st_scheme) kern" where
  "virtio_wait b i0 =
     bind (getv (\<lambda>d. bdisk d b)) (\<lambda>busy.
     if busy then sleep_retry (Chan_buf b) Vdisk_lock else
     andthen (upd_vd (\<lambda>d. d\<lparr>info_b := (info_b d)(i0 := None)\<rparr>)) (
     andthen (free_chain i0) (
     k_release Vdisk_lock)))"

definition virtio_disk_rw :: "nat \<Rightarrow> bool \<Rightarrow> (unit, 'z vio_st_scheme) kern" where
  "virtio_disk_rw b write =
     andthen (k_acquire Vdisk_lock) (
     bind (virtio_submit b write) (\<lambda>i0.
     virtio_wait b i0))"

section \<open>The interrupt\<close>

text \<open>At most \<open>used->idx - used_idx\<close> entries are new.\<close>

fun virtio_intr_loop :: "nat \<Rightarrow> (unit, 'z vio_st_scheme) kern" where
  "virtio_intr_loop k =
     bind (getv id) (\<lambda>d.
     if used_idx d = used_dev_idx d then ret () else
     case k of 0 \<Rightarrow> diverge | Suc k' \<Rightarrow>
     let i = used_ring d (unat (used_idx d) mod NUM) in
     if info_status d i \<noteq> 0 then panic ''virtio_disk_intr status'' else
     (case info_b d i of None \<Rightarrow> panic ''kerneltrap'' | Some b \<Rightarrow>
      andthen (upd_vd (\<lambda>d. d\<lparr>bdisk := (bdisk d)(b := False)\<rparr>)) (
      andthen (wakeup (Chan_buf b)) (
      andthen (upd_vd (\<lambda>d. d\<lparr>used_idx := used_idx d + 1\<rparr>)) (
      virtio_intr_loop k')))))"

declare virtio_intr_loop.simps [simp del]

definition virtio_disk_intr :: "(unit, 'z vio_st_scheme) kern" where
  "virtio_disk_intr =
     andthen (k_acquire Vdisk_lock) (
     bind (getv (\<lambda>d. vanswer d 0x60)) (\<lambda>st.
     andthen (vreg_write 0x64 (st AND 3)) (
     andthen (bind (getv (\<lambda>d. unat (used_dev_idx d - used_idx d))) virtio_intr_loop) (
     k_release Vdisk_lock))))"

section \<open>The device\<close>

text \<open>
  The device takes the next chain of the avail ring and, when its three descriptors are a header, a data buffer and a
  status byte with the right directions, performs the transfer, writes the status, and enters the chain's head in
  the used ring. \<open>None\<close>: nothing to do, or a malformed chain.
\<close>

definition chain_ok :: "vdisk \<Rightarrow> nat \<Rightarrow> bool" where
  "chain_ok d i0 =
     (let e0 = desc d i0; e1 = desc d (dnext e0); e2 = desc d (dnext e1) in
      dflags e0 = VRING_DESC_F_NEXT \<and> dlen e0 = 16
      \<and> odd (dflags e1) \<and> dlen e1 = BSIZE
      \<and> dflags e2 = VRING_DESC_F_WRITE \<and> dlen e2 = 1)"

definition dev_transfer :: "nat \<Rightarrow> nat \<Rightarrow> nat \<Rightarrow> 'z vio_st_scheme \<Rightarrow> 'z vio_st_scheme option" where
  "dev_transfer i b j s =
     (let d = vd s; req = vops d i; blk = rsector req div (BSIZE div 512);
          wr = dflags (desc d (dnext (desc d j))) div 2 = 1
      in if rtype req = VIRTIO_BLK_T_OUT \<and> \<not> wr then
           Some (s\<lparr>disk := (disk s)(blk := bdata (bufs s b)), dwrites := dwrites s @ [(blk, bdata (bufs s b))]\<rparr>)
         else if rtype req = VIRTIO_BLK_T_IN \<and> wr then
           Some (s\<lparr>bufs := (bufs s)(b := (bufs s b)\<lparr>bdata := disk s blk\<rparr>)\<rparr>)
         else None)"

definition device_step :: "'z vio_st_scheme \<Rightarrow> 'z vio_st_scheme option" where
  "device_step s =
     (let d = vd s; i0 = avail_ring d (unat (seen_idx d) mod NUM) in
      if seen_idx d = avail_idx d \<or> \<not> chain_ok d i0 then None else
      case (daddr (desc d i0), daddr (desc d (dnext (desc d i0))), daddr (desc d (dnext (desc d (dnext (desc d i0)))))) of
        (V_op i, V_data b, V_status k) \<Rightarrow>
          map_option (\<lambda>t. t\<lparr>vd := (vd t)\<lparr>info_status := (info_status (vd t))(k := 0), seen_idx := seen_idx d + 1,
              used_ring := (used_ring d)(unat (used_dev_idx d) mod NUM := i0), used_dev_idx := used_dev_idx d + 1\<rparr>\<rparr>)
            (dev_transfer i b i0 s)
      | _ \<Rightarrow> None)"

end
