(* ===== verification/Trap.thy ===== *)
theory Trap
  imports Syscall Virtio
begin

text \<open>
  Traps and booting: \<open>trap.c\<close>, \<open>plic.c\<close>, \<open>main.c\<close>, \<open>start.c\<close> and the two functions of \<open>vm.c\<close> that install the kernel page
  table. The control and status registers of the hart are part of the state. Assembly code
  is known by its addresses only.
\<close>

section \<open>Registers\<close>

record csrs =
  sstatus :: u64
  sepc :: u64
  scause :: u64
  stval :: u64
  stvec :: u64
  satp :: u64
  tp :: u64
  stimecmp :: u64
  mtime :: u64

record symbols =
  kernelvec_va :: u64
  uservec_va :: u64
  userret_va :: u64
  usertrap_va :: u64

record trap_st = vio_st +
  csr :: csrs
  syms :: symbols
  plic_pending :: "nat list"
  plic_log :: "(u64 \<times> u32) list"
  kernel_pagetable :: u64
  first_forkret :: bool

definition SSTATUS_SPP :: u64 where "SSTATUS_SPP = 0x100"
definition SSTATUS_SPIE :: u64 where "SSTATUS_SPIE = 0x20"
definition SSTATUS_SIE :: u64 where "SSTATUS_SIE = 2"
definition UART0_IRQ :: nat where "UART0_IRQ = 10"
definition VIRTIO0_IRQ :: nat where "VIRTIO0_IRQ = 1"

definition upd_csr :: "(csrs \<Rightarrow> csrs) \<Rightarrow> (unit, 'z trap_st_scheme) kern" where
  "upd_csr f = upd (\<lambda>s. s\<lparr>csr := f (csr s)\<rparr>)"

definition getr :: "(csrs \<Rightarrow> 'a) \<Rightarrow> ('a, 'z trap_st_scheme) kern" where
  "getr f = gets (\<lambda>s. f (csr s))"

definition MAKE_SATP :: "u64 \<Rightarrow> u64" where
  "MAKE_SATP pt = push_bit 60 8 OR drop_bit 12 pt"

section \<open>The interrupt controller\<close>

definition plic_write :: "u64 \<Rightarrow> u32 \<Rightarrow> (unit, 'z trap_st_scheme) kern" where
  "plic_write a v = upd (\<lambda>s. s\<lparr>plic_log := plic_log s @ [(a, v)]\<rparr>)"

definition PLIC_SENABLE :: "u64 \<Rightarrow> u64" where "PLIC_SENABLE hart = PLIC + 0x2080 + hart * 0x100"
definition PLIC_SPRIORITY :: "u64 \<Rightarrow> u64" where "PLIC_SPRIORITY hart = PLIC + 0x201000 + hart * 0x2000"
definition PLIC_SCLAIM :: "u64 \<Rightarrow> u64" where "PLIC_SCLAIM hart = PLIC + 0x201004 + hart * 0x2000"

definition plicinit :: "(unit, 'z trap_st_scheme) kern" where
  "plicinit =
     andthen (plic_write (PLIC + word_of_nat (UART0_IRQ * 4)) 1) (
     plic_write (PLIC + word_of_nat (VIRTIO0_IRQ * 4)) 1)"

definition plicinithart :: "(unit, 'z trap_st_scheme) kern" where
  "plicinithart =
     bind (getr tp) (\<lambda>hart.
     andthen (plic_write (PLIC_SENABLE hart) (push_bit UART0_IRQ 1 OR push_bit VIRTIO0_IRQ 1)) (
     plic_write (PLIC_SPRIORITY hart) 0))"

text \<open>Reading the claim register takes the next pending interrupt, or gives 0.\<close>

definition plic_claim :: "(nat, 'z trap_st_scheme) kern" where
  "plic_claim = bind (gets plic_pending) (\<lambda>q. case q of [] \<Rightarrow> ret 0
     | irq # rest \<Rightarrow> andthen (upd (\<lambda>s. s\<lparr>plic_pending := rest\<rparr>)) (ret irq))"

definition plic_complete :: "nat \<Rightarrow> (unit, 'z trap_st_scheme) kern" where
  "plic_complete irq = bind (getr tp) (\<lambda>hart. plic_write (PLIC_SCLAIM hart) (word_of_nat irq))"

section \<open>Device interrupts\<close>

definition clockintr :: "(unit, 'z trap_st_scheme) kern" where
  "clockintr =
     bind (getr tp) (\<lambda>hart.
     andthen (if hart = 0 then
         andthen (k_acquire Ticks_lock) (
         andthen (upd (\<lambda>s. s\<lparr>ticks := ticks s + 1\<rparr>)) (
         andthen (wakeup Chan_ticks) (
         k_release Ticks_lock)))
       else ret ()) (
     upd_csr (\<lambda>c. c\<lparr>stimecmp := mtime c + 1000000\<rparr>)))"

definition devintr :: "(nat, 'z trap_st_scheme) kern" where
  "devintr =
     bind (getr scause) (\<lambda>cause.
     if cause = 0x8000000000000009 then
       bind plic_claim (\<lambda>irq.
       andthen (if irq = UART0_IRQ then uartintr
                else if irq = VIRTIO0_IRQ then virtio_disk_intr
                else if irq \<noteq> 0 then andthen (printf (''unexpected interrupt irq=%d'' @ [CHR 0x0A]) [Arg_int (word_of_nat irq)]) (ret ())
                else ret ()) (
       andthen (if irq \<noteq> 0 then plic_complete irq else ret ()) (
       ret 1)))
     else if cause = 0x8000000000000005 then andthen clockintr (ret 2)
     else ret 0)"

section \<open>Traps\<close>

definition trapinithart :: "(unit, 'z trap_st_scheme) kern" where
  "trapinithart = bind (gets syms) (\<lambda>y. upd_csr (\<lambda>c. c\<lparr>stvec := kernelvec_va y\<rparr>))"

text \<open>The result: the address in the trampoline to jump to, and its argument.\<close>

definition usertrapret :: "(u64 \<times> u64, 'z trap_st_scheme) kern" where
  "usertrapret =
     bind myproc (\<lambda>p.
     andthen (upd_csr (\<lambda>c. c\<lparr>sstatus := sstatus c AND NOT SSTATUS_SIE\<rparr>)) (
     bind (gets syms) (\<lambda>y. bind (gets (\<lambda>s. word_of_nat (trampoline (lay s)))) (\<lambda>tramp.
     andthen (upd_csr (\<lambda>c. c\<lparr>stvec := TRAMPOLINE + (uservec_va y - tramp)\<rparr>)) (
     bind (getr id) (\<lambda>c. bind (getproc p id) (\<lambda>q.
     andthen (tf_store p tf_kernel_satp (satp c)) (
     andthen (tf_store p tf_kernel_sp (kstack q + PGSZ)) (
     andthen (tf_store p tf_kernel_trap (usertrap_va y)) (
     andthen (tf_store p tf_kernel_hartid (tp c)) (
     andthen (upd_csr (\<lambda>c. c\<lparr>sstatus := (sstatus c AND NOT SSTATUS_SPP) OR SSTATUS_SPIE\<rparr>)) (
     bind (tf_load p tf_epc) (\<lambda>epc.
     andthen (upd_csr (\<lambda>c. c\<lparr>sepc := epc\<rparr>)) (
     ret (TRAMPOLINE + (userret_va y - tramp), MAKE_SATP (word_of_nat (pagetable q)))))))))))))))))"

definition exit_if_killed :: "nat \<Rightarrow> (unit, 'z trap_st_scheme) kern" where
  "exit_if_killed p = bind (is_killed p) (\<lambda>k. if k then exit (-1) else ret ())"

text \<open>The middle of \<open>usertrap\<close>: the system call, the device interrupt or the fault; the result is \<open>which_dev\<close>.\<close>

definition usertrap_cause :: "nat \<Rightarrow> (nat, 'z trap_st_scheme) kern" where
  "usertrap_cause p =
     bind (getr id) (\<lambda>c.
     if scause c = 8 then
       andthen (exit_if_killed p) (
       bind (tf_load p tf_epc) (\<lambda>epc.
       andthen (tf_store p tf_epc (epc + 4)) (
       andthen (upd_csr (\<lambda>c. c\<lparr>sstatus := sstatus c OR SSTATUS_SIE\<rparr>)) (
       andthen syscall (
       ret 0)))))
     else
       bind devintr (\<lambda>which.
       if which \<noteq> 0 then ret which else
       bind (getproc p pid) (\<lambda>i.
       andthen (printf (''usertrap(): unexpected scause 0x%lx pid=%d'' @ [CHR 0x0A]) [Arg_long (scause c), Arg_int i]) (
       andthen (printf (''            sepc=0x%lx stval=0x%lx'' @ [CHR 0x0A]) [Arg_long (sepc c), Arg_long (stval c)]) (
       andthen (setkilled p) (
       ret 0))))))"

definition usertrap :: "(u64 \<times> u64, 'z trap_st_scheme) kern" where
  "usertrap =
     bind (getr sstatus) (\<lambda>st.
     if st AND SSTATUS_SPP \<noteq> 0 then panic ''usertrap: not from user mode'' else
     andthen trapinithart (
     bind myproc (\<lambda>p.
     bind (getr sepc) (\<lambda>pc.
     andthen (tf_store p tf_epc pc) (
     bind (usertrap_cause p) (\<lambda>which.
     andthen (exit_if_killed p) (
     andthen (if which = 2 then yield_cpu else ret ()) (
     usertrapret))))))))"

definition kerneltrap :: "(unit, 'z trap_st_scheme) kern" where
  "kerneltrap =
     bind (getr id) (\<lambda>c.
     if sstatus c AND SSTATUS_SPP = 0 then panic ''kerneltrap: not from supervisor mode'' else
     if sstatus c AND SSTATUS_SIE \<noteq> 0 then panic ''kerneltrap: interrupts enabled'' else
     bind devintr (\<lambda>which.
     if which = 0 then
       andthen (printf (''scause=0x%lx sepc=0x%lx stval=0x%lx'' @ [CHR 0x0A]) [Arg_long (scause c), Arg_long (sepc c), Arg_long (stval c)]) (
       panic ''kerneltrap'')
     else
       bind (gets curp) (\<lambda>me.
       andthen (if which = 2 \<and> me \<noteq> None then yield_cpu else ret ()) (
       upd_csr (\<lambda>d. d\<lparr>sepc := sepc c, sstatus := sstatus c\<rparr>)))))"

text \<open>The first thing a new process does: \<open>forkret\<close>, holding its own lock from the scheduler.\<close>

definition forkret :: "(u64 \<times> u64, 'z trap_st_scheme) kern" where
  "forkret =
     bind myproc (\<lambda>p.
     andthen (k_release (Proc_lock p)) (
     bind (gets first_forkret) (\<lambda>fst_time.
     andthen (if fst_time then andthen (fsinit ROOTDEV) (upd (\<lambda>s. s\<lparr>first_forkret := False\<rparr>)) else ret ()) (
     usertrapret))))"

section \<open>Booting\<close>

definition kvminit :: "(unit, 'z trap_st_scheme) kern" where
  "kvminit = bind kvmmake (\<lambda>pt. upd (\<lambda>s. s\<lparr>kernel_pagetable := pt\<rparr>))"

text \<open>The fences around the write of \<open>satp\<close> only affect cached translations.\<close>

definition kvminithart :: "(unit, 'z trap_st_scheme) kern" where
  "kvminithart = bind (gets kernel_pagetable) (\<lambda>pt. upd_csr (\<lambda>c. c\<lparr>satp := MAKE_SATP pt\<rparr>))"

text \<open>What hart 0 does in \<open>main\<close> before it enters the scheduler. Initialising a spin lock changes nothing of the view used here.\<close>

definition main_boot :: "(unit, 'z trap_st_scheme) kern" where
  "main_boot =
     andthen consoleinit (
     andthen printfinit (
     andthen (printf [CHR 0x0A] []) (
     andthen (printf (''xv6 kernel is booting'' @ [CHR 0x0A]) []) (
     andthen (printf [CHR 0x0A] []) (
     andthen kinit (
     andthen kvminit (
     andthen kvminithart (
     andthen procinit (
     andthen trapinithart (
     andthen plicinit (
     andthen plicinithart (
     andthen binit (
     andthen iinit (
     andthen virtio_disk_init (
     userinit)))))))))))))))"

text \<open>What the other harts do once \<open>started\<close> is set.\<close>

definition main_other :: "(unit, 'z trap_st_scheme) kern" where
  "main_other =
     bind (getr tp) (\<lambda>hart.
     andthen (printf (''hart %d starting'' @ [CHR 0x0A]) [Arg_int (ucast hart)]) (
     andthen kvminithart (
     andthen trapinithart (
     plicinithart))))"

text \<open>Machine mode: \<open>start\<close> and \<open>timerinit\<close> prepare the registers for the \<open>mret\<close> into \<open>main\<close>.\<close>

record mregs =
  mstatus :: u64
  mepc :: u64
  m_satp :: u64
  medeleg :: u64
  mideleg :: u64
  m_sie :: u64
  pmpaddr0 :: u64
  pmpcfg0 :: u64
  mie :: u64
  menvcfg :: u64
  mcounteren :: u64
  m_stimecmp :: u64
  m_time :: u64
  mhartid :: u64
  m_tp :: u64

definition timerinit :: "mregs \<Rightarrow> mregs" where
  "timerinit m = m\<lparr>mie := mie m OR 0x20, menvcfg := menvcfg m OR push_bit 63 1, mcounteren := mcounteren m OR 2,
     m_stimecmp := m_time m + 1000000\<rparr>"

definition start :: "u64 \<Rightarrow> mregs \<Rightarrow> mregs" where
  "start main_va m =
     (let m1 = m\<lparr>mstatus := (mstatus m AND NOT (push_bit 11 3)) OR push_bit 11 1, mepc := main_va, m_satp := 0,
               medeleg := 0xffff, mideleg := 0xffff, m_sie := m_sie m OR 0x200 OR 0x20 OR 2,
               pmpaddr0 := 0x3fffffffffffff, pmpcfg0 := 0xf\<rparr>;
          m2 = timerinit m1
      in m2\<lparr>m_tp := scast (ucast (mhartid m2) :: u32)\<rparr>)"

end
