(* ===== verification/Spec2Isabelle.thy ===== *)
theory Spec2Isabelle
  imports Prelude Ring Spinlock Sched Sleeplock Kstring Kalloc Bio Log Vm Fs Umem Blocks Uart Kprintf Console Pipe File Proc Exec Sysargs Sysproc Sysfile Syscall Virtio Trap
begin

text \<open>
  \<^bold>\<open>The xv6 kernel\<close>

  This library models and verifies the C code of the kernel of the xv6 teaching operating system for RISC-V, the files under
  \<open>src/kernel\<close>. The user programs under \<open>src/user\<close> are not modelled. A definition translates a function or a data structure of
  the source and keeps its name where Isabelle allows it (\<open>sleep\<close> is \<open>sleep_on\<close>, \<open>yield\<close> is \<open>yield_cpu\<close>, \<open>killed()\<close> is
  \<open>is_killed\<close>, \<open>struct file\<close> is \<open>file_obj\<close>).

  \<^bold>\<open>The program and its parts\<close>

  A process enters the kernel through a trap (\<open>trap.c\<close>); \<open>syscall.c\<close> dispatches to the handlers of \<open>sysproc.c\<close> and \<open>sysfile.c\<close>. Those
  work on processes (\<open>proc.c\<close>, \<open>exec.c\<close>), address spaces (\<open>vm.c\<close>, on pages from \<open>kalloc.c\<close>) and open files (\<open>file.c\<close>), which are pipes
  (\<open>pipe.c\<close>), the console (\<open>console.c\<close>, \<open>uart.c\<close>, \<open>printf.c\<close>) or inodes (\<open>fs.c\<close>). The file system runs every update as a
  transaction of the write-ahead log (\<open>log.c\<close>), which works on the buffer cache (\<open>bio.c\<close>), which uses the disk driver
  (\<open>virtio_disk.c\<close>). Underneath are spin locks, sleep locks, and \<open>sleep\<close> and \<open>wakeup\<close>.

  \<^bold>\<open>How the code is modelled\<close>

  A kernel routine is a function from the state to an outcome (theory \<open>Prelude\<close>): \<open>Ok\<close> with a result and a new state, \<open>Panic\<close> with the
  message, \<open>Switch\<close> with the state in which the routine gave up the CPU in \<open>sched()\<close>, or \<open>Diverge\<close>. A routine that sleeps inside a loop is
  written so that the loop with its local variables is a definition of its own (for instance \<open>pipewrite_loop\<close>, \<open>wait_loop\<close>): that
  definition is what runs when the process is woken, after \<open>sleep_resume\<close>. \<open>Diverge\<close> stands for a loop that does not end (a spin on a
  lock nobody releases, a poll of a device that never answers, fuel that ran out) and for what C leaves undefined (a store outside
  \<open>buf[16]\<close> in \<open>printint\<close> or outside \<open>lh.block[LOGSIZE]\<close> in \<open>read_head\<close>).

  Some loops carry fuel: the number of buffered bytes (\<open>uartstart_loop\<close>, \<open>uartintr_loop\<close>, \<open>virtio_intr_loop\<close>, \<open>kill_line\<close>), of pages of a range
  (\<open>mappages_loop\<close>, \<open>uvmalloc_loop\<close>, \<open>uvmunmap_loop\<close>, \<open>uvmcopy_loop\<close>, \<open>loadseg_loop\<close>), of levels of a page table (\<open>freewalk\<close>), of
  descriptors of a chain (\<open>free_chain_loop\<close>), of buffers in the ring (\<open>bget_cached\<close>, \<open>bget_unused\<close>). That the fuel is enough, so that the
  routine returns, is proved for \<open>mappages\<close>, \<open>uartstart\<close>, the line editor's \<open>kill_line\<close> and \<open>bget\<close>, as part of the theorems about them; for the other
  loops of this list no theorem says so.

  The state is one record that every component extends with its own variables: locks held (\<open>kctx\<close>), processes (\<open>sched_st\<close>), sleep
  locks (\<open>sleep_st\<close>), physical memory (\<open>mem_st\<close>), buffers and disk (\<open>bio_st\<close>), log (\<open>log_st\<close>), superblock and inode table
  (\<open>fs_st\<close>), UART and console (\<open>dev_st\<close>), pipes (\<open>pipe_st\<close>), open files (\<open>file_st\<close>), disk driver (\<open>vio_st\<close>), registers and interrupt
  controller (\<open>trap_st\<close>). A routine is polymorphic in the extension, so what it cannot touch is visible in its type. Pointers into the kernel's
  static arrays are indices; pages, page tables, trapframes and the free list live in the byte-addressed physical
  memory, and on-disk structures in the bytes of blocks, little-endian. A \<open>struct pipe\<close> is a record named by the address of its page
  and is not laid out in the bytes of that page.

  Integers: registers, addresses, process ids, ticks and the counters of the ring buffers are words of their width. Reference counts of buffers,
  inodes and files, the nesting depth \<open>noff\<close> and file offsets are numbers with the wrap-around written out, and \<open>strlen\<close> has no result when its
  \<open>int\<close> overflows. Kept as numbers without a bound are \<open>log.outstanding\<close> and \<open>log.lh.n\<close>, which \<open>begin_op\<close> and \<open>log_write\<close> keep
  at \<open>LOGSIZE\<close> or below, and the depth in the per-thread view of the locks, which stays below \<open>2 ^ 31\<close> because there are
  fewer locks than that.

  Concurrency is treated in two ways. Spin locks, sleep locks and the log's reservation are step relations in which any number of
  harts or processes interleave; the text at each relation says which accesses are single steps. The other components are
  written against the view of one kernel thread that these relations justify: between acquiring and releasing a lock the data it protects
  changes only by the thread's own doing.

  \<^bold>\<open>Theories, and what they show\<close>

  \<^item> \<open>Prelude\<close>: machine types, names of locks and channels, the monad and its rules, little-endian integers. \<open>Ring\<close>: the locale of ring
    buffers with free-running counters, interpreted for pipes, the UART and the console.
  \<^item> \<open>Spinlock\<close> (\<open>spinlock.c\<close>): mutual exclusion, progress, nesting of \<open>push_off\<close>, and the per-thread view. \<open>Sched\<close> (\<open>sleep\<close>, \<open>wakeup\<close>,
    \<open>kill\<close> of \<open>proc.c\<close>): exact effects of \<open>wakeup\<close> and \<open>kill\<close>. \<open>Sleeplock\<close> (\<open>sleeplock.c\<close>): mutual exclusion, no lost wakeups, progress.
  \<^item> \<open>Kstring\<close> (\<open>string.c\<close>): overlap-safe copying, the string functions. \<open>Kalloc\<close> (\<open>kalloc.c\<close>): the free list as a set of pages. \<open>Vm\<close>
    (\<open>vm.c\<close>): page tables as maps, the copies between user and kernel memory.
  \<^item> \<open>Bio\<close> (\<open>bio.c\<close>): the cache as an abstract block store with a locale for its contract, least-recently-used recycling,
    initialisation. The disk transfer \<open>disk_rw\<close> is the contract of \<open>virtio_disk_rw\<close>. \<open>Log\<close> (\<open>log.c\<close>):
    atomicity of commits under crashes at every disk write, the reservation of log space.
  \<^item> \<open>Fs\<close> (\<open>fs.c\<close>): all of its functions; the theorem is about path names. \<open>Umem\<close>: user memory seen by a process. \<open>Blocks\<close>: the view of
    cache and log inside a transaction, and block allocation in the bitmap.
  \<^item> \<open>Uart\<close> (\<open>uart.c\<close>), \<open>Kprintf\<close> (\<open>printf.c\<close>), \<open>Console\<close> (\<open>console.c\<close>), \<open>Pipe\<close> (\<open>pipe.c\<close>): queues that neither lose nor
    reorder bytes, the line editor, numbers printed and read back, and where the buffer of \<open>printint\<close> overflows.
  \<^item> \<open>File\<close> (\<open>file.c\<close>), \<open>Proc\<close> (the rest of \<open>proc.c\<close>), \<open>Exec\<close> (\<open>exec.c\<close>), \<open>Sysargs\<close>, \<open>Sysproc\<close>, \<open>Sysfile\<close>, \<open>Syscall\<close> (\<open>syscall.c\<close>,
    \<open>sysproc.c\<close>, \<open>sysfile.c\<close>), \<open>Virtio\<close> (\<open>virtio_disk.c\<close>), \<open>Trap\<close> (\<open>trap.c\<close>, \<open>plic.c\<close>, \<open>main.c\<close>, \<open>start.c\<close>): models without theorems.

  \<^bold>\<open>Not modelled\<close>

  All programs under \<open>src/user\<close>: the shell, the library (\<open>ulib.c\<close>, \<open>umalloc.c\<close>, \<open>printf.c\<close>), the utilities and the test programs; and \<open>mkfs.c\<close>,
  which runs on the host. The assembly files (\<open>entry.S\<close>, \<open>kernelvec.S\<close>, \<open>swtch.S\<close>, \<open>trampoline.S\<close>) and the register accessors of \<open>riscv.h\<close> are
  instructions of the machine; their effect on the modelled state is part of the definitions that use them. The devices behind the UART, the
  interrupt controller and the disk are their answers to register reads. The messages printed when the file system runs out of blocks or
  inodes, memory barriers, the initialisation of spin locks outside \<open>spinlock.c\<close>, the read of the UART's \<open>ISR\<close> register and the saving of \<open>intena\<close> in \<open>sched\<close> have no
  effect on the modelled state and are left out.
\<close>

end
